(* ===== verification/L3_Prelude.thy ===== *)
theory L3_Prelude
  imports Main "HOL-Library.Word" "HOL-Library.List_Lexorder" "HOL-Library.Sublist"
begin

text \<open>
  Shared vocabulary of the development: machine integers and byte strings, the little-endian
  images that \<open>memcpy\<close> of an integer produces, decimal printing and parsing
  (\<open>std::to_string\<close>, \<open>std::stoul\<close>, \<open>std::stoll\<close>), string searches, and the interface
  (locale) of the fixed-width codecs.
\<close>

unbundle bit_operations_syntax

type_synonym u8 = "8 word"
type_synonym u16 = "16 word"
type_synonym u32 = "32 word"
type_synonym u64 = "64 word"

text \<open>
  \<open>std::string\<close>, \<open>std::string_view\<close>, \<open>std::vector<uint8_t>\<close> and the storage of a
  \<open>lite3cpp::Buffer\<close> are all byte sequences. The order of \<open>HOL-Library.List_Lexorder\<close> over
  unsigned bytes is the order of \<open>std::less<std::string>\<close>.
\<close>

type_synonym bytes = "u8 list"

named_theorems codec_simps \<open>little-endian encoders and decoders\<close>
named_theorems omap_simps \<open>ordered association lists\<close>
named_theorems decimal_simps \<open>decimal printing and parsing\<close>

subsection \<open>String literals as bytes\<close>

definition byte_of_char :: "char \<Rightarrow> u8" where
  "byte_of_char c = word_of_nat (of_char c)"

definition bs :: "string \<Rightarrow> bytes" where
  "bs s = map byte_of_char s"

lemma unat_byte_of_char: "unat (byte_of_char c) = (of_char c :: nat)"
  by (simp add: byte_of_char_def unat_of_nat take_bit_nat_eq_self_iff)

lemma byte_of_char_inject [simp]: "byte_of_char c = byte_of_char d \<longleftrightarrow> c = d"
  by (metis char_of_char unat_byte_of_char)

lemma bs_Nil [simp]: "bs [] = []"
  by (simp add: bs_def)

lemma bs_Cons [simp]: "bs (c # s) = byte_of_char c # bs s"
  by (simp add: bs_def)

lemma bs_append: "bs (s @ t) = bs s @ bs t"
  by (simp add: bs_def)

lemma bs_inject [simp]: "bs s = bs t \<longleftrightarrow> s = t"
  by (simp add: bs_def inj_map_eq_map inj_def)

lemma length_bs [simp]: "length (bs s) = length s"
  by (simp add: bs_def)

lemma unat_bound: "unat (w :: 'a::len word) < 2 ^ LENGTH('a)"
  by (fact unsigned_less)

lemma unat_u8_bound [simp]: "unat (b :: u8) < 256"
  using unat_bound [of b] by simp

lemma unat_u8_less: "256 \<le> n \<Longrightarrow> unat (b :: u8) < n"
  by (rule less_le_trans [OF unat_u8_bound])

lemma unat_u8_of_nat: "unat (word_of_nat k :: u8) = k mod 256"
  by (simp add: unat_of_nat take_bit_eq_mod)

lemma xor_right_cancel [simp]: "(a :: 'a::len word) XOR c = b XOR c \<longleftrightarrow> a = b"
proof
  assume "a XOR c = b XOR c"
  then have "(a XOR c) XOR c = (b XOR c) XOR c"
    by simp
  then show "a = b"
    by (simp add: xor.assoc)
qed simp

lemma xor_left_cancel [simp]: "(c :: 'a::len word) XOR a = c XOR b \<longleftrightarrow> a = b"
  by (simp add: xor.commute [of c])

subsection \<open>Little-endian images of integers\<close>

primrec le_nat :: "bytes \<Rightarrow> nat" where
  "le_nat [] = 0"
| "le_nat (b # r) = unat b + 256 * le_nat r"

primrec nat_le :: "nat \<Rightarrow> nat \<Rightarrow> bytes" where
  "nat_le 0 k = []"
| "nat_le (Suc n) k = word_of_nat k # nat_le n (k div 256)"

lemma nat_le_numeral [simp]:
  "nat_le (numeral n) k = word_of_nat k # nat_le (pred_numeral n) (k div 256)"
  by (simp only: numeral_eq_Suc [of n] nat_le.simps)

lemma length_nat_le [simp, codec_simps]: "length (nat_le n k) = n"
  by (induction n arbitrary: k) auto

lemma le_nat_nat_le [codec_simps]: "le_nat (nat_le n k) = k mod 256 ^ n"
proof (induction n arbitrary: k)
  case 0
  then show ?case by simp
next
  case (Suc n)
  have "k mod 256 ^ Suc n = 256 * (k div 256 mod 256 ^ n) + k mod 256"
    unfolding power_Suc by (rule mod_mult2_eq)
  then show ?case
    by (simp only: nat_le.simps le_nat.simps Suc.IH unat_u8_of_nat add.commute)
qed

lemma le_nat_less: "le_nat b < 256 ^ length b"
proof (induction b)
  case Nil
  then show ?case by simp
next
  case (Cons a b)
  have "unat a + 256 * le_nat b < 256 * Suc (le_nat b)"
    by simp
  also have "256 * Suc (le_nat b) \<le> 256 * 256 ^ length b"
    by (rule mult_le_mono2) (use Cons in simp)
  finally show ?case
    by simp
qed

lemma le_nat_nat_le_unat:
  assumes "LENGTH('a) = 8 * n"
  shows "le_nat (nat_le n (unat (w :: 'a::len word))) = unat w"
proof -
  have "(2::nat) ^ LENGTH('a) = 256 ^ n"
    by (simp add: assms power_mult)
  with unat_bound [of w] have "unat w < 256 ^ n"
    by simp
  then show ?thesis
    by (simp add: le_nat_nat_le)
qed

lemma nat_le_le_nat: "nat_le (length b) (le_nat b) = b"
proof (induction b)
  case (Cons a b)
  have "unat (word_of_nat (unat a + 256 * le_nat b) :: u8) = unat a"
    unfolding unat_u8_of_nat by simp
  with Cons show ?case
    by (simp add: word_unat_eq_iff del: of_nat_add of_nat_mult)
qed simp

definition enc_u16 :: "u16 \<Rightarrow> bytes" where
  "enc_u16 w = nat_le 2 (unat w)"

definition dec_u16 :: "bytes \<Rightarrow> u16" where
  "dec_u16 b = word_of_nat (le_nat b)"

definition enc_u32 :: "u32 \<Rightarrow> bytes" where
  "enc_u32 w = nat_le 4 (unat w)"

definition dec_u32 :: "bytes \<Rightarrow> u32" where
  "dec_u32 b = word_of_nat (le_nat b)"

definition enc_u64 :: "u64 \<Rightarrow> bytes" where
  "enc_u64 w = nat_le 8 (unat w)"

definition dec_u64 :: "bytes \<Rightarrow> u64" where
  "dec_u64 b = word_of_nat (le_nat b)"

text \<open>
  The contract of a fixed-width field: every value has an image of the same width, and reading
  the image gives the value back. What a reader needs follows once, for a field at the front of
  a longer buffer.
\<close>

locale fixed_codec =
  fixes enc :: "'a \<Rightarrow> bytes" and dec :: "bytes \<Rightarrow> 'a" and width :: nat
  assumes width_enc: "length (enc x) = width"
    and dec_enc: "dec (enc x) = x"
begin

lemma dec_take: "dec (take width (enc x @ rest)) = x"
  by (simp add: width_enc dec_enc)

lemma drop_enc: "drop width (enc x @ rest) = rest"
  by (simp add: width_enc)

lemma enc_inject: "enc x = enc y \<longleftrightarrow> x = y"
  by (metis dec_enc)

lemma enc_prefix_inject: "enc x @ r = enc y @ s \<Longrightarrow> x = y \<and> r = s"
  by (metis append_eq_append_conv dec_enc width_enc)

end

interpretation c16: fixed_codec enc_u16 dec_u16 2
proof
  fix x :: u16
  show "length (enc_u16 x) = 2"
    by (simp add: enc_u16_def del: nat_le_numeral)
  show "dec_u16 (enc_u16 x) = x"
    by (simp add: enc_u16_def dec_u16_def le_nat_nat_le_unat del: nat_le_numeral)
qed

interpretation c32: fixed_codec enc_u32 dec_u32 4
proof
  fix x :: u32
  show "length (enc_u32 x) = 4"
    by (simp add: enc_u32_def del: nat_le_numeral)
  show "dec_u32 (enc_u32 x) = x"
    by (simp add: enc_u32_def dec_u32_def le_nat_nat_le_unat del: nat_le_numeral)
qed

interpretation c64: fixed_codec enc_u64 dec_u64 8
proof
  fix x :: u64
  show "length (enc_u64 x) = 8"
    by (simp add: enc_u64_def del: nat_le_numeral)
  show "dec_u64 (enc_u64 x) = x"
    by (simp add: enc_u64_def dec_u64_def le_nat_nat_le_unat del: nat_le_numeral)
qed

lemma enc_dec_u32:
  assumes "length b = 4"
  shows "enc_u32 (dec_u32 b) = b"
proof -
  have "le_nat b < 2 ^ 32"
    using le_nat_less [of b] assms by simp
  then have "unat (dec_u32 b) = le_nat b"
    by (simp add: dec_u32_def unat_of_nat take_bit_eq_mod)
  then show ?thesis
    using nat_le_le_nat [of b] assms by (simp add: enc_u32_def del: nat_le_numeral)
qed

lemmas codec_laws [codec_simps] =
  c16.width_enc c16.dec_enc c16.dec_take c16.drop_enc
  c32.width_enc c32.dec_enc c32.dec_take c32.drop_enc
  c64.width_enc c64.dec_enc c64.dec_take c64.drop_enc

subsection \<open>Searching strings\<close>

text \<open>
  \<open>find(c)\<close> followed by \<open>substr(0, pos)\<close> and \<open>substr(pos + 1)\<close>: the two sides of the
  first occurrence, \<open>None\<close> for \<open>npos\<close>.
\<close>

definition split_at :: "u8 \<Rightarrow> bytes \<Rightarrow> (bytes \<times> bytes) option" where
  "split_at c s =
     (case dropWhile (\<lambda>x. x \<noteq> c) s of
        [] \<Rightarrow> None
      | _ # r \<Rightarrow> Some (takeWhile (\<lambda>x. x \<noteq> c) s, r))"

lemma split_at_append [simp]: "c \<notin> set f \<Longrightarrow> split_at c (f @ c # v) = Some (f, v)"
proof -
  assume "c \<notin> set f"
  then have "\<forall>x \<in> set f. x \<noteq> c"
    by blast
  then show ?thesis
    by (simp add: split_at_def dropWhile_append2 takeWhile_append2)
qed

lemma split_at_Some: "split_at c s = Some (f, v) \<Longrightarrow> s = f @ c # v \<and> c \<notin> set f"
proof -
  assume "split_at c s = Some (f, v)"
  then obtain x where d: "dropWhile (\<lambda>x. x \<noteq> c) s = x # v" and t: "takeWhile (\<lambda>x. x \<noteq> c) s = f"
    by (auto simp: split_at_def split: list.splits)
  from d have "x = c"
    by (meson dropWhile_eq_Cons_conv)
  with d t show ?thesis
    by (metis (mono_tags, lifting) set_takeWhileD takeWhile_dropWhile_id)
qed

lemma split_at_None: "split_at c s = None \<longleftrightarrow> c \<notin> set s"
proof -
  have "dropWhile (\<lambda>x. x \<noteq> c) s = [] \<longleftrightarrow> c \<notin> set s"
    by (auto simp: dropWhile_eq_Nil_conv)
  then show ?thesis
    by (auto simp: split_at_def split: list.splits simp del: dropWhile_eq_Nil_conv)
qed

subsection \<open>Decimal numerals\<close>

fun dec_nat :: "nat \<Rightarrow> bytes" where
  "dec_nat n = (if n < 10 then [48 + word_of_nat n] else dec_nat (n div 10) @ [48 + word_of_nat (n mod 10)])"

declare dec_nat.simps [simp del]

definition to_string :: "int \<Rightarrow> bytes" where
  "to_string v = (if v < 0 then 45 # dec_nat (nat (- v)) else dec_nat (nat v))"

definition is_space :: "u8 \<Rightarrow> bool" where
  "is_space c \<longleftrightarrow> c = 32 \<or> (9 \<le> c \<and> c \<le> 13)"

definition is_digit :: "u8 \<Rightarrow> bool" where
  "is_digit c \<longleftrightarrow> 48 \<le> c \<and> c \<le> 57"

definition digits_val :: "bytes \<Rightarrow> nat" where
  "digits_val ds = foldl (\<lambda>a d. 10 * a + (unat d - 48)) 0 ds"

text \<open>
  What \<open>strtoul\<close> and \<open>strtoll\<close> accept: white space, one optional sign, a run of digits; the
  rest is ignored. No digit is \<open>std::invalid_argument\<close>, a magnitude that does not fit is
  \<open>std::out_of_range\<close>; both are \<open>None\<close>. A minus sign negates modulo \<open>2 ^ 64\<close> in the unsigned
  case, as \<open>strtoul\<close> does.
\<close>

definition parse_num :: "bytes \<Rightarrow> (bool \<times> nat) option" where
  "parse_num s =
     (let t = dropWhile is_space s;
          neg = (t \<noteq> [] \<and> hd t = 45);
          u = (if t \<noteq> [] \<and> (hd t = 45 \<or> hd t = 43) then tl t else t);
          ds = takeWhile is_digit u
      in if ds = [] then None else Some (neg, digits_val ds))"

definition stoul :: "bytes \<Rightarrow> u64 option" where
  "stoul s =
     (case parse_num s of
        None \<Rightarrow> None
      | Some (neg, v) \<Rightarrow>
          if v < 2 ^ 64 then Some (if neg then - word_of_nat v else word_of_nat v) else None)"

definition stoll :: "bytes \<Rightarrow> int option" where
  "stoll s =
     (case parse_num s of
        None \<Rightarrow> None
      | Some (neg, v) \<Rightarrow>
          (let i = (if neg then - int v else int v)
           in if - (2 ^ 63) \<le> i \<and> i < 2 ^ 63 then Some i else None))"

lemma digit_byte:
  assumes "n < 10"
  shows "is_digit (48 + word_of_nat n)" and "unat (48 + word_of_nat n :: u8) = 48 + n"
proof -
  have "unat (word_of_nat n :: u8) = n"
    using assms by (simp add: unat_u8_of_nat)
  then show *: "unat (48 + word_of_nat n :: u8) = 48 + n"
    using assms by (simp add: unat_word_ariths)
  show "is_digit (48 + word_of_nat n)"
    using assms by (simp add: is_digit_def word_le_nat_alt *)
qed

lemma set_dec_nat: "\<forall>d \<in> set (dec_nat n). is_digit d"
proof (induction n rule: dec_nat.induct)
  case (1 n)
  show ?case
  proof (cases "n < 10")
    case True
    then show ?thesis by (subst dec_nat.simps) (simp add: digit_byte)
  next
    case False
    with 1 show ?thesis
      by (subst dec_nat.simps) (auto simp: digit_byte)
  qed
qed

lemma dec_nat_not_Nil [simp]: "dec_nat n \<noteq> []"
  by (subst dec_nat.simps) simp

lemma digits_val_dec_nat [decimal_simps]: "digits_val (dec_nat n) = n"
proof (induction n rule: dec_nat.induct)
  case (1 n)
  show ?case
  proof (cases "n < 10")
    case True
    then show ?thesis by (subst dec_nat.simps) (simp add: digit_byte digits_val_def)
  next
    case False
    with 1 have "digits_val (dec_nat (n div 10)) = n div 10" by simp
    with False show ?thesis
      by (subst dec_nat.simps) (simp add: digit_byte digits_val_def)
  qed
qed

lemma not_digit_sign: "\<not> is_digit 45" "\<not> is_digit 43" "\<not> is_space 45"
  by (simp_all add: is_digit_def is_space_def)

lemma is_digit_not_space: "is_digit c \<Longrightarrow> \<not> is_space c"
  by (auto simp: is_digit_def is_space_def word_le_nat_alt)

lemma parse_num_digits:
  assumes "ds \<noteq> []" and "\<forall>d \<in> set ds. is_digit d"
  shows "parse_num ds = Some (False, digits_val ds)" and "parse_num (45 # ds) = Some (True, digits_val ds)"
proof -
  from assms obtain d r where ds: "ds = d # r" "is_digit d"
    by (cases ds) auto
  have t: "takeWhile is_digit ds = ds"
    using assms(2) by (simp add: takeWhile_eq_all_conv)
  have "dropWhile is_space ds = ds" "hd ds \<noteq> 45" "hd ds \<noteq> 43"
    using ds is_digit_not_space not_digit_sign by auto
  then show "parse_num ds = Some (False, digits_val ds)"
    using assms(1) by (simp add: parse_num_def Let_def t)
  show "parse_num (45 # ds) = Some (True, digits_val ds)"
    using assms(1) by (simp add: parse_num_def Let_def t not_digit_sign)
qed

lemma stoll_to_string [decimal_simps]:
  assumes "- (2 ^ 63) \<le> v" and "v < 2 ^ 63"
  shows "stoll (to_string v) = Some v"
  using assms
  by (auto simp: stoll_def to_string_def parse_num_digits set_dec_nat digits_val_dec_nat Let_def)

lemma stoul_dec_nat [decimal_simps]:
  assumes "n < 2 ^ 64"
  shows "stoul (dec_nat n) = Some (word_of_nat n)"
  using assms by (simp add: stoul_def parse_num_digits set_dec_nat digits_val_dec_nat)

end
