(* ===== verification/Key_Builder.thy ===== *)
theory Key_Builder
  imports L3_Prelude
begin

text \<open>
  \<open>src/src/engine/KeyBuilder.hpp\<close>: the metadata key \<open>{key}:meta\<close> is printed with \<open>snprintf\<close> into
  one of two thread-local buffers used in turn, and returned as a view into that buffer. The model
  keeps the two buffers and the index, so that what a view shows after later calls is a fact of
  the model. \<open>snprintf\<close>'s \<open>%.*s\<close> prints the key up to its first NUL byte; keys are shorter than
  \<open>2 ^ 31\<close> bytes, so the cast of their size to \<open>int\<close> is the identity.
\<close>

definition MAX_KEY_SIZE :: nat where
  "MAX_KEY_SIZE = 1024"

record key_buffers =
  kb_buffers :: "bytes list"
  kb_index :: nat

datatype string_view = NullView | View nat nat

definition get_buffer :: "key_buffers \<Rightarrow> nat \<times> key_buffers" where
  "get_buffer st = (kb_index st, st\<lparr>kb_index := (kb_index st + 1) mod 2\<rparr>)"

definition c_str :: "bytes \<Rightarrow> bytes" where
  "c_str key = takeWhile (\<lambda>c. c \<noteq> 0) key"

definition meta_text :: "bytes \<Rightarrow> bytes" where
  "meta_text key = c_str key @ bs '':meta''"

text \<open>\<open>snprintf\<close> stores at most \<open>size - 1\<close> bytes and a NUL, and returns the untruncated length.\<close>

definition snprintf :: "bytes \<Rightarrow> nat \<Rightarrow> bytes \<Rightarrow> bytes \<times> nat" where
  "snprintf buf n out =
     (let w = take (n - 1) out @ [0] in (w @ drop (length w) buf, length out))"

definition meta_key :: "bytes \<Rightarrow> key_buffers \<Rightarrow> string_view \<times> key_buffers" where
  "meta_key key st =
     (let (i, st1) = get_buffer st;
          (buf, len) = snprintf (kb_buffers st1 ! i) MAX_KEY_SIZE (meta_text key);
          st2 = st1\<lparr>kb_buffers := (kb_buffers st1)[i := buf]\<rparr>
      in if len \<ge> MAX_KEY_SIZE then (NullView, st2) else (View i len, st2))"

fun read_view :: "key_buffers \<Rightarrow> string_view \<Rightarrow> bytes" where
  "read_view st NullView = []"
| "read_view st (View i n) = take n (kb_buffers st ! i)"

text \<open>\<open>std::string(KeyBuilder::meta_key(key))\<close>: the copy every caller takes at once.\<close>

definition meta_key_s :: "bytes \<Rightarrow> bytes" where
  "meta_key_s key = (if length (meta_text key) \<ge> MAX_KEY_SIZE then [] else meta_text key)"

definition kb_ok :: "key_buffers \<Rightarrow> bool" where
  "kb_ok st \<longleftrightarrow> length (kb_buffers st) = 2 \<and> kb_index st < 2
     \<and> (\<forall>b \<in> set (kb_buffers st). length b = MAX_KEY_SIZE)"

definition kb_init :: key_buffers where
  "kb_init = \<lparr>kb_buffers = [replicate MAX_KEY_SIZE 0, replicate MAX_KEY_SIZE 0], kb_index = 0\<rparr>"

subsection \<open>Buffers\<close>

lemma kb_ok_init: "kb_ok kb_init"
  by (simp add: kb_ok_def kb_init_def)

lemma length_snprintf:
  "length buf = n \<Longrightarrow> 0 < n \<Longrightarrow> length (fst (snprintf buf n out)) = n"
  by (simp add: snprintf_def Let_def)

lemma take_snprintf:
  "length out < n \<Longrightarrow> take (length out) (fst (snprintf buf n out)) = out"
  by (simp add: snprintf_def Let_def)

lemma meta_key_kb_ok:
  assumes "kb_ok st"
  shows "kb_ok (snd (meta_key key st))"
proof -
  let ?i = "kb_index st"
  let ?b = "fst (snprintf (kb_buffers st ! ?i) MAX_KEY_SIZE (meta_text key))"
  have "length ?b = MAX_KEY_SIZE"
    using assms by (intro length_snprintf) (auto simp: kb_ok_def MAX_KEY_SIZE_def)
  then have "\<forall>b \<in> set ((kb_buffers st)[?i := ?b]). length b = MAX_KEY_SIZE"
    using assms set_update_subset_insert [of "kb_buffers st" ?i ?b] by (auto simp: kb_ok_def)
  then show ?thesis
    using assms by (auto simp: meta_key_def get_buffer_def kb_ok_def Let_def split: prod.splits)
qed

lemma meta_key_index: "kb_index (snd (meta_key key st)) = (kb_index st + 1) mod 2"
  by (auto simp: meta_key_def get_buffer_def Let_def split: prod.splits)

lemma meta_key_view:
  "fst (meta_key key st) =
     (if length (meta_text key) \<ge> MAX_KEY_SIZE then NullView
      else View (kb_index st) (length (meta_text key)))"
  by (simp add: meta_key_def get_buffer_def snprintf_def Let_def)

lemma meta_key_buffers:
  "kb_buffers (snd (meta_key key st)) =
     (kb_buffers st)[kb_index st :=
        fst (snprintf (kb_buffers st ! kb_index st) MAX_KEY_SIZE (meta_text key))]"
  by (simp add: meta_key_def get_buffer_def snprintf_def Let_def)

lemma read_own_view:
  assumes "kb_ok st"
  shows "read_view (snd (meta_key key st)) (fst (meta_key key st)) = meta_key_s key"
  using assms
  by (auto simp: meta_key_view meta_key_buffers meta_key_s_def kb_ok_def take_snprintf)

lemma read_view_other:
  assumes "kb_ok st" and "i < 2" and "i \<noteq> kb_index st"
  shows "read_view (snd (meta_key key st)) (View i n) = read_view st (View i n)"
  using assms by (simp add: meta_key_buffers)

lemma index_flips: "kb_ok st \<Longrightarrow> kb_index st \<noteq> kb_index (snd (meta_key key st))"
proof -
  assume "kb_ok st"
  then have "kb_index st = 0 \<or> kb_index st = 1"
    by (auto simp: kb_ok_def)
  then show ?thesis
    by (auto simp: meta_key_index)
qed

subsection \<open>Texts\<close>

lemma c_str_no_nul: "0 \<notin> set key \<Longrightarrow> c_str key = key"
  by (auto simp: c_str_def takeWhile_eq_all_conv)

lemma zero_notin_c_str: "0 \<notin> set (c_str key)"
  by (auto simp: c_str_def dest: set_takeWhileD)

lemma meta_text_inject: "meta_text k1 = meta_text k2 \<longleftrightarrow> c_str k1 = c_str k2"
  by (simp add: meta_text_def)

lemma length_meta_text: "length (meta_text k) = length (c_str k) + 5"
  by (simp add: meta_text_def)

lemma meta_key_s_short: "length (c_str k) < 1019 \<Longrightarrow> meta_key_s k = c_str k @ bs '':meta''"
  by (simp add: meta_key_s_def MAX_KEY_SIZE_def length_meta_text meta_text_def)

lemma meta_key_s_suffix: "suffix (bs '':meta'') (meta_key_s k) \<or> meta_key_s k = []"
  by (simp add: meta_key_s_def meta_text_def suffix_def)

lemma meta_key_s_neq: "meta_key_s k \<noteq> k"
proof
  assume eq: "meta_key_s k = k"
  show False
  proof (cases "length (meta_text k) \<ge> MAX_KEY_SIZE")
    case True
    with eq have "k = []" by (simp add: meta_key_s_def)
    with True show False
      by (simp add: meta_text_def c_str_def MAX_KEY_SIZE_def)
  next
    case False
    with eq have k: "k = c_str k @ bs '':meta''"
      by (simp add: meta_key_s_def meta_text_def)
    have "0 \<notin> set (bs '':meta'')"
      by (simp add: byte_of_char_def)
    with k have "0 \<notin> set k"
      by (metis Un_iff set_append zero_notin_c_str)
    then have "c_str k = k" by (rule c_str_no_nul)
    with k show False by simp
  qed
qed

subsection \<open>Properties\<close>

text \<open>
  The view returned for a key shows the metadata key, and still shows it after one more key has
  been built: the two buffers used in turn keep two simultaneous keys apart.
\<close>

theorem meta_key_two_views:
  assumes "kb_ok st"
  shows "let (v1, st1) = meta_key k1 st; (v2, st2) = meta_key k2 st1
         in read_view st1 v1 = meta_key_s k1 \<and> read_view st2 v1 = meta_key_s k1
            \<and> read_view st2 v2 = meta_key_s k2 \<and> kb_ok st2"
proof -
  let ?s1 = "snd (meta_key k1 st)" and ?v1 = "fst (meta_key k1 st)"
  have ok: "kb_ok ?s1"
    using assms by (rule meta_key_kb_ok)
  have one: "read_view ?s1 ?v1 = meta_key_s k1"
    using assms by (rule read_own_view)
  have "read_view (snd (meta_key k2 ?s1)) ?v1 = read_view ?s1 ?v1"
  proof (cases ?v1)
    case (View i n)
    then have "i = kb_index st" "i < 2"
      using assms by (auto simp: meta_key_view kb_ok_def split: if_splits)
    with View show ?thesis
      using read_view_other [OF ok] index_flips [OF assms] by simp
  qed simp
  with ok one show ?thesis
    by (simp add: split_beta Let_def read_own_view meta_key_kb_ok)
qed

theorem meta_key_two_views_witness:
  "kb_ok kb_init \<and>
   (let (v1, st1) = meta_key (bs ''a'') kb_init; (v2, st2) = meta_key (bs ''b'') st1
    in read_view st1 v1 = meta_key_s (bs ''a'') \<and> read_view st2 v1 = meta_key_s (bs ''a'')
       \<and> read_view st2 v2 = meta_key_s (bs ''b'') \<and> kb_ok st2)"
  using kb_ok_init meta_key_two_views [OF kb_ok_init, of "bs ''a''" "bs ''b''"] by blast

text \<open>
  Exactly when two keys share a metadata key: their text up to the first NUL byte is the same,
  or both have 1019 or more bytes before it. In the second case the metadata key is the empty
  string, so all such keys share one metadata record.
\<close>

theorem meta_key_collision:
  "meta_key_s k1 = meta_key_s k2 \<longleftrightarrow>
     c_str k1 = c_str k2 \<or> (length (c_str k1) \<ge> 1019 \<and> length (c_str k2) \<ge> 1019)"
  by (auto simp: meta_key_s_def MAX_KEY_SIZE_def length_meta_text meta_text_inject)
     (auto simp: meta_text_def)

end
