(* ===== verification/Hlc_Clock.thy ===== *)
theory Hlc_Clock
  imports L3_Prelude "HOL-Library.Monad_Syntax" "HOL-Library.Product_Lexorder"
begin

text \<open>
  \<open>src/src/engine/clock.hpp\<close> and \<open>clock.cpp\<close>: the timestamp and its order, the hybrid logical clock
  (send, receive and batch reservation) and the thread-local front end. Physical time comes from
  outside: every operation takes the list of the next readings of \<open>get_physical_time\<close> and hands
  back the ones it has not consumed. \<open>None\<close> says that the operation has not returned within the
  readings given. \<open>int64_t\<close> wall times are only compared and copied, so they are \<open>int\<close>; the logical
  counter is a 32-bit word and wraps.
\<close>

subsection \<open>Timestamps\<close>

datatype timestamp = Timestamp (wall_time: int) (logical: u32) (node_id: u32)

definition ts_less :: "timestamp \<Rightarrow> timestamp \<Rightarrow> bool" where
  "ts_less t o' =
     (if wall_time t \<noteq> wall_time o' then wall_time t < wall_time o'
      else if logical t \<noteq> logical o' then logical t < logical o'
      else node_id t < node_id o')"

definition ts_leq :: "timestamp \<Rightarrow> timestamp \<Rightarrow> bool" where
  "ts_leq t o' \<longleftrightarrow> \<not> ts_less o' t"

instantiation timestamp :: linorder
begin

definition less_timestamp :: "timestamp \<Rightarrow> timestamp \<Rightarrow> bool" where
  "less_timestamp = ts_less"

definition less_eq_timestamp :: "timestamp \<Rightarrow> timestamp \<Rightarrow> bool" where
  "less_eq_timestamp = ts_leq"

instance
proof
  fix x y z :: timestamp
  show "x < y \<longleftrightarrow> x \<le> y \<and> \<not> y \<le> x"
    by (auto simp: less_timestamp_def less_eq_timestamp_def ts_leq_def ts_less_def)
  show "x \<le> x"
    by (simp add: less_eq_timestamp_def ts_leq_def ts_less_def)
  show "x \<le> y \<Longrightarrow> y \<le> z \<Longrightarrow> x \<le> z"
    by (auto simp: less_eq_timestamp_def ts_leq_def ts_less_def split: if_splits)
  show "x \<le> y \<Longrightarrow> y \<le> x \<Longrightarrow> x = y"
    by (cases x; cases y) (auto simp: less_eq_timestamp_def ts_leq_def ts_less_def split: if_splits)
  show "x \<le> y \<or> y \<le> x"
    by (auto simp: less_eq_timestamp_def ts_leq_def ts_less_def)
qed

end

lemma ts_less_iff:
  "Timestamp w l n < Timestamp w' l' n' \<longleftrightarrow> w < w' \<or> w = w' \<and> (l < l' \<or> l = l' \<and> n < n')"
  by (auto simp: less_timestamp_def ts_less_def)

lemma ts_leq_iff:
  "Timestamp w l n \<le> Timestamp w' l' n' \<longleftrightarrow> w < w' \<or> w = w' \<and> (l < l' \<or> l = l' \<and> n \<le> n')"
  by (auto simp: less_eq_timestamp_def ts_leq_def ts_less_def)

subsection \<open>The hybrid logical clock\<close>

text \<open>\<open>last_warn\<close> is the function-local static that rate-limits the skew warning.\<close>

record hlc =
  max_wall_time :: int
  max_logical :: u32
  hlc_node :: u32
  last_warn :: int

definition hlc_init :: "u32 \<Rightarrow> hlc" where
  "hlc_init n = \<lparr>max_wall_time = 0, max_logical = 0, hlc_node = n, last_warn = 0\<rparr>"

abbreviation UINT32_MAX :: u32 where
  "UINT32_MAX \<equiv> 0xFFFFFFFF"

fun get_physical_time :: "int list \<Rightarrow> (int \<times> int list) option" where
  "get_physical_time [] = None"
| "get_physical_time (p # rs) = Some (p, rs)"

text \<open>\<open>while (get_physical_time() <= m) yield();\<close>\<close>

fun spin_past :: "int \<Rightarrow> int list \<Rightarrow> int list option" where
  "spin_past m [] = None"
| "spin_past m (p # rs) = (if p \<le> m then spin_past m rs else Some rs)"

definition hlc_ts :: "hlc \<Rightarrow> timestamp" where
  "hlc_ts c = Timestamp (max_wall_time c) (max_logical c) (hlc_node c)"

definition warn_skew :: "int \<Rightarrow> hlc \<Rightarrow> hlc" where
  "warn_skew p c =
     (if max_wall_time c - p > 5000000 \<and> p - last_warn c > 5000000
      then c\<lparr>last_warn := p\<rparr> else c)"

definition hlc_now :: "hlc \<Rightarrow> int list \<Rightarrow> (timestamp \<times> hlc \<times> int list) option" where
  "hlc_now c rs =
     do {
       (p, rs) \<leftarrow> get_physical_time rs;
       if p > max_wall_time c
       then (let c' = c\<lparr>max_wall_time := p, max_logical := 0\<rparr> in Some (hlc_ts c', c', rs))
       else
         (let c1 = warn_skew p c in
          if max_logical c1 = UINT32_MAX
          then do {
            rs \<leftarrow> spin_past (max_wall_time c1) rs;
            (np, rs) \<leftarrow> get_physical_time rs;
            let c' = c1\<lparr>max_wall_time := np, max_logical := 0\<rparr>;
            Some (hlc_ts c', c', rs)
          }
          else (let c' = c1\<lparr>max_logical := max_logical c1 + 1\<rparr> in Some (hlc_ts c', c', rs)))
     }"

definition hlc_update_at :: "hlc \<Rightarrow> timestamp \<Rightarrow> int \<Rightarrow> hlc" where
  "hlc_update_at c incoming p =
     (let l_old = max_wall_time c; c_old = max_logical c;
          l_msg = wall_time incoming; c_msg = logical incoming;
          w = max (max l_old l_msg) p
      in c\<lparr>max_wall_time := w,
           max_logical :=
             (if w = l_old \<and> w = l_msg then max c_old c_msg + 1
              else if w = l_old then c_old + 1
              else if w = l_msg then c_msg + 1
              else 0)\<rparr>)"

definition hlc_update :: "hlc \<Rightarrow> timestamp \<Rightarrow> int list \<Rightarrow> (hlc \<times> int list) option" where
  "hlc_update c incoming rs =
     do { (p, rs) \<leftarrow> get_physical_time rs; Some (hlc_update_at c incoming p, rs) }"

definition reserve_at :: "hlc \<Rightarrow> int \<Rightarrow> int \<Rightarrow> int \<Rightarrow> int \<times> hlc" where
  "reserve_at c for_phys count p =
     (let phys_now = max p (max_wall_time c) in
      if for_phys < phys_now then (-1, c)
      else
        (let c1 = (if for_phys > max_wall_time c
                   then c\<lparr>max_wall_time := for_phys, max_logical := 0\<rparr> else c)
         in if UINT32_MAX - max_logical c1 < word_of_int count then (-1, c1)
            else (uint (max_logical c1 + 1),
                  c1\<lparr>max_logical := max_logical c1 + word_of_int count\<rparr>)))"

definition reserve_logical :: "hlc \<Rightarrow> int \<Rightarrow> int \<Rightarrow> int list \<Rightarrow> ((int \<times> hlc) \<times> int list) option" where
  "reserve_logical c for_phys count rs =
     do { (p, rs) \<leftarrow> get_physical_time rs; Some (reserve_at c for_phys count p, rs) }"

subsection \<open>The thread-local clock\<close>

record tlc =
  cached_phys_time :: int
  cached_logical_next :: u32
  cached_logical_end :: u32

definition tlc_init :: tlc where
  "tlc_init = \<lparr>cached_phys_time = 0, cached_logical_next = 0, cached_logical_end = 0\<rparr>"

definition BATCH_SIZE :: int where
  "BATCH_SIZE = 50"

definition tlc_take :: "tlc \<Rightarrow> hlc \<Rightarrow> timestamp \<times> tlc" where
  "tlc_take t g =
     (Timestamp (cached_phys_time t) (cached_logical_next t) (hlc_node g),
      t\<lparr>cached_logical_next := cached_logical_next t + 1\<rparr>)"

definition tlc_fill :: "tlc \<Rightarrow> int \<Rightarrow> int \<Rightarrow> tlc" where
  "tlc_fill t p start =
     t\<lparr>cached_phys_time := p, cached_logical_next := word_of_int start,
       cached_logical_end := word_of_int start + word_of_int BATCH_SIZE\<rparr>"

text \<open>The \<open>while (true)\<close> refill loop of \<open>ThreadLocalClock::now\<close>.\<close>

fun tlc_refill :: "tlc \<Rightarrow> hlc \<Rightarrow> int \<Rightarrow> int list \<Rightarrow> (timestamp \<times> tlc \<times> hlc \<times> int list) option" where
  "tlc_refill t g p [] = None"
| "tlc_refill t g p (r # rs) =
     (let (start, g') = reserve_at g p BATCH_SIZE r in
      if start \<ge> 0
      then (let (ts, t') = tlc_take (tlc_fill t p start) g' in Some (ts, t', g', rs))
      else
        (case rs of
           [] \<Rightarrow> None
         | np # rs' \<Rightarrow>
             if np = p
             then (case hlc_now g' rs' of
                     None \<Rightarrow> None
                   | Some (ts, g'', rs'') \<Rightarrow> Some (ts, t, g'', rs''))
             else tlc_refill t g' np rs'))"

definition tlc_reset :: "tlc \<Rightarrow> int \<Rightarrow> tlc" where
  "tlc_reset t p =
     (if p > cached_phys_time t
      then t\<lparr>cached_phys_time := p, cached_logical_next := 0, cached_logical_end := 0\<rparr> else t)"

definition tlc_now :: "tlc \<Rightarrow> hlc \<Rightarrow> int list \<Rightarrow> (timestamp \<times> tlc \<times> hlc \<times> int list) option" where
  "tlc_now t g rs =
     do {
       (p, rs) \<leftarrow> get_physical_time rs;
       if p = cached_phys_time t \<and> cached_logical_next t < cached_logical_end t
       then (let (ts, t') = tlc_take t g in Some (ts, t', g, rs))
       else tlc_refill (tlc_reset t p) g p rs
     }"

subsection \<open>Positions\<close>

text \<open>
  A clock's position and a timestamp's stamp are pairs (wall time, logical counter) in
  lexicographic order.
\<close>

definition pos :: "hlc \<Rightarrow> int \<times> u32" where
  "pos c = (max_wall_time c, max_logical c)"

definition stamp :: "timestamp \<Rightarrow> int \<times> u32" where
  "stamp t = (wall_time t, logical t)"

definition update_wraps :: "hlc \<Rightarrow> timestamp \<Rightarrow> int \<Rightarrow> bool" where
  "update_wraps c t p \<longleftrightarrow>
     (let w = max (max (max_wall_time c) (wall_time t)) p
      in if w = max_wall_time c \<and> w = wall_time t then max (max_logical c) (logical t) = UINT32_MAX
         else if w = max_wall_time c then max_logical c = UINT32_MAX
         else if w = wall_time t then logical t = UINT32_MAX
         else False)"

definition spin_safe :: "hlc \<Rightarrow> int list \<Rightarrow> bool" where
  "spin_safe c rs \<longleftrightarrow> (max_logical c = UINT32_MAX \<longrightarrow> sorted rs)"

lemma u32_inc_less: "(l :: u32) \<noteq> UINT32_MAX \<Longrightarrow> l < l + 1"
proof -
  assume "l \<noteq> UINT32_MAX"
  then have "unat l \<noteq> unat UINT32_MAX"
    using word_unat_eq_iff by blast
  then have "unat l + 1 < 2 ^ 32"
    using unat_bound [of l] by simp
  then show ?thesis
    by (simp add: word_less_nat_alt unat_word_ariths)
qed

lemma stamp_less_imp: "stamp a < stamp b \<Longrightarrow> a < b"
  by (cases a; cases b) (auto simp: stamp_def ts_less_iff less_prod_simp)

lemma stamp_hlc_ts: "stamp (hlc_ts c) = pos c"
  by (simp add: stamp_def hlc_ts_def pos_def)

lemma spin_past_above: "spin_past m rs = Some rs' \<Longrightarrow> sorted rs \<Longrightarrow> \<forall>r \<in> set rs'. m < r"
  by (induction m rs rule: spin_past.induct) (auto split: if_splits)

lemma warn_skew_simps [simp]:
  "max_wall_time (warn_skew p c) = max_wall_time c"
  "max_logical (warn_skew p c) = max_logical c"
  "hlc_node (warn_skew p c) = hlc_node c"
  by (simp_all add: warn_skew_def)

lemma hlc_now_pos:
  assumes "hlc_now c rs = Some (t, c', rs')" and "spin_safe c rs"
  shows "pos c < pos c'" and "t = hlc_ts c'" and "hlc_node c' = hlc_node c"
proof -
  obtain p r1 where rs: "rs = p # r1"
    using assms(1) by (cases rs) (auto simp: hlc_now_def)
  have "pos c < pos c' \<and> t = hlc_ts c' \<and> hlc_node c' = hlc_node c"
  proof (cases "p > max_wall_time c")
    case True
    then show ?thesis
      using assms(1) rs by (auto simp: hlc_now_def Let_def pos_def)
  next
    case np: False
    show ?thesis
    proof (cases "max_logical c = UINT32_MAX")
      case True
      then obtain r2 np r3 where sp: "spin_past (max_wall_time c) r1 = Some r2" "r2 = np # r3"
        and c': "c' = (warn_skew p c)\<lparr>max_wall_time := np, max_logical := 0\<rparr>" "t = hlc_ts c'"
        using assms(1) rs np
        by (auto simp: hlc_now_def Let_def bind_eq_Some_conv elim!: get_physical_time.elims)
      have "sorted r1"
        using assms(2) True rs by (simp add: spin_safe_def)
      with sp have "max_wall_time c < np"
        using spin_past_above by fastforce
      with c' show ?thesis
        by (simp add: pos_def)
    next
      case False
      then show ?thesis
        using assms(1) rs np u32_inc_less [OF False] by (auto simp: hlc_now_def Let_def pos_def)
    qed
  qed
  then show "pos c < pos c'" and "t = hlc_ts c'" and "hlc_node c' = hlc_node c"
    by auto
qed

lemma hlc_update_pos:
  assumes "\<not> update_wraps c t p"
  shows "pos c < pos (hlc_update_at c t p)" and "stamp t < pos (hlc_update_at c t p)"
proof -
  have m: "max (max_logical c) (logical t) < max (max_logical c) (logical t) + 1"
    if "max (max_logical c) (logical t) \<noteq> UINT32_MAX"
    using that by (rule u32_inc_less)
  show "pos c < pos (hlc_update_at c t p)" and "stamp t < pos (hlc_update_at c t p)"
    using assms m u32_inc_less [of "max_logical c"] u32_inc_less [of "logical t"]
    by (auto simp: update_wraps_def hlc_update_at_def pos_def stamp_def Let_def split: if_splits)
qed

lemma hlc_update_node [simp]: "hlc_node (hlc_update_at c t p) = hlc_node c"
  by (simp add: hlc_update_at_def Let_def)

lemma reserve_at_pos_mono:
  "reserve_at c f n p = (start, c') \<Longrightarrow> start < 0 \<Longrightarrow> pos c \<le> pos c'"
  by (auto simp: reserve_at_def pos_def Let_def split: if_splits)

lemma reserve_at_node: "reserve_at c f n p = (start, c') \<Longrightarrow> hlc_node c' = hlc_node c"
  by (auto simp: reserve_at_def Let_def split: if_splits)

lemma u32_room:
  assumes "\<not> UINT32_MAX - l < (50 :: u32)"
  shows "unat l + 50 < 2 ^ 32"
proof -
  have "l \<le> UINT32_MAX"
    by (simp add: word_le_nat_alt) (use unat_bound [of l] in simp)
  then have "unat (UINT32_MAX - l) = 4294967295 - unat l"
    by (simp add: unat_sub)
  with assms show ?thesis
    using unat_bound [of l] by (simp add: word_less_nat_alt)
qed

text \<open>A successful reservation starts right above the clock's position and ends at its new one.\<close>

lemma reserve_at_block:
  assumes "reserve_at c f BATCH_SIZE p = (start, c')" and "start \<ge> 0"
  defines "s0 \<equiv> (word_of_int start :: u32)"
  shows "pos c < (f, s0)" and "pos c' = (f, s0 + 49)" and "unat s0 + 49 < 2 ^ 32"
proof -
  define c1 where "c1 = (if f > max_wall_time c then c\<lparr>max_wall_time := f, max_logical := 0\<rparr> else c)"
  define l where "l = max_logical c1"
  have *: "\<not> f < max p (max_wall_time c)" "\<not> UINT32_MAX - l < 50"
    "start = uint (l + 1)" "c' = c1\<lparr>max_logical := l + 50\<rparr>"
    using assms(1,2) by (auto simp: reserve_at_def Let_def BATCH_SIZE_def c1_def l_def split: if_splits)
  have room: "unat l + 50 < 2 ^ 32"
    using *(2) by (rule u32_room)
  have s0: "s0 = l + 1"
    using *(3) by (simp add: s0_def)
  have us0: "unat s0 = unat l + 1"
    using room by (simp add: s0 unat_word_ariths)
  have f: "max_wall_time c1 = f" "pos c \<le> (f, l)"
    using *(1) by (auto simp: c1_def l_def pos_def)
  have "l < s0"
    using us0 by (simp add: word_less_nat_alt)
  then have "(f, l) < (f, s0)"
    by simp
  with f(2) show "pos c < (f, s0)"
    by (rule le_less_trans)
  show "pos c' = (f, s0 + 49)"
    using f(1) by (simp add: *(4) pos_def s0)
  show "unat s0 + 49 < 2 ^ 32"
    using us0 room by simp
qed

definition slots :: "tlc \<Rightarrow> (int \<times> u32) set" where
  "slots t = {(cached_phys_time t, l) | l. cached_logical_next t \<le> l \<and> l < cached_logical_end t}"

lemma slots_init: "slots tlc_init = {}"
  by (simp add: slots_def tlc_init_def)

lemma slots_take:
  assumes "cached_logical_next t < cached_logical_end t" and "tlc_take t g = (ts, t')"
  shows "stamp ts \<in> slots t" and "slots t' \<subseteq> slots t - {stamp ts}"
proof -
  let ?n = "cached_logical_next t" and ?e = "cached_logical_end t"
  have "?n \<noteq> UINT32_MAX"
    using assms(1) unat_bound [of ?e] by (auto simp: word_less_nat_alt)
  then have inc: "?n < ?n + 1"
    by (rule u32_inc_less)
  show "stamp ts \<in> slots t"
    using assms by (auto simp: tlc_take_def slots_def stamp_def)
  show "slots t' \<subseteq> slots t - {stamp ts}"
    using assms(2) inc by (auto simp: tlc_take_def slots_def stamp_def)
qed

lemma slots_reset: "slots (tlc_reset t p) \<subseteq> slots t"
  by (auto simp: slots_def tlc_reset_def)

lemma slots_fill:
  assumes "unat s0 + 49 < 2 ^ 32" and "s0 = (word_of_int start :: u32)"
    and "tlc_take (tlc_fill t p start) g = (ts, t')"
  shows "stamp ts = (p, s0)" and "slots t' \<subseteq> {(p, l) | l. s0 < l \<and> l \<le> s0 + 49}"
proof -
  show "stamp ts = (p, s0)"
    using assms(2,3) by (auto simp: tlc_take_def tlc_fill_def stamp_def)
  have "s0 < l \<and> l \<le> s0 + 49" if "s0 + 1 \<le> l" "l < s0 + 50" for l
    using that assms(1) by (simp add: word_less_nat_alt word_le_nat_alt unat_word_ariths)
  then show "slots t' \<subseteq> {(p, l) | l. s0 < l \<and> l \<le> s0 + 49}"
    using assms(2,3) by (auto simp: tlc_take_def tlc_fill_def slots_def BATCH_SIZE_def)
qed

subsection \<open>Threads sharing one clock\<close>

text \<open>
  Every access to the shared clock is one critical section of its mutex, so a step is one critical
  section, or a move on one thread's cache: any interleaving of calls of \<open>ThreadLocalClock::now\<close>,
  \<open>HybridLogicalClock::now\<close> and \<open>HybridLogicalClock::update\<close> is a sequence of these steps.
  \<open>sys_issued\<close> is a ghost list of the timestamps handed out.
\<close>

record clock_sys =
  sys_g :: hlc
  sys_t :: "nat \<Rightarrow> tlc"
  sys_issued :: "timestamp list"

definition clock_sys_init :: "u32 \<Rightarrow> clock_sys" where
  "clock_sys_init n = \<lparr>sys_g = hlc_init n, sys_t = (\<lambda>_. tlc_init), sys_issued = []\<rparr>"

inductive clk_step :: "clock_sys \<Rightarrow> clock_sys \<Rightarrow> bool" where
  global_now:
    "hlc_now (sys_g s) rs = Some (ts, g', rs') \<Longrightarrow> spin_safe (sys_g s) rs \<Longrightarrow>
     clk_step s (s\<lparr>sys_g := g', sys_issued := ts # sys_issued s\<rparr>)"
| global_update:
    "\<not> update_wraps (sys_g s) inc p \<Longrightarrow>
     clk_step s (s\<lparr>sys_g := hlc_update_at (sys_g s) inc p\<rparr>)"
| thread_cached:
    "cached_logical_next (sys_t s i) < cached_logical_end (sys_t s i) \<Longrightarrow>
     tlc_take (sys_t s i) (sys_g s) = (ts, t') \<Longrightarrow>
     clk_step s (s\<lparr>sys_t := (sys_t s)(i := t'), sys_issued := ts # sys_issued s\<rparr>)"
| thread_reset:
    "clk_step s (s\<lparr>sys_t := (sys_t s)(i := tlc_reset (sys_t s i) p)\<rparr>)"
| thread_reserve:
    "reserve_at (sys_g s) p BATCH_SIZE r = (start, g') \<Longrightarrow> start \<ge> 0 \<Longrightarrow>
     tlc_take (tlc_fill (sys_t s i) p start) g' = (ts, t') \<Longrightarrow>
     clk_step s (s\<lparr>sys_g := g', sys_t := (sys_t s)(i := t'), sys_issued := ts # sys_issued s\<rparr>)"
| thread_reserve_fail:
    "reserve_at (sys_g s) p BATCH_SIZE r = (start, g') \<Longrightarrow> start < 0 \<Longrightarrow>
     clk_step s (s\<lparr>sys_g := g'\<rparr>)"

inductive clk_reachable :: "u32 \<Rightarrow> clock_sys \<Rightarrow> bool" for n where
  clk_start: "clk_reachable n (clock_sys_init n)"
| clk_next: "clk_reachable n s \<Longrightarrow> clk_step s s' \<Longrightarrow> clk_reachable n s'"

definition clk_inv :: "u32 \<Rightarrow> clock_sys \<Rightarrow> bool" where
  "clk_inv n s \<longleftrightarrow>
     hlc_node (sys_g s) = n
     \<and> (\<forall>t \<in> set (sys_issued s). node_id t = n \<and> stamp t \<le> pos (sys_g s))
     \<and> (\<forall>i. \<forall>x \<in> slots (sys_t s i). x \<le> pos (sys_g s))
     \<and> (\<forall>i. \<forall>t \<in> set (sys_issued s). stamp t \<notin> slots (sys_t s i))
     \<and> (\<forall>i j. i \<noteq> j \<longrightarrow> slots (sys_t s i) \<inter> slots (sys_t s j) = {})
     \<and> distinct (map stamp (sys_issued s))"

lemma clk_inv_init: "clk_inv n (clock_sys_init n)"
  by (simp add: clk_inv_def clock_sys_init_def slots_init hlc_init_def)

text \<open>Moving the shared clock forward and dropping cached slots both keep the invariant.\<close>

lemma clk_inv_advance:
  assumes "clk_inv n s" and "pos (sys_g s) \<le> pos g'" and "hlc_node g' = n"
  shows "clk_inv n (s\<lparr>sys_g := g'\<rparr>)"
  using assms by (auto simp: clk_inv_def intro: order.trans)

lemma clk_inv_cache:
  assumes inv: "clk_inv n s"
    and le: "\<And>x. x \<in> slots t' \<Longrightarrow> x \<le> pos (sys_g s)"
    and fresh: "\<And>x. x \<in> slots t' \<Longrightarrow> x \<notin> stamp ` set (sys_issued s)"
    and disj: "\<And>j. j \<noteq> i \<Longrightarrow> slots t' \<inter> slots (sys_t s j) = {}"
  shows "clk_inv n (s\<lparr>sys_t := (sys_t s)(i := t')\<rparr>)"
proof -
  have "slots (((sys_t s)(i := t')) j) \<inter> slots (((sys_t s)(i := t')) k) = {}" if "j \<noteq> k" for j k
    using that inv disj [of j] disj [of k] by (auto simp: clk_inv_def)
  moreover have "x \<le> pos (sys_g s)" if "x \<in> slots (((sys_t s)(i := t')) j)" for x j
    using that inv le by (auto simp: clk_inv_def split: if_splits)
  moreover have "stamp t \<notin> slots (((sys_t s)(i := t')) j)" if "t \<in> set (sys_issued s)" for t j
    using that inv fresh [of "stamp t"] by (auto simp: clk_inv_def)
  ultimately show ?thesis
    using inv by (simp add: clk_inv_def)
qed

lemma clk_inv_shrink:
  assumes "clk_inv n s" and "slots t' \<subseteq> slots (sys_t s i)"
  shows "clk_inv n (s\<lparr>sys_t := (sys_t s)(i := t')\<rparr>)"
proof (rule clk_inv_cache [OF assms(1)])
  fix j assume "j \<noteq> i"
  then have "slots (sys_t s i) \<inter> slots (sys_t s j) = {}"
    using assms(1) by (auto simp: clk_inv_def)
  with assms(2) show "slots t' \<inter> slots (sys_t s j) = {}"
    by blast
qed (use assms in \<open>auto simp: clk_inv_def\<close>)

lemma clk_inv_issue:
  assumes "clk_inv n s" and "stamp ts \<le> pos (sys_g s)" and "node_id ts = n"
    and "stamp ts \<notin> stamp ` set (sys_issued s)" and "\<And>i. stamp ts \<notin> slots (sys_t s i)"
  shows "clk_inv n (s\<lparr>sys_issued := ts # sys_issued s\<rparr>)"
  using assms by (auto simp: clk_inv_def)

lemma clk_inv_fresh:
  assumes "clk_inv n s" and "pos (sys_g s) < x"
  shows "x \<notin> stamp ` set (sys_issued s)" and "x \<notin> slots (sys_t s i)"
  using assms unfolding clk_inv_def by (auto dest: leD)

lemma clk_inv_global_now:
  assumes inv: "clk_inv n s" and now: "hlc_now (sys_g s) rs = Some (ts, g', rs')"
    and safe: "spin_safe (sys_g s) rs"
  shows "clk_inv n (s\<lparr>sys_g := g', sys_issued := ts # sys_issued s\<rparr>)"
proof -
  note np = hlc_now_pos [OF now safe]
  have st: "stamp ts = pos g'"
    using np(2) by (simp add: stamp_hlc_ts)
  have node: "hlc_node g' = n" "node_id ts = n"
    using np inv by (simp_all add: clk_inv_def hlc_ts_def)
  have "clk_inv n (s\<lparr>sys_g := g'\<rparr>)"
    using inv np(1) node(1) by (intro clk_inv_advance) auto
  then have "clk_inv n (s\<lparr>sys_g := g'\<rparr>\<lparr>sys_issued := ts # sys_issued (s\<lparr>sys_g := g'\<rparr>)\<rparr>)"
    using clk_inv_fresh [OF inv np(1)] st node(2) by (intro clk_inv_issue) auto
  then show ?thesis by simp
qed

lemma clk_inv_reserve:
  assumes inv: "clk_inv n s" and res: "reserve_at (sys_g s) p BATCH_SIZE r = (start, g')"
    and ok: "start \<ge> 0" and tk: "tlc_take (tlc_fill (sys_t s i) p start) g' = (ts, t')"
  shows "clk_inv n (s\<lparr>sys_g := g', sys_t := (sys_t s)(i := t'), sys_issued := ts # sys_issued s\<rparr>)"
proof -
  let ?s0 = "word_of_int start :: u32"
  note blk = reserve_at_block [OF res ok]
  have fill: "stamp ts = (p, ?s0)" "slots t' \<subseteq> {(p, l) | l. ?s0 < l \<and> l \<le> ?s0 + 49}"
    using slots_fill [OF blk(3) refl tk] by auto
  have above: "pos (sys_g s) < x" and below: "x \<le> pos g'" and ne: "x \<noteq> stamp ts"
    if x: "x \<in> slots t'" for x
  proof -
    obtain l where l: "x = (p, l)" "?s0 < l" "l \<le> ?s0 + 49"
      using x fill(2) by auto
    then have "(p, ?s0) < x"
      by simp
    with blk(1) show "pos (sys_g s) < x"
      by (rule less_trans)
    show "x \<le> pos g'" and "x \<noteq> stamp ts"
      using l blk(2) fill(1) by auto
  qed
  have "?s0 \<le> ?s0 + 49"
    using blk(3) by (simp add: word_le_nat_alt unat_word_ariths)
  then have st: "pos (sys_g s) < stamp ts" "stamp ts \<le> pos g'"
    using blk(1,2) by (auto simp: fill(1))
  have node: "hlc_node g' = n" "node_id ts = n"
    using inv reserve_at_node [OF res] tk by (auto simp: clk_inv_def tlc_take_def)
  have mono: "pos (sys_g s) \<le> pos g'"
    using st by order
  note fr = clk_inv_fresh [OF inv]
  have inv': "clk_inv n (s\<lparr>sys_g := g'\<rparr>)"
    using inv mono node(1) by (rule clk_inv_advance)
  have "clk_inv n (s\<lparr>sys_g := g'\<rparr>\<lparr>sys_t := (sys_t (s\<lparr>sys_g := g'\<rparr>))(i := t')\<rparr>)"
    by (rule clk_inv_cache [OF inv']) (use below fr above in auto)
  then have "clk_inv n ((s\<lparr>sys_g := g', sys_t := (sys_t s)(i := t')\<rparr>)
      \<lparr>sys_issued := ts # sys_issued (s\<lparr>sys_g := g', sys_t := (sys_t s)(i := t')\<rparr>)\<rparr>)"
    using st(2) fr [OF st(1)] node(2) ne [of "stamp ts"] by (intro clk_inv_issue) auto
  then show ?thesis by simp
qed

lemma clk_step_inv:
  assumes "clk_step s s'" and inv: "clk_inv n s"
  shows "clk_inv n s'"
  using assms(1)
proof cases
  case (global_now rs ts g' rs')
  then show ?thesis using clk_inv_global_now [OF inv] by blast
next
  case (global_update inc p)
  have "hlc_node (sys_g s) = n"
    using inv by (simp add: clk_inv_def)
  then have "clk_inv n (s\<lparr>sys_g := hlc_update_at (sys_g s) inc p\<rparr>)"
    using hlc_update_pos(1) [OF global_update(2)] by (intro clk_inv_advance [OF inv]) auto
  then show ?thesis using global_update(1) by simp
next
  case (thread_cached i ts t')
  note sl = slots_take [OF thread_cached(2,3)]
  let ?s1 = "s\<lparr>sys_t := (sys_t s)(i := t')\<rparr>"
  have inv1: "clk_inv n ?s1"
    using inv sl(2) by (intro clk_inv_shrink) auto
  have "stamp ts \<notin> slots (sys_t s j)" if "j \<noteq> i" for j
    using that inv sl(1) by (fastforce simp: clk_inv_def)
  then have "\<And>j. stamp ts \<notin> slots (sys_t ?s1 j)"
    using sl(2) by auto
  moreover have "node_id ts = n"
    using inv thread_cached(3) by (auto simp: clk_inv_def tlc_take_def)
  moreover have "stamp ts \<le> pos (sys_g s)" "stamp ts \<notin> stamp ` set (sys_issued s)"
    using inv sl(1) unfolding clk_inv_def by auto
  ultimately have "clk_inv n (?s1\<lparr>sys_issued := ts # sys_issued ?s1\<rparr>)"
    using inv1 by (intro clk_inv_issue) auto
  then show ?thesis using thread_cached(1) by simp
next
  case (thread_reset i p)
  then show ?thesis using clk_inv_shrink [OF inv slots_reset] by simp
next
  case (thread_reserve p r start g' i ts t')
  then show ?thesis using clk_inv_reserve [OF inv] by blast
next
  case (thread_reserve_fail p r start g')
  have "hlc_node g' = n"
    using inv reserve_at_node [OF thread_reserve_fail(2)] by (simp add: clk_inv_def)
  then have "clk_inv n (s\<lparr>sys_g := g'\<rparr>)"
    using reserve_at_pos_mono [OF thread_reserve_fail(2,3)] by (intro clk_inv_advance [OF inv])
  then show ?thesis using thread_reserve_fail(1) by simp
qed

lemma clk_reachable_inv: "clk_reachable n s \<Longrightarrow> clk_inv n s"
  by (induction rule: clk_reachable.induct) (auto intro: clk_inv_init clk_step_inv)

lemma clk_reachable_rtranclp:
  "clk_step\<^sup>*\<^sup>* s s' \<Longrightarrow> clk_reachable n s \<Longrightarrow> clk_reachable n s'"
  by (induction rule: rtranclp_induct) (auto intro: clk_next)

text \<open>
  The function model of \<open>ThreadLocalClock::now\<close> is built from these steps: a call that returns is a
  sequence of steps that issues exactly the timestamp returned.
\<close>

lemma tlc_refill_steps:
  assumes "tlc_refill t (sys_g s) p rs = Some (ts, t', g', rs')"
    and "sys_t s i = t" and "sorted rs"
  shows "clk_step\<^sup>*\<^sup>* s (s\<lparr>sys_g := g', sys_t := (sys_t s)(i := t'), sys_issued := ts # sys_issued s\<rparr>)"
  using assms
proof (induction t "sys_g s" p rs arbitrary: s rule: tlc_refill.induct)
  case (1 t p)
  then show ?case by simp
next
  case (2 t p r rs)
  obtain start g1 where res: "reserve_at (sys_g s) p BATCH_SIZE r = (start, g1)"
    by fastforce
  show ?case
  proof (cases "start \<ge> 0")
    case True
    obtain ts1 t1 where tk: "tlc_take (tlc_fill t p start) g1 = (ts1, t1)"
      by fastforce
    have "clk_step s (s\<lparr>sys_g := g1, sys_t := (sys_t s)(i := t1), sys_issued := ts1 # sys_issued s\<rparr>)"
      using thread_reserve [OF res True] tk 2(3) by simp
    then show ?thesis
      using 2(2) res True tk by auto
  next
    case False
    let ?s1 = "s\<lparr>sys_g := g1\<rparr>"
    have st1: "clk_step s ?s1"
      using thread_reserve_fail [OF res] False by simp
    obtain np rs1 where rs: "rs = np # rs1"
      using 2(2) res False by (cases rs) auto
    show ?thesis
    proof (cases "np = p")
      case True
      with 2(2) res False rs obtain ts2 g2 rs2 where now: "hlc_now g1 rs1 = Some (ts2, g2, rs2)"
        and eq: "ts = ts2" "t' = t" "g' = g2"
        by (auto split: option.splits)
      have "spin_safe g1 rs1"
        using 2(4) rs by (simp add: spin_safe_def)
      then have "clk_step ?s1 (?s1\<lparr>sys_g := g2, sys_issued := ts2 # sys_issued ?s1\<rparr>)"
        using now by (intro global_now) auto
      moreover have "(sys_t s)(i := t) = sys_t s"
        using 2(3) by auto
      ultimately show ?thesis
        using st1 eq by (auto intro: converse_rtranclp_into_rtranclp)
    next
      case ne: False
      have "clk_step\<^sup>*\<^sup>* ?s1 (?s1\<lparr>sys_g := g', sys_t := (sys_t ?s1)(i := t'), sys_issued := ts # sys_issued ?s1\<rparr>)"
        by (rule 2(1) [OF refl, where xa = start]) (use 2(2,3,4) res False rs ne in auto)
      then show ?thesis
        using st1 by (simp add: converse_rtranclp_into_rtranclp)
    qed
  qed
qed

lemma tlc_now_steps:
  assumes "tlc_now (sys_t s i) (sys_g s) rs = Some (ts, t', g', rs')" and "sorted rs"
  shows "clk_step\<^sup>*\<^sup>* s (s\<lparr>sys_g := g', sys_t := (sys_t s)(i := t'), sys_issued := ts # sys_issued s\<rparr>)"
proof -
  obtain p r1 where rs: "rs = p # r1"
    using assms(1) by (cases rs) (auto simp: tlc_now_def)
  show ?thesis
  proof (cases "p = cached_phys_time (sys_t s i) \<and> cached_logical_next (sys_t s i) < cached_logical_end (sys_t s i)")
    case True
    then have "tlc_take (sys_t s i) (sys_g s) = (ts, t')" and "g' = sys_g s"
      using assms(1) rs by (auto simp: tlc_now_def split: prod.splits)
    then have "clk_step s (s\<lparr>sys_t := (sys_t s)(i := t'), sys_issued := ts # sys_issued s\<rparr>)"
      using True thread_cached by blast
    then show ?thesis
      using \<open>g' = sys_g s\<close> by auto
  next
    case False
    let ?s1 = "s\<lparr>sys_t := (sys_t s)(i := tlc_reset (sys_t s i) p)\<rparr>"
    have "tlc_refill (tlc_reset (sys_t s i) p) (sys_g ?s1) p r1 = Some (ts, t', g', rs')"
      using assms(1) rs False by (simp add: tlc_now_def)
    then have "clk_step\<^sup>*\<^sup>* ?s1 (?s1\<lparr>sys_g := g', sys_t := (sys_t ?s1)(i := t'), sys_issued := ts # sys_issued ?s1\<rparr>)"
      using assms(2) rs by (intro tlc_refill_steps) auto
    then show ?thesis
      using thread_reset [of s i p] by (simp add: converse_rtranclp_into_rtranclp)
  qed
qed

subsection \<open>Properties\<close>

text \<open>A sequence of \<open>now()\<close> calls, each with the readings it sees.\<close>

fun hlc_nows :: "hlc \<Rightarrow> int list list \<Rightarrow> (timestamp list \<times> hlc) option" where
  "hlc_nows c [] = Some ([], c)"
| "hlc_nows c (rs # rss) =
     do {
       (t, c', _) \<leftarrow> hlc_now c rs;
       (ts, c'') \<leftarrow> hlc_nows c' rss;
       Some (t # ts, c'')
     }"

lemma hlc_nows_above:
  "hlc_nows c rss = Some (ts, c') \<Longrightarrow> \<forall>rs \<in> set rss. sorted rs \<Longrightarrow>
   (\<forall>t \<in> set ts. pos c < stamp t) \<and> sorted_wrt (\<lambda>a b. stamp a < stamp b) ts"
proof (induction c rss arbitrary: ts c' rule: hlc_nows.induct)
  case (1 c)
  then show ?case by simp
next
  case (2 c rs rss)
  then obtain t c1 r1 ts1 where now: "hlc_now c rs = Some (t, c1, r1)"
    and rest: "hlc_nows c1 rss = Some (ts1, c')" and ts: "ts = t # ts1"
    by (auto simp: bind_eq_Some_conv)
  have safe: "spin_safe c rs"
    using 2 by (simp add: spin_safe_def)
  note np = hlc_now_pos [OF now safe]
  have st: "stamp t = pos c1"
    using np(2) by (simp add: stamp_hlc_ts)
  have ih: "(\<forall>t \<in> set ts1. pos c1 < stamp t) \<and> sorted_wrt (\<lambda>a b. stamp a < stamp b) ts1"
    using 2 now rest by auto
  have "\<forall>u \<in> set ts1. pos c < stamp u"
    using ih np(1) less_trans by blast
  then show ?case
    using ih np(1) ts st by simp
qed

text \<open>
  C16. The timestamps a node issues with \<open>HybridLogicalClock::now\<close> strictly increase, whatever the
  physical clock does between the calls (it may stand still or jump back); only while one call
  spins on an exhausted counter must its own readings not decrease.
\<close>

theorem hlc_now_strictly_increasing:
  assumes "hlc_nows c rss = Some (ts, c')" and "\<forall>rs \<in> set rss. sorted rs"
  shows "sorted_wrt (<) (hlc_ts c # ts)"
proof -
  have "sorted_wrt (\<lambda>a b. stamp a < stamp b) (hlc_ts c # ts)"
    using hlc_nows_above [OF assms] by (simp add: stamp_hlc_ts)
  then show ?thesis
    by (rule sorted_wrt_mono_rel [rotated]) (rule stamp_less_imp)
qed

theorem hlc_now_strictly_increasing_witness:
  "hlc_nows (hlc_init 1) [[100], [40], [40]] =
     Some ([Timestamp 100 0 1, Timestamp 100 1 1, Timestamp 100 2 1],
           \<lparr>max_wall_time = 100, max_logical = 2, hlc_node = 1, last_warn = 0\<rparr>)
   \<and> sorted_wrt (<) (hlc_ts (hlc_init 1) # [Timestamp 100 0 1, Timestamp 100 1 1, Timestamp 100 2 1])"
proof -
  have run: "hlc_nows (hlc_init 1) [[100], [40], [40]] =
     Some ([Timestamp 100 0 1, Timestamp 100 1 1, Timestamp 100 2 1],
           \<lparr>max_wall_time = 100, max_logical = 2, hlc_node = 1, last_warn = 0\<rparr>)"
    by (simp add: hlc_now_def hlc_init_def hlc_ts_def warn_skew_def Let_def)
  show ?thesis
    using run hlc_now_strictly_increasing [OF run] by simp
qed

text \<open>
  Receiving a timestamp orders it before everything issued afterwards: unless the counter
  wraps, the next timestamp is above the one received and above the clock's own previous value.
\<close>

theorem hlc_update_causal:
  assumes "\<not> update_wraps c inc p" and "hlc_now (hlc_update_at c inc p) rs = Some (t, c', rs')"
    and "spin_safe (hlc_update_at c inc p) rs"
  shows "inc < t \<and> hlc_ts c < t"
proof -
  have "stamp t = pos c'" "pos (hlc_update_at c inc p) < pos c'"
    using hlc_now_pos [OF assms(2,3)] by (simp_all add: stamp_hlc_ts)
  then have "stamp inc < stamp t" "stamp (hlc_ts c) < stamp t"
    using hlc_update_pos [OF assms(1)] by (auto simp: stamp_hlc_ts intro: less_trans)
  then show ?thesis
    by (auto intro: stamp_less_imp)
qed

theorem hlc_update_causal_witness:
  "Timestamp 900 7 2 < Timestamp 900 9 1 \<and> hlc_ts (hlc_init 1) < Timestamp 900 9 1"
proof -
  have w: "\<not> update_wraps (hlc_init 1) (Timestamp 900 7 2) 500"
    by (simp add: update_wraps_def hlc_init_def)
  have n: "hlc_now (hlc_update_at (hlc_init 1) (Timestamp 900 7 2) 500) [501] =
      Some (Timestamp 900 9 1, \<lparr>max_wall_time = 900, max_logical = 9, hlc_node = 1, last_warn = 0\<rparr>, [])"
    by (simp add: hlc_now_def hlc_update_at_def hlc_init_def hlc_ts_def warn_skew_def Let_def)
  have s: "spin_safe (hlc_update_at (hlc_init 1) (Timestamp 900 7 2) 500) [501]"
    by (simp add: spin_safe_def)
  show ?thesis
    using hlc_update_causal [OF w n s] by simp
qed

text \<open>
  \<open>HybridLogicalClock::update\<close> increments without the overflow check that \<open>now\<close> has: when the
  counter it increments is \<open>UINT32_MAX\<close> the clock falls back to counter 0 at the same wall time,
  below the value it had or the one it received.
\<close>

theorem hlc_update_wrap_regresses:
  assumes "update_wraps c inc p"
  shows "max_logical (hlc_update_at c inc p) = 0
    \<and> hlc_ts (hlc_update_at c inc p) < max (hlc_ts c) (Timestamp (wall_time inc) (logical inc) (hlc_node c))"
proof -
  have *: "max_logical (hlc_update_at c inc p) = 0"
    using assms by (auto simp: update_wraps_def hlc_update_at_def Let_def max_def split: if_splits)
  have "pos (hlc_update_at c inc p) < pos c \<or> pos (hlc_update_at c inc p) < stamp inc"
    using assms * by (auto simp: update_wraps_def hlc_update_at_def pos_def stamp_def Let_def max_def split: if_splits)
  then have "hlc_ts (hlc_update_at c inc p) < hlc_ts c
      \<or> hlc_ts (hlc_update_at c inc p) < Timestamp (wall_time inc) (logical inc) (hlc_node c)"
    by (auto intro!: stamp_less_imp simp: stamp_hlc_ts) (auto simp: stamp_def)
  with * show ?thesis
    by (auto simp: less_max_iff_disj)
qed

theorem hlc_update_wrap_regresses_witness:
  "hlc_ts (hlc_update_at (hlc_init 1) (Timestamp 900 UINT32_MAX 2) 500) < Timestamp 900 UINT32_MAX 1"
proof -
  have w: "update_wraps (hlc_init 1) (Timestamp 900 UINT32_MAX 2) 500"
    by (simp add: update_wraps_def hlc_init_def)
  show ?thesis
    using hlc_update_wrap_regresses [OF w]
    by (simp add: hlc_update_at_def hlc_init_def hlc_ts_def ts_less_iff)
qed

text \<open>
  C34. Threads that draw timestamps through \<open>ThreadLocalClock\<close> from one shared clock do not draw the
  same one, in any interleaving with each other, with direct calls of \<open>now\<close> and with updates, provided
  that no update wraps the counter and that the readings one call takes of the physical clock do not
  decrease where the call spins on an exhausted counter: what such a call returns differs from everything
  issued before, everything issued is distinct, and the state it leaves is again one of these.
\<close>

theorem thread_local_timestamps_unique:
  assumes "clk_reachable n s" and "tlc_now (sys_t s i) (sys_g s) rs = Some (t, t', g', rs')"
    and "sorted rs"
  shows "distinct (sys_issued s) \<and> t \<notin> set (sys_issued s)
    \<and> clk_reachable n (s\<lparr>sys_g := g', sys_t := (sys_t s)(i := t'), sys_issued := t # sys_issued s\<rparr>)"
proof -
  let ?s' = "s\<lparr>sys_g := g', sys_t := (sys_t s)(i := t'), sys_issued := t # sys_issued s\<rparr>"
  have r: "clk_reachable n ?s'"
    using clk_reachable_rtranclp [OF tlc_now_steps [OF assms(2,3)] assms(1)] .
  then have "distinct (map stamp (sys_issued ?s'))"
    using clk_reachable_inv [OF r] by (simp add: clk_inv_def)
  then have "distinct (sys_issued ?s')"
    by (rule distinct_map [THEN iffD1, THEN conjunct1])
  with r show ?thesis by simp
qed

lemma two_threads_draw:
  "tlc_now tlc_init (hlc_init 1) [100, 100] =
     Some (Timestamp 100 1 1, \<lparr>cached_phys_time = 100, cached_logical_next = 2, cached_logical_end = 51\<rparr>,
       \<lparr>max_wall_time = 100, max_logical = 50, hlc_node = 1, last_warn = 0\<rparr>, [])"
  "tlc_now tlc_init \<lparr>max_wall_time = 100, max_logical = 50, hlc_node = 1, last_warn = 0\<rparr> [100, 100] =
     Some (Timestamp 100 51 1, \<lparr>cached_phys_time = 100, cached_logical_next = 52, cached_logical_end = 101\<rparr>,
       \<lparr>max_wall_time = 100, max_logical = 100, hlc_node = 1, last_warn = 0\<rparr>, [])"
  by (simp_all add: tlc_now_def tlc_reset_def tlc_take_def tlc_fill_def reserve_at_def BATCH_SIZE_def hlc_init_def tlc_init_def Let_def)

text \<open>Two threads draw at the same reading of the physical clock.\<close>

theorem thread_local_timestamps_unique_witness:
  "\<exists>s t' g'. clk_reachable 1 s \<and> sys_issued s = [Timestamp 100 1 1] \<and>
     tlc_now (sys_t s 1) (sys_g s) [100, 100] = Some (Timestamp 100 51 1, t', g', []) \<and>
     Timestamp 100 51 1 \<notin> set (sys_issued s) \<and>
     clk_reachable 1 (s\<lparr>sys_g := g', sys_t := (sys_t s)(1 := t'), sys_issued := [Timestamp 100 51 1, Timestamp 100 1 1]\<rparr>)"
proof -
  let ?s0 = "clock_sys_init 1"
  have n0: "tlc_now (sys_t ?s0 0) (sys_g ?s0) [100, 100] =
      Some (Timestamp 100 1 1, \<lparr>cached_phys_time = 100, cached_logical_next = 2, cached_logical_end = 51\<rparr>,
        \<lparr>max_wall_time = 100, max_logical = 50, hlc_node = 1, last_warn = 0\<rparr>, [])"
    using two_threads_draw(1) by (simp add: clock_sys_init_def)
  let ?s1 = "?s0\<lparr>sys_g := \<lparr>max_wall_time = 100, max_logical = 50, hlc_node = 1, last_warn = 0\<rparr>,
    sys_t := (sys_t ?s0)(0 := \<lparr>cached_phys_time = 100, cached_logical_next = 2, cached_logical_end = 51\<rparr>),
    sys_issued := Timestamp 100 1 1 # sys_issued ?s0\<rparr>"
  have r1: "clk_reachable 1 ?s1"
    using thread_local_timestamps_unique [OF clk_start n0] by simp
  have n1: "tlc_now (sys_t ?s1 1) (sys_g ?s1) [100, 100] =
      Some (Timestamp 100 51 1, \<lparr>cached_phys_time = 100, cached_logical_next = 52, cached_logical_end = 101\<rparr>,
        \<lparr>max_wall_time = 100, max_logical = 100, hlc_node = 1, last_warn = 0\<rparr>, [])"
    using two_threads_draw(2) by (simp add: clock_sys_init_def)
  have i1: "sys_issued ?s1 = [Timestamp 100 1 1]"
    by (simp add: clock_sys_init_def)
  have "Timestamp 100 51 1 \<notin> set (sys_issued ?s1) \<and>
      clk_reachable 1 (?s1\<lparr>sys_g := \<lparr>max_wall_time = 100, max_logical = 100, hlc_node = 1, last_warn = 0\<rparr>,
        sys_t := (sys_t ?s1)(1 := \<lparr>cached_phys_time = 100, cached_logical_next = 52, cached_logical_end = 101\<rparr>),
        sys_issued := Timestamp 100 51 1 # sys_issued ?s1\<rparr>)"
    using thread_local_timestamps_unique [OF r1 n1] by simp
  then show ?thesis
    using r1 n1 i1
    by (intro exI [of _ ?s1] exI [of _ "\<lparr>cached_phys_time = 100, cached_logical_next = 52, cached_logical_end = 101\<rparr>"]
        exI [of _ "\<lparr>max_wall_time = 100, max_logical = 100, hlc_node = 1, last_warn = 0\<rparr>"]) (simp del: fun_upd_apply)
qed

lemma spin_past_remainder:
  "m < q \<Longrightarrow> \<exists>zs. spin_past m (ys @ q # rest) = Some (zs @ rest)"
proof (induction ys)
  case Nil
  then show ?case by simp
next
  case (Cons y ys)
  show ?case
  proof (cases "y \<le> m")
    case True
    with Cons show ?thesis by simp
  next
    case False
    then have "spin_past m ((y # ys) @ q # rest) = Some ((ys @ [q]) @ rest)" by simp
    then show ?thesis by blast
  qed
qed

text \<open>
  C35. \<open>HybridLogicalClock::now\<close> returns as soon as there is a reading, unless the counter is
  exhausted; then it returns once a reading passes the clock's wall time and one more follows.
\<close>

theorem hlc_now_returns:
  assumes "max_logical c \<noteq> UINT32_MAX \<and> rs \<noteq> []
    \<or> (\<exists>p ys q r zs. rs = p # ys @ q # r # zs \<and> max_wall_time c < q)"
  shows "\<exists>t c' rs'. hlc_now c rs = Some (t, c', rs')"
proof (cases "max_logical c \<noteq> UINT32_MAX \<and> rs \<noteq> []")
  case True
  then obtain p r where "rs = p # r" by (cases rs) auto
  with True show ?thesis
    by (auto simp: hlc_now_def Let_def)
next
  case False
  with assms obtain p ys q r zs where rs: "rs = p # ys @ q # r # zs" and q: "max_wall_time c < q"
    by blast
  obtain vs where sp: "spin_past (max_wall_time c) (ys @ q # r # zs) = Some (vs @ r # zs)"
    using spin_past_remainder [OF q] by blast
  have "\<exists>np w. get_physical_time (vs @ r # zs) = Some (np, w)"
    by (cases vs) auto
  with rs sp show ?thesis
    by (auto simp: hlc_now_def Let_def)
qed

theorem hlc_now_returns_witness:
  "\<exists>t c' rs'. hlc_now ((hlc_init 1)\<lparr>max_wall_time := 10, max_logical := UINT32_MAX\<rparr>) [3, 9, 11, 12] = Some (t, c', rs')"
proof (rule hlc_now_returns)
  have "[3, 9, 11, 12 :: int] = 3 # [9] @ 11 # 12 # [] \<and> max_wall_time ((hlc_init 1)\<lparr>max_wall_time := 10, max_logical := UINT32_MAX\<rparr>) < 11"
    by simp
  then show "max_logical ((hlc_init 1)\<lparr>max_wall_time := 10, max_logical := UINT32_MAX\<rparr>) \<noteq> UINT32_MAX \<and> [3, 9, 11, 12 :: int] \<noteq> []
    \<or> (\<exists>p ys q r zs. [3, 9, 11, 12] = p # ys @ q # r # zs
        \<and> max_wall_time ((hlc_init 1)\<lparr>max_wall_time := 10, max_logical := UINT32_MAX\<rparr>) < q)"
    by blast
qed

text \<open>
  A thread's own timestamps are unique but not monotone when the physical clock steps back:
  a call that falls back to the shared clock gets a counter above the thread's cached batch, and
  the next call at the old time still takes the lower one from the cache.
\<close>

theorem thread_local_not_monotone:
  "\<exists>t1 g1 ts2 t2 g2 ts3 t3 g3.
     tlc_now tlc_init (hlc_init 1) [100, 100] = Some (Timestamp 100 1 1, t1, g1, [])
     \<and> tlc_now t1 g1 [95, 95, 95, 95] = Some (ts2, t2, g2, [])
     \<and> tlc_now t2 g2 [100] = Some (ts3, t3, g3, []) \<and> ts3 < ts2"
  by (simp add: tlc_now_def tlc_reset_def tlc_take_def tlc_fill_def reserve_at_def BATCH_SIZE_def
      hlc_init_def tlc_init_def hlc_now_def hlc_ts_def warn_skew_def ts_less_iff Let_def)

end
