(* ===== verification/Ordered_Map.thy ===== *)
theory Ordered_Map
  imports L3_Prelude
begin

text \<open>
  \<open>std::map<std::string, V, std::less<>>\<close> as an association list in strictly increasing key order:
  \<open>find\<close>, \<open>operator[]\<close> assignment, \<open>lower_bound\<close> followed by iteration, and the exclusive-or of
  a measure over all entries (what a Merkle leaf accumulates). The interface a client of the map
  relies on is the locale \<open>map_interface\<close>.
\<close>

type_synonym 'v omap = "(bytes \<times> 'v) list"

definition om_find :: "'v omap \<Rightarrow> bytes \<Rightarrow> 'v option" where
  "om_find m k = map_of m k"

fun om_insert :: "bytes \<Rightarrow> 'v \<Rightarrow> 'v omap \<Rightarrow> 'v omap" where
  "om_insert k v [] = [(k, v)]"
| "om_insert k v ((k', v') # m) =
     (if k < k' then (k, v) # (k', v') # m
      else if k = k' then (k, v) # m
      else (k', v') # om_insert k v m)"

definition om_inv :: "'v omap \<Rightarrow> bool" where
  "om_inv m \<longleftrightarrow> sorted_wrt (<) (map fst m)"

definition om_lower_bound :: "'v omap \<Rightarrow> bytes \<Rightarrow> 'v omap" where
  "om_lower_bound m k = dropWhile (\<lambda>e. fst e < k) m"

lemma om_find_Nil [simp, omap_simps]: "om_find [] k = None"
  by (simp add: om_find_def)

lemma om_find_insert [simp, omap_simps]:
  "om_find (om_insert k v m) k' = (if k' = k then Some v else om_find m k')"
  by (induction k v m rule: om_insert.induct) (auto simp: om_find_def)

lemma om_inv_Nil [simp, omap_simps]: "om_inv []"
  by (simp add: om_inv_def)

lemma om_inv_Cons [omap_simps]:
  "om_inv ((k, v) # m) \<longleftrightarrow> (\<forall>e \<in> set m. k < fst e) \<and> om_inv m"
  by (auto simp: om_inv_def)

lemma fst_set_om_insert: "fst ` set (om_insert k v m) = insert k (fst ` set m)"
  by (induction k v m rule: om_insert.induct) auto

lemma om_inv_insert [simp, omap_simps]: "om_inv m \<Longrightarrow> om_inv (om_insert k v m)"
proof (induction k v m rule: om_insert.induct)
  case (1 k v)
  then show ?case by (simp add: om_inv_Cons)
next
  case (2 k v k' v' m)
  have m: "\<forall>e \<in> set m. k' < fst e" "om_inv m"
    using 2(2) by (simp_all add: om_inv_Cons)
  show ?case
  proof (cases k k' rule: linorder_cases)
    case less
    then have "\<forall>e \<in> set m. k < fst e"
      using m(1) order.strict_trans by blast
    with less m show ?thesis by (simp add: om_inv_Cons)
  next
    case equal
    with m show ?thesis by (simp add: om_inv_Cons)
  next
    case greater
    then have ne: "\<not> k < k'" "k \<noteq> k'"
      by auto
    have "\<forall>x \<in> fst ` set (om_insert k v m). k' < x"
      using m(1) greater by (simp add: fst_set_om_insert)
    with ne m 2(1) show ?thesis
      by (simp add: om_inv_Cons)
  qed
qed

lemma om_inv_distinct: "om_inv m \<Longrightarrow> distinct (map fst m)"
  by (simp add: om_inv_def strict_sorted_iff)

lemma om_find_eq_Some: "om_inv m \<Longrightarrow> om_find m k = Some v \<longleftrightarrow> (k, v) \<in> set m"
  by (simp add: om_find_def om_inv_distinct)

lemma om_find_None: "om_find m k = None \<longleftrightarrow> k \<notin> fst ` set m"
  by (simp add: om_find_def map_of_eq_None_iff)

lemma set_om_lower_bound:
  "om_inv m \<Longrightarrow> set (om_lower_bound m k) = {e \<in> set m. k \<le> fst e}"
proof (induction m)
  case Nil
  then show ?case by (simp add: om_lower_bound_def)
next
  case (Cons e m)
  obtain a b where "e = (a, b)" by fastforce
  with Cons show ?case
    by (auto simp: om_lower_bound_def om_inv_Cons)
qed

lemma om_inv_lower_bound: "om_inv m \<Longrightarrow> om_inv (om_lower_bound m k)"
  unfolding om_inv_def om_lower_bound_def
  by (induction m) (auto split: if_splits)

text \<open>Two maps in key order with the same lookups are the same list.\<close>

lemma om_ext:
  assumes "om_inv m" and "om_inv m'" and "\<And>k. om_find m k = om_find m' k"
  shows "m = m'"
proof (rule map_sorted_distinct_set_unique [where f = fst])
  have "(k, v) \<in> set m \<longleftrightarrow> (k, v) \<in> set m'" for k v
    using assms om_find_eq_Some by metis
  then show "set m = set m'"
    by auto
  then show "inj_on fst (set m \<union> set m')"
    using om_inv_distinct [OF assms(1)] by (simp add: distinct_map)
qed (use assms om_inv_distinct in \<open>auto simp: om_inv_def strict_sorted_iff distinct_map\<close>)

locale map_interface =
  fixes empty :: 'm
    and find :: "'m \<Rightarrow> bytes \<Rightarrow> 'v option"
    and ins :: "bytes \<Rightarrow> 'v \<Rightarrow> 'm \<Rightarrow> 'm"
    and inv :: "'m \<Rightarrow> bool"
  assumes find_empty: "find empty k = None"
    and find_ins: "inv m \<Longrightarrow> find (ins k v m) k' = (if k' = k then Some v else find m k')"
    and inv_empty: "inv empty"
    and inv_ins: "inv m \<Longrightarrow> inv (ins k v m)"
begin

definition ins_all :: "(bytes \<times> 'v) list \<Rightarrow> 'm \<Rightarrow> 'm" where
  "ins_all kvs m = fold (\<lambda>(k, v). ins k v) kvs m"

lemma inv_ins_all: "inv m \<Longrightarrow> inv (ins_all kvs m)"
  unfolding ins_all_def by (induction kvs arbitrary: m) (auto simp: inv_ins)

text \<open>After a run of assignments the last one to a key decides what is found under it.\<close>

lemma find_ins_all:
  "inv m \<Longrightarrow> find (ins_all kvs m) k =
     (case map_of (rev kvs) k of None \<Rightarrow> find m k | Some v \<Rightarrow> Some v)"
proof (induction kvs rule: rev_induct)
  case Nil
  then show ?case by (simp add: ins_all_def)
next
  case (snoc kv kvs)
  obtain k1 v1 where "kv = (k1, v1)" by fastforce
  moreover have "inv (ins_all kvs m)"
    using snoc.prems by (rule inv_ins_all)
  ultimately show ?case
    using snoc by (simp add: ins_all_def find_ins)
qed

lemma ins_overwrite: "inv m \<Longrightarrow> find (ins k v (ins k w m)) k' = find (ins k v m) k'"
  by (simp add: find_ins inv_ins)

lemma ins_commute:
  "inv m \<Longrightarrow> k1 \<noteq> k2 \<Longrightarrow> find (ins k1 v1 (ins k2 v2 m)) k = find (ins k2 v2 (ins k1 v1 m)) k"
  by (simp add: find_ins inv_ins)

end

interpretation omi: map_interface "[]" om_find om_insert om_inv
  by unfold_locales simp_all

lemma om_insert_commute:
  "om_inv m \<Longrightarrow> k1 \<noteq> k2 \<Longrightarrow> om_insert k1 v1 (om_insert k2 v2 m) = om_insert k2 v2 (om_insert k1 v1 m)"
  by (rule om_ext) (simp_all add: omi.ins_commute)

lemma om_insert_overwrite: "om_inv m \<Longrightarrow> om_insert k v (om_insert k w m) = om_insert k v m"
  by (rule om_ext) (simp_all add: omi.ins_overwrite)

subsection \<open>Exclusive-or over the entries\<close>

definition om_xor :: "(bytes \<Rightarrow> 'v \<Rightarrow> u64) \<Rightarrow> 'v omap \<Rightarrow> u64" where
  "om_xor g m = foldr (\<lambda>e acc. g (fst e) (snd e) XOR acc) m 0"

definition om_term :: "(bytes \<Rightarrow> 'v \<Rightarrow> u64) \<Rightarrow> 'v omap \<Rightarrow> bytes \<Rightarrow> u64" where
  "om_term g m k = (case om_find m k of None \<Rightarrow> 0 | Some v \<Rightarrow> g k v)"

lemma xor_cancel_left [simp]: "(a :: u64) XOR (a XOR b) = b"
  by (simp flip: xor.assoc)

lemmas xor_ac = xor.assoc xor.commute [where 'a = u64] xor.left_commute [where 'a = u64]

lemma om_xor_Nil [simp]: "om_xor g [] = 0"
  by (simp add: om_xor_def)

lemma om_xor_Cons [simp]: "om_xor g ((k, v) # m) = g k v XOR om_xor g m"
  by (simp add: om_xor_def)

lemma om_find_less: "om_inv ((k', v') # m) \<Longrightarrow> k < k' \<Longrightarrow> om_find ((k', v') # m) k = None"
  by (auto simp: om_find_None om_inv_Cons)

lemma om_xor_insert:
  "om_inv m \<Longrightarrow> om_xor g (om_insert k v m) = om_xor g m XOR (om_term g m k XOR g k v)"
proof (induction k v m rule: om_insert.induct)
  case (1 k v)
  then show ?case by (simp add: om_term_def)
next
  case (2 k v k' v' m)
  show ?case
  proof (cases k k' rule: linorder_cases)
    case less
    with 2 show ?thesis
      by (simp add: om_term_def om_find_less xor_ac)
  next
    case equal
    then show ?thesis
      by (simp add: om_term_def om_find_def xor_ac)
  next
    case greater
    then have ne: "k \<noteq> k'" "\<not> k < k'"
      by auto
    then have "om_term g ((k', v') # m) k = om_term g m k"
      by (simp add: om_term_def om_find_def)
    with ne 2 show ?thesis
      by (simp add: om_inv_Cons xor_ac)
  qed
qed

end
