(* ===== verification/Wal.thy ===== *)
theory Wal
  imports L3_Prelude "HOL-Library.Monad_Syntax"
begin

text \<open>
  \<open>src/src/engine/wal.hpp\<close> (the POSIX branches): the record format with its CRC, \<open>write_raw\<close> with
  partial writes, interrupts and errors, \<open>append\<close>, \<open>append_batch\<close> and \<open>recover\<close>. The log file is a
  byte list with a file position. The results of the \<open>write\<close> system call come from outside: every
  appending operation takes the list of results it will see (\<open>None\<close>: it has not returned within
  them). \<open>recover\<close> returns the sequence of callback invocations; a predicate says at which offsets
  \<open>pread\<close> fails. Integers in the file are little-endian.
\<close>

subsection \<open>Types\<close>

datatype WalOp = PUT | PATCH_I64 | DELETE | BATCH | PATCH_STR

fun op_code :: "WalOp \<Rightarrow> u8" where
  "op_code PUT = 1"
| "op_code PATCH_I64 = 2"
| "op_code DELETE = 3"
| "op_code BATCH = 4"
| "op_code PATCH_STR = 5"

record batch_op =
  b_op :: WalOp
  b_key :: bytes
  b_value :: bytes

record log_header =
  h_crc :: u32
  h_op :: u8
  h_key_len :: u16
  h_payload_len :: u32

record wal_stats =
  st_bytes_written :: u64
  st_bytes_read :: u64
  st_last_error :: int

record wal =
  w_file :: bytes
  w_pos :: nat
  bytes_written :: u64
  bytes_read :: u64
  last_error_code :: int

datatype sys_write = Wrote nat | Eintr | Werr int

subsection \<open>CRC\<close>

definition crc_bit :: "u32 \<Rightarrow> u32" where
  "crc_bit crc = drop_bit 1 crc XOR (0xEDB88320 AND - (crc AND 1))"

definition crc_byte :: "u32 \<Rightarrow> u8 \<Rightarrow> u32" where
  "crc_byte crc b = (crc_bit ^^ 8) (crc XOR ucast b)"

definition crc_process :: "u32 \<Rightarrow> bytes \<Rightarrow> u32" where
  "crc_process crc data = foldl crc_byte crc data"

definition compute_crc :: "u8 \<Rightarrow> bytes \<Rightarrow> bytes \<Rightarrow> u32" where
  "compute_crc op key payload =
     NOT (crc_process (crc_process (crc_process 0xFFFFFFFF [op]) key) payload)"

subsection \<open>Writing\<close>

text \<open>\<open>write\<close> at the file position: overwrite or extend, and move the position.\<close>

definition sys_put :: "wal \<Rightarrow> bytes \<Rightarrow> wal" where
  "sys_put w data =
     (let f = w_file w; p = w_pos w
      in w\<lparr>w_file := take p (f @ replicate (p - length f) 0) @ data @ drop (p + length data) f,
           w_pos := p + length data\<rparr>)"

fun write_loop :: "wal \<Rightarrow> bytes \<Rightarrow> sys_write list \<Rightarrow> (bool \<times> wal \<times> sys_write list) option" where
  "write_loop w [] os = Some (True, w, os)"
| "write_loop w (d # ds) [] = None"
| "write_loop w (d # ds) (Eintr # os) = write_loop w (d # ds) os"
| "write_loop w (d # ds) (Werr e # os) = Some (False, w\<lparr>last_error_code := e\<rparr>, os)"
| "write_loop w (d # ds) (Wrote n # os) =
     write_loop (sys_put w (take n (d # ds))) (drop n (d # ds)) os"

definition write_raw :: "wal \<Rightarrow> bytes \<Rightarrow> sys_write list \<Rightarrow> (bool \<times> wal \<times> sys_write list) option" where
  "write_raw w data os =
     (if data = [] then Some (True, w, os)
      else do {
        (ok, w, os) \<leftarrow> write_loop w data os;
        Some (ok, if ok then w\<lparr>bytes_written := bytes_written w + word_of_nat (length data)\<rparr> else w, os)
      })"

definition encode_header :: "log_header \<Rightarrow> bytes" where
  "encode_header h =
     enc_u32 (h_crc h) @ [h_op h] @ enc_u16 (h_key_len h) @ enc_u32 (h_payload_len h)"

definition HEADER_SIZE :: nat where
  "HEADER_SIZE = 11"

definition append_image :: "WalOp \<Rightarrow> bytes \<Rightarrow> bytes \<Rightarrow> bytes" where
  "append_image op key payload =
     encode_header \<lparr>h_crc = compute_crc (op_code op) key payload, h_op = op_code op,
                    h_key_len = word_of_nat (length key),
                    h_payload_len = word_of_nat (length payload)\<rparr> @ key @ payload"

definition wal_append ::
    "wal \<Rightarrow> WalOp \<Rightarrow> bytes \<Rightarrow> bytes \<Rightarrow> sys_write list \<Rightarrow> (wal \<times> sys_write list) option" where
  "wal_append w op key payload os =
     do { (ok, w, os) \<leftarrow> write_raw w (append_image op key payload) os; Some (w, os) }"

text \<open>
  One operation inside a batch: only \<open>klen\<close> (16 bits) of the key and \<open>vlen\<close> (32 bits) of the value
  are copied, while the payload size was computed from the full sizes; the buffer starts zeroed.
\<close>

definition batch_op_image :: "batch_op \<Rightarrow> bytes" where
  "batch_op_image o' =
     (let klen = (word_of_nat (length (b_key o')) :: u16);
          vlen = (word_of_nat (length (b_value o')) :: u32)
      in [op_code (b_op o')] @ enc_u16 klen @ take (unat klen) (b_key o')
         @ enc_u32 vlen @ take (unat vlen) (b_value o'))"

definition batch_payload_size :: "batch_op list \<Rightarrow> nat" where
  "batch_payload_size ops = 4 + sum_list (map (\<lambda>o'. 7 + length (b_key o') + length (b_value o')) ops)"

definition zero_pad :: "nat \<Rightarrow> bytes \<Rightarrow> bytes" where
  "zero_pad n b = b @ replicate (n - length b) 0"

definition batch_payload :: "batch_op list \<Rightarrow> bytes" where
  "batch_payload ops =
     zero_pad (batch_payload_size ops)
       (enc_u32 (word_of_nat (length ops)) @ concat (map batch_op_image ops))"

definition batch_image :: "batch_op list \<Rightarrow> bytes" where
  "batch_image ops =
     (let payload = batch_payload ops
      in encode_header \<lparr>h_crc = compute_crc (op_code BATCH) [] payload, h_op = op_code BATCH,
                        h_key_len = 0, h_payload_len = word_of_nat (batch_payload_size ops)\<rparr> @ payload)"

definition append_batch :: "wal \<Rightarrow> batch_op list \<Rightarrow> sys_write list \<Rightarrow> (wal \<times> sys_write list) option" where
  "append_batch w ops os =
     (if ops = [] then Some (w, os)
      else do { (ok, w, os) \<leftarrow> write_raw w (batch_image ops) os; Some (w, os) })"

text \<open>Opening the log seeks to its end.\<close>

definition wal_open :: "bytes \<Rightarrow> wal" where
  "wal_open f = \<lparr>w_file = f, w_pos = length f, bytes_written = 0, bytes_read = 0, last_error_code = 0\<rparr>"

subsection \<open>Recovery\<close>

type_synonym callback = "u8 \<times> bytes \<times> bytes"

definition pread :: "(nat \<Rightarrow> bool) \<Rightarrow> bytes \<Rightarrow> nat \<Rightarrow> nat \<Rightarrow> bytes" where
  "pread bad file n off = (if bad off then [] else take n (drop off file))"

definition decode_header :: "bytes \<Rightarrow> log_header" where
  "decode_header b =
     \<lparr>h_crc = dec_u32 (take 4 b), h_op = hd (drop 4 b),
      h_key_len = dec_u16 (take 2 (drop 5 b)), h_payload_len = dec_u32 (take 4 (drop 7 b))\<rparr>"

definition read_entry :: "(nat \<Rightarrow> bool) \<Rightarrow> bytes \<Rightarrow> nat \<Rightarrow> (callback \<times> nat) option" where
  "read_entry bad file off =
     (let hb = pread bad file HEADER_SIZE off; h = decode_header hb;
          klen = unat (h_key_len h); plen = unat (h_payload_len h);
          key = (if klen > 0 then pread bad file klen (off + HEADER_SIZE) else []);
          payload = (if plen > 0 then pread bad file plen (off + HEADER_SIZE + klen) else [])
      in if off + HEADER_SIZE > length file then None
         else if length hb \<noteq> HEADER_SIZE then None
         else if h_op h = 0 \<and> h_crc h = 0 \<and> h_key_len h = 0 \<and> h_payload_len h = 0 then None
         else if off + HEADER_SIZE + klen + plen > length file then None
         else if length key \<noteq> klen then None
         else if length payload \<noteq> plen then None
         else if compute_crc (h_op h) key payload \<noteq> h_crc h then None
         else Some ((h_op h, key, payload), off + HEADER_SIZE + klen + plen))"

primrec batch_ops :: "nat \<Rightarrow> bytes \<Rightarrow> callback list" where
  "batch_ops 0 p = []"
| "batch_ops (Suc n) p =
     (if length p < 7 then []
      else
        (let op = hd p; klen = unat (dec_u16 (take 2 (drop 1 p))); q = drop 3 p
         in if length q < klen + 4 then []
            else
              (let key = take klen q; r = drop klen q; vlen = unat (dec_u32 (take 4 r)); v = drop 4 r
               in if length v < vlen then []
                  else (op, key, take vlen v) # batch_ops n (drop vlen v))))"

definition entry_callbacks :: "callback \<Rightarrow> callback list" where
  "entry_callbacks e =
     (case e of (op, key, payload) \<Rightarrow>
        if op = op_code BATCH
        then (if length payload \<ge> 4
              then batch_ops (unat (dec_u32 (take 4 payload))) (drop 4 payload) else [])
        else [(op, key, payload)])"

lemma read_entry_progress: "read_entry bad file off = Some (e, off') \<Longrightarrow> off < off' \<and> off' \<le> length file"
  by (auto simp: read_entry_def Let_def HEADER_SIZE_def split: if_splits)

function recover_loop :: "(nat \<Rightarrow> bool) \<Rightarrow> bytes \<Rightarrow> nat \<Rightarrow> callback list \<times> nat" where
  "recover_loop bad file off =
     (if off < length file
      then (case read_entry bad file off of
              None \<Rightarrow> ([], off)
            | Some (e, off') \<Rightarrow>
                (let (cs, last) = recover_loop bad file off' in (entry_callbacks e @ cs, last)))
      else ([], off))"
  by pat_completeness auto
termination
  by (relation "measure (\<lambda>(bad, file, off). length file - off)")
     (auto dest!: read_entry_progress)

declare recover_loop.simps [simp del]

definition recover :: "(nat \<Rightarrow> bool) \<Rightarrow> wal \<Rightarrow> callback list \<times> wal" where
  "recover bad w =
     (let f = w_file w in
      if length f > 0
      then (let (cs, off) = recover_loop bad f 0
            in (cs, w\<lparr>w_file := (if off < length f then take off f else f), w_pos := off,
                      bytes_read := word_of_nat off\<rparr>))
      else ([], w))"

definition stats :: "wal \<Rightarrow> wal_stats" where
  "stats w = \<lparr>st_bytes_written = bytes_written w, st_bytes_read = bytes_read w,
              st_last_error = last_error_code w\<rparr>"

subsection \<open>The CRC detects every single-byte change\<close>

lemma crc_bit_alt: "crc_bit x = drop_bit 1 x XOR (if odd x then 0xEDB88320 else 0)"
proof (cases "odd x")
  case True
  then have "x AND 1 = 1"
    by (simp add: and_one_eq odd_iff_mod_2_eq_one)
  with True show ?thesis
    by (simp add: crc_bit_def)
next
  case False
  then have "x AND 1 = 0"
    by (simp add: and_one_eq even_iff_mod_2_eq_zero)
  with False show ?thesis
    by (simp add: crc_bit_def)
qed

lemma crc_bit_top: "bit (crc_bit x) 31 \<longleftrightarrow> odd x"
proof -
  have "\<not> bit (drop_bit 1 x) 31"
    using bit_imp_le_length [of x 32] by (auto simp: bit_drop_bit_eq)
  moreover have "bit (0xEDB88320 :: u32) 31"
    by simp
  ultimately show ?thesis
    by (simp add: crc_bit_alt bit_xor_iff del: bit_numeral_iff)
qed

lemma crc_bit_inject: "crc_bit x = crc_bit y \<longleftrightarrow> x = y"
proof
  assume eq: "crc_bit x = crc_bit y"
  then have par: "odd x \<longleftrightarrow> odd y"
    using crc_bit_top by metis
  then have dr: "drop_bit 1 x = drop_bit 1 y"
    using eq by (simp add: crc_bit_alt)
  show "x = y"
  proof (rule bit_word_eqI)
    fix n
    show "bit x n \<longleftrightarrow> bit y n"
    proof (cases n)
      case 0
      with par show ?thesis by (simp add: bit_0)
    next
      case (Suc m)
      have "bit (drop_bit 1 x) m \<longleftrightarrow> bit (drop_bit 1 y) m"
        using dr by simp
      with Suc show ?thesis by (simp add: bit_drop_bit_eq)
    qed
  qed
qed simp

lemma crc_bits_inject: "(crc_bit ^^ n) x = (crc_bit ^^ n) y \<longleftrightarrow> x = y"
  by (induction n) (simp_all add: crc_bit_inject)

lemma crc_byte_inject_state: "crc_byte x b = crc_byte y b \<longleftrightarrow> x = y"
  by (simp add: crc_byte_def crc_bits_inject)

lemma crc_byte_inject_data: "crc_byte x b = crc_byte x c \<longleftrightarrow> b = c"
proof
  assume "crc_byte x b = crc_byte x c"
  then have eq: "(ucast b :: u32) = ucast c"
    by (simp add: crc_byte_def crc_bits_inject)
  have "unat (ucast b :: u32) = unat b" "unat (ucast c :: u32) = unat c"
    by (simp_all add: unsigned_ucast_eq take_bit_nat_eq_self_iff unat_u8_less)
  with eq show "b = c"
    by (simp add: word_unat_eq_iff)
qed simp

lemma crc_process_append: "crc_process x (a @ b) = crc_process (crc_process x a) b"
  by (simp add: crc_process_def)

lemma crc_process_inject_state: "crc_process x d = crc_process y d \<longleftrightarrow> x = y"
  unfolding crc_process_def
  by (induction d arbitrary: x y) (simp_all add: crc_byte_inject_state)

lemma crc_process_one_byte:
  "crc_process x (a @ b # d) = crc_process x (a @ c # d) \<longleftrightarrow> b = c"
proof -
  have "crc_process x (a @ e # d) = crc_process (crc_byte (crc_process x a) e) d" for e
    by (simp add: crc_process_def)
  then show ?thesis
    by (simp add: crc_process_inject_state crc_byte_inject_data)
qed

lemma compute_crc_alt: "compute_crc op key payload = NOT (crc_process 0xFFFFFFFF (op # key @ payload))"
  by (simp add: compute_crc_def crc_process_def)

lemma crc_update_neq:
  assumes "i < length d" and "d ! i \<noteq> b"
  shows "crc_process x (d[i := b]) \<noteq> crc_process x d"
proof -
  have "d = take i d @ d ! i # drop (Suc i) d"
    using assms(1) by (simp add: id_take_nth_drop)
  moreover have "d[i := b] = take i d @ b # drop (Suc i) d"
    using assms(1) by (simp add: upd_conv_take_nth_drop)
  ultimately show ?thesis
    using assms(2) crc_process_one_byte by metis
qed

end
