(* ===== verification/Wal_Recovery.thy ===== *)
theory Wal_Recovery
  imports Wal
begin

text \<open>
  What the write-ahead log promises: appends extend the file by whole records, the scan of
  \<open>recover\<close> reads back exactly the records written, and a torn tail or a damaged record ends the scan
  at the last consistent offset. The scan argument is made once, in the locale \<open>log_format\<close>, for any
  record format that can be read back and whose proper prefixes cannot.
\<close>

subsection \<open>Formats that can be scanned\<close>

locale log_format =
  fixes image :: "'e \<Rightarrow> bytes"
    and ok :: "'e \<Rightarrow> bool"
    and read :: "bytes \<Rightarrow> nat \<Rightarrow> ('r \<times> nat) option"
    and result :: "'e \<Rightarrow> 'r"
    and emit :: "'r \<Rightarrow> 'c list"
    and scan :: "bytes \<Rightarrow> nat \<Rightarrow> 'c list \<times> nat"
  assumes image_nonempty: "ok e \<Longrightarrow> image e \<noteq> []"
    and read_image: "ok e \<Longrightarrow>
      read (pre @ image e @ post) (length pre) = Some (result e, length pre + length (image e))"
    and read_torn: "ok e \<Longrightarrow> strict_prefix t (image e) \<Longrightarrow> read (pre @ t) (length pre) = None"
    and scan_unfold: "scan f off =
      (if off < length f
       then (case read f off of
               None \<Rightarrow> ([], off)
             | Some (r, off') \<Rightarrow> (let (cs, last) = scan f off' in (emit r @ cs, last)))
       else ([], off))"
begin

definition images :: "'e list \<Rightarrow> bytes" where
  "images es = concat (map image es)"

definition emitted :: "'e list \<Rightarrow> 'c list" where
  "emitted es = concat (map (\<lambda>e. emit (result e)) es)"

definition torn :: "bytes \<Rightarrow> bool" where
  "torn t \<longleftrightarrow> t = [] \<or> (\<exists>e. ok e \<and> strict_prefix t (image e))"

lemma scan_stop: "read f off = None \<Longrightarrow> scan f off = ([], off)"
  by (subst scan_unfold) simp

lemma scan_tail: "torn t \<Longrightarrow> scan (pre @ t) (length pre) = ([], length pre)"
  by (subst scan_unfold) (auto simp: torn_def read_torn)

lemma scan_one:
  assumes "ok e"
  shows "scan (pre @ image e @ post) (length pre) =
    (let (cs, last) = scan (pre @ image e @ post) (length pre + length (image e))
     in (emit (result e) @ cs, last))"
  using read_image [OF assms] image_nonempty [OF assms]
  by (subst scan_unfold) simp

text \<open>A run of whole records followed by a torn tail is read up to the tail, and no further.\<close>

lemma scan_images:
  "\<forall>e \<in> set es. ok e \<Longrightarrow> torn t \<Longrightarrow>
   scan (pre @ images es @ t) (length pre) = (emitted es, length pre + length (images es))"
proof (induction es arbitrary: pre)
  case Nil
  then show ?case
    by (simp add: images_def emitted_def scan_tail)
next
  case (Cons e es)
  have "scan ((pre @ image e) @ images es @ t) (length (pre @ image e)) =
      (emitted es, length (pre @ image e) + length (images es))"
    using Cons by (intro Cons.IH) auto
  with Cons scan_one [of e pre "images es @ t"] show ?case
    by (simp add: images_def emitted_def add.assoc)
qed

lemma scan_damaged:
  assumes "\<forall>e \<in> set es. ok e" and bad: "read (pre @ images es @ d) (length pre + length (images es)) = None"
  shows "scan (pre @ images es @ d) (length pre) = (emitted es, length pre + length (images es))"
  using assms
proof (induction es arbitrary: pre)
  case Nil
  then show ?case
    by (simp add: images_def emitted_def scan_stop)
next
  case (Cons e es)
  have "scan ((pre @ image e) @ images es @ d) (length (pre @ image e)) =
      (emitted es, length (pre @ image e) + length (images es))"
    using Cons(2,3) by (intro Cons.IH) (auto simp: images_def add.assoc)
  with Cons(2) scan_one [of e pre "images es @ d"] show ?case
    by (simp add: images_def emitted_def add.assoc)
qed

end

subsection \<open>Headers and records\<close>

lemma length_encode_header [codec_simps]: "length (encode_header h) = HEADER_SIZE"
  by (simp add: encode_header_def HEADER_SIZE_def codec_simps)

lemma decode_encode_header [codec_simps]: "decode_header (encode_header h) = h"
  by (simp add: decode_header_def encode_header_def codec_simps)

abbreviation no_fail :: "nat \<Rightarrow> bool" where
  "no_fail \<equiv> (\<lambda>_. False)"

lemma pread_at: "length x = n \<Longrightarrow> pread no_fail (pre @ x @ post) n (length pre) = x"
  by (simp add: pread_def)

definition sized :: "log_header \<Rightarrow> bytes \<Rightarrow> bytes \<Rightarrow> bool" where
  "sized h key payload \<longleftrightarrow>
     unat (h_key_len h) = length key \<and> unat (h_payload_len h) = length payload"

lemma read_entry_cases:
  assumes "sized h key payload"
  shows "read_entry no_fail (pre @ (encode_header h @ key @ payload) @ post) (length pre) =
    (if h_op h = 0 \<and> h_crc h = 0 \<and> h_key_len h = 0 \<and> h_payload_len h = 0 then None
     else if compute_crc (h_op h) key payload = h_crc h
     then Some ((h_op h, key, payload), length pre + length (encode_header h @ key @ payload))
     else None)"
proof -
  let ?f = "pre @ encode_header h @ key @ payload @ post"
  have hb: "pread no_fail ?f HEADER_SIZE (length pre) = encode_header h"
    using pread_at [of "encode_header h" HEADER_SIZE pre "key @ payload @ post"]
    by (simp add: codec_simps)
  have k: "(if 0 < length key then pread no_fail ?f (length key) (length pre + HEADER_SIZE) else []) = key"
    using pread_at [of key "length key" "pre @ encode_header h" "payload @ post"]
    by (simp add: codec_simps)
  have p: "(if 0 < length payload
            then pread no_fail ?f (length payload) (length pre + HEADER_SIZE + length key) else []) = payload"
    using pread_at [of payload "length payload" "pre @ encode_header h @ key" post]
    by (simp add: codec_simps add.assoc)
  have sz: "unat (h_key_len h) = length key" "unat (h_payload_len h) = length payload"
    using assms by (simp_all add: sized_def)
  show ?thesis
    by (simp only: append_assoc read_entry_def Let_def hb decode_encode_header sz k p)
       (simp add: length_encode_header)
qed

lemma read_entry_record:
  assumes "sized h key payload" and "h_op h \<noteq> 0" and "compute_crc (h_op h) key payload = h_crc h"
  shows "read_entry no_fail (pre @ (encode_header h @ key @ payload) @ post) (length pre) =
    Some ((h_op h, key, payload), length pre + length (encode_header h @ key @ payload))"
  using read_entry_cases [OF assms(1)] assms(2,3) by simp

lemma read_entry_bad_crc:
  assumes "sized h key payload" and "compute_crc (h_op h) key payload \<noteq> h_crc h"
  shows "read_entry no_fail (pre @ (encode_header h @ key @ payload) @ post) (length pre) = None"
  using read_entry_cases [OF assms(1)] assms(2) by simp

lemma read_entry_torn:
  assumes "sized h key payload" and t: "strict_prefix t (encode_header h @ key @ payload)"
  shows "read_entry no_fail (pre @ t) (length pre) = None"
proof (cases "length t < HEADER_SIZE")
  case True
  then show ?thesis
    by (simp add: read_entry_def Let_def)
next
  case False
  obtain z where z: "encode_header h @ key @ payload = t @ z" "z \<noteq> []"
    using t by (auto simp: strict_prefix_def prefix_def)
  have h: "take HEADER_SIZE t = encode_header h"
  proof -
    have "take HEADER_SIZE t = take HEADER_SIZE (t @ z)"
      using False by simp
    also have "\<dots> = encode_header h"
      by (simp add: z(1) [symmetric] codec_simps)
    finally show ?thesis .
  qed
  have "length (encode_header h @ key @ payload) = length (t @ z)"
    by (simp only: z(1))
  then have "length t < HEADER_SIZE + length key + length payload"
    using z(2) by (cases z) (simp_all add: codec_simps)
  then show ?thesis
    using assms(1) False h
    by (simp add: read_entry_def Let_def pread_def decode_encode_header sized_def)
qed

subsection \<open>Batches\<close>

lemma batch_ops_image:
  "batch_ops (length ops) (concat (map batch_op_image ops) @ rest) =
     map (\<lambda>o'. (op_code (b_op o'), take (length (b_key o') mod 2 ^ 16) (b_key o'),
                take (length (b_value o') mod 2 ^ 32) (b_value o'))) ops"
proof (induction ops)
  case Nil
  then show ?case by simp
next
  case (Cons o' ops)
  define klen where "klen = (word_of_nat (length (b_key o')) :: u16)"
  define vlen where "vlen = (word_of_nat (length (b_value o')) :: u32)"
  define key where "key = take (unat klen) (b_key o')"
  define val where "val = take (unat vlen) (b_value o')"
  have u: "unat klen = length (b_key o') mod 2 ^ 16" "unat vlen = length (b_value o') mod 2 ^ 32"
    by (simp_all add: klen_def vlen_def unat_of_nat take_bit_eq_mod)
  have len: "length key = unat klen" "length val = unat vlen"
    using u mod_less_eq_dividend [of "length (b_key o')" "2 ^ 16"]
      mod_less_eq_dividend [of "length (b_value o')" "2 ^ 32"]
    by (simp_all add: key_def val_def)
  have im: "batch_op_image o' = op_code (b_op o') # enc_u16 klen @ key @ enc_u32 vlen @ val"
    by (simp add: batch_op_image_def Let_def klen_def vlen_def key_def val_def)
  have "batch_ops (Suc (length ops)) (batch_op_image o' @ concat (map batch_op_image ops) @ rest) =
      (op_code (b_op o'), key, val) # batch_ops (length ops) (concat (map batch_op_image ops) @ rest)"
    by (simp add: im Let_def codec_simps len)
  with Cons u show ?case
    by (simp add: key_def val_def)
qed

lemma length_batch_op_image:
  "length (batch_op_image o') \<le> 7 + length (b_key o') + length (b_value o')"
  by (simp add: batch_op_image_def Let_def codec_simps)

lemma length_concat_batch_ops:
  "length (concat (map batch_op_image ops)) \<le>
     sum_list (map (\<lambda>o'. 7 + length (b_key o') + length (b_value o')) ops)"
  by (induction ops) (auto intro: add_mono length_batch_op_image)

lemma length_batch_payload: "length (batch_payload ops) = batch_payload_size ops"
  using length_concat_batch_ops [of ops]
  by (simp add: batch_payload_def zero_pad_def batch_payload_size_def codec_simps)

subsection \<open>Log entries\<close>

datatype wal_entry = Single WalOp bytes bytes | Batched "batch_op list"

fun entry_header :: "wal_entry \<Rightarrow> log_header" where
  "entry_header (Single op key payload) =
     \<lparr>h_crc = compute_crc (op_code op) key payload, h_op = op_code op,
      h_key_len = word_of_nat (length key), h_payload_len = word_of_nat (length payload)\<rparr>"
| "entry_header (Batched ops) =
     \<lparr>h_crc = compute_crc (op_code BATCH) [] (batch_payload ops), h_op = op_code BATCH,
      h_key_len = 0, h_payload_len = word_of_nat (batch_payload_size ops)\<rparr>"

fun entry_key :: "wal_entry \<Rightarrow> bytes" where
  "entry_key (Single op key payload) = key"
| "entry_key (Batched ops) = []"

fun entry_payload :: "wal_entry \<Rightarrow> bytes" where
  "entry_payload (Single op key payload) = payload"
| "entry_payload (Batched ops) = batch_payload ops"

fun entry_image :: "wal_entry \<Rightarrow> bytes" where
  "entry_image (Single op key payload) = append_image op key payload"
| "entry_image (Batched ops) = batch_image ops"

text \<open>Entries whose sizes fit the header's fields. Batched keys may have any size.\<close>

fun entry_ok :: "wal_entry \<Rightarrow> bool" where
  "entry_ok (Single op key payload) \<longleftrightarrow>
     op \<noteq> BATCH \<and> length key < 2 ^ 16 \<and> length payload < 2 ^ 32"
| "entry_ok (Batched ops) \<longleftrightarrow> ops \<noteq> [] \<and> batch_payload_size ops < 2 ^ 32"

text \<open>The callback invocations an entry stands for.\<close>

fun entry_ops :: "wal_entry \<Rightarrow> callback list" where
  "entry_ops (Single op key payload) = [(op_code op, key, payload)]"
| "entry_ops (Batched ops) =
     map (\<lambda>o'. (op_code (b_op o'), take (length (b_key o') mod 2 ^ 16) (b_key o'),
                take (length (b_value o') mod 2 ^ 32) (b_value o'))) ops"

definition entry_result :: "wal_entry \<Rightarrow> callback" where
  "entry_result e = (h_op (entry_header e), entry_key e, entry_payload e)"

definition wal_log :: "wal_entry list \<Rightarrow> bytes" where
  "wal_log es = concat (map entry_image es)"

lemma entry_image_alt: "entry_image e = encode_header (entry_header e) @ entry_key e @ entry_payload e"
  by (cases e) (simp_all add: append_image_def batch_image_def Let_def)

lemma op_code_neq: "op_code op \<noteq> 0" "op_code op = 4 \<longleftrightarrow> op = BATCH"
  by (cases op; simp)+

lemma unat_u16_of_nat: "n < 2 ^ 16 \<Longrightarrow> unat (word_of_nat n :: u16) = n"
  by (simp add: unat_of_nat take_bit_eq_mod)

lemma unat_u32_of_nat: "n < 2 ^ 32 \<Longrightarrow> unat (word_of_nat n :: u32) = n"
  by (simp add: unat_of_nat take_bit_eq_mod)

lemma entry_sized: "entry_ok e \<Longrightarrow> sized (entry_header e) (entry_key e) (entry_payload e)"
  by (cases e) (simp_all add: sized_def unat_u16_of_nat unat_u32_of_nat length_batch_payload)

lemma entry_crc: "compute_crc (h_op (entry_header e)) (entry_key e) (entry_payload e) = h_crc (entry_header e)"
  by (cases e) simp_all

lemma entry_op_neq: "h_op (entry_header e) \<noteq> 0"
  by (cases e) (simp_all add: op_code_neq)

lemma length_ops_bound: "length ops \<le> batch_payload_size ops"
  unfolding batch_payload_size_def by (induction ops) auto

lemma entry_callbacks_result: "entry_ok e \<Longrightarrow> entry_callbacks (entry_result e) = entry_ops e"
proof (cases e)
  case (Single op key payload)
  then show "entry_ok e \<Longrightarrow> ?thesis"
    by (simp add: entry_result_def entry_callbacks_def op_code_neq)
next
  case (Batched ops)
  assume "entry_ok e"
  with Batched have n: "length ops < 2 ^ 32"
    using length_ops_bound [of ops] by simp
  let ?rest = "replicate (batch_payload_size ops - length (enc_u32 (word_of_nat (length ops)) @ concat (map batch_op_image ops))) 0"
  have p: "batch_payload ops = enc_u32 (word_of_nat (length ops)) @ concat (map batch_op_image ops) @ ?rest"
    by (simp add: batch_payload_def zero_pad_def)
  have "entry_callbacks (op_code BATCH, [], batch_payload ops) =
      batch_ops (length ops) (concat (map batch_op_image ops) @ ?rest)"
    unfolding entry_callbacks_def p by (simp add: codec_simps unat_u32_of_nat [OF n])
  then show ?thesis
    using Batched by (simp add: entry_result_def batch_ops_image)
qed

interpretation wl: log_format entry_image entry_ok "read_entry no_fail" entry_result entry_callbacks
  "recover_loop no_fail"
proof
  fix e pre post t f off
  show "entry_ok e \<Longrightarrow> entry_image e \<noteq> []"
    using length_encode_header [of "entry_header e"] by (auto simp: entry_image_alt HEADER_SIZE_def)
  show "entry_ok e \<Longrightarrow> read_entry no_fail (pre @ entry_image e @ post) (length pre) =
      Some (entry_result e, length pre + length (entry_image e))"
    unfolding entry_image_alt entry_result_def
    by (rule read_entry_record [OF entry_sized entry_op_neq entry_crc])
  show "entry_ok e \<Longrightarrow> strict_prefix t (entry_image e) \<Longrightarrow> read_entry no_fail (pre @ t) (length pre) = None"
    unfolding entry_image_alt by (rule read_entry_torn [OF entry_sized])
  show "recover_loop no_fail f off =
      (if off < length f
       then (case read_entry no_fail f off of None \<Rightarrow> ([], off)
             | Some (r, off') \<Rightarrow> (let (cs, last) = recover_loop no_fail f off' in (entry_callbacks r @ cs, last)))
       else ([], off))"
    by (rule recover_loop.simps)
qed

lemma wal_log_images: "wl.images es = wal_log es"
  by (simp add: wl.images_def wal_log_def)

lemma wl_emitted: "\<forall>e \<in> set es. entry_ok e \<Longrightarrow> wl.emitted es = concat (map entry_ops es)"
  unfolding wl.emitted_def by (induction es) (simp_all add: entry_callbacks_result)

subsection \<open>What a write leaves in the file\<close>

abbreviation at_end :: "wal \<Rightarrow> bool" where
  "at_end w \<equiv> w_pos w = length (w_file w)"

definition no_error :: "sys_write list \<Rightarrow> bool" where
  "no_error os \<longleftrightarrow> (\<forall>o' \<in> set os. \<forall>e. o' \<noteq> Werr e)"

lemma no_error_simps [simp]:
  "no_error []" "no_error (Eintr # os) = no_error os" "no_error (Wrote n # os) = no_error os"
  "\<not> no_error (Werr e # os)"
  by (auto simp: no_error_def)

lemma sys_put_end: "at_end w \<Longrightarrow> w_file (sys_put w d) = w_file w @ d \<and> at_end (sys_put w d)"
  by (simp add: sys_put_def Let_def)

text \<open>
  Whatever the system calls do, the file grows by a prefix of the data; the prefix is the whole data
  when the loop reports success, and success is what a run without errors reports.
\<close>

lemma write_loop_prefix:
  "write_loop w data os = Some (ok, w', os') \<Longrightarrow> at_end w \<Longrightarrow>
   \<exists>k. w_file w' = w_file w @ take k data \<and> at_end w' \<and>
       (ok \<longrightarrow> take k data = data) \<and> (no_error os \<longrightarrow> ok \<and> no_error os')"
proof (induction w data os rule: write_loop.induct)
  case (5 w d ds n os)
  have e: "at_end (sys_put w (take n (d # ds)))"
    and f: "w_file (sys_put w (take n (d # ds))) = w_file w @ take n (d # ds)"
    using sys_put_end [OF 5(3)] by auto
  from 5(2) have "write_loop (sys_put w (take n (d # ds))) (drop n (d # ds)) os = Some (ok, w', os')"
    by simp
  from 5(1) [OF this e] obtain k where k:
    "w_file w' = (w_file w @ take n (d # ds)) @ take k (drop n (d # ds))" "at_end w'"
    "ok \<longrightarrow> take k (drop n (d # ds)) = drop n (d # ds)" "no_error os \<longrightarrow> ok \<and> no_error os'"
    unfolding f by blast
  have t: "take n (d # ds) @ take k (drop n (d # ds)) = take (n + k) (d # ds)"
    by (simp only: take_add)
  from k t have "w_file w' = w_file w @ take (n + k) (d # ds)"
    by simp
  moreover from k(3) t have "ok \<longrightarrow> take (n + k) (d # ds) = d # ds"
    by (metis append_take_drop_id)
  ultimately show ?case
    using k(2,4) by (intro exI [of _ "n + k"]) simp
qed auto

lemma write_raw_prefix:
  assumes "write_raw w data os = Some (ok, w', os')" and "at_end w"
  shows "\<exists>k. w_file w' = w_file w @ take k data \<and> at_end w' \<and>
       (ok \<longrightarrow> take k data = data) \<and> (no_error os \<longrightarrow> ok \<and> no_error os')"
proof (cases "data = []")
  case True
  with assms show ?thesis by (auto simp: write_raw_def)
next
  case False
  with assms(1) obtain w1 where w1: "write_loop w data os = Some (ok, w1, os')"
      "w_file w' = w_file w1" "w_pos w' = w_pos w1"
    by (auto simp: write_raw_def bind_eq_Some_conv split: if_splits)
  from write_loop_prefix [OF w1(1) assms(2)] w1(2,3) show ?thesis
    by auto
qed

definition append_entry :: "wal \<Rightarrow> wal_entry \<Rightarrow> sys_write list \<Rightarrow> (wal \<times> sys_write list) option" where
  "append_entry w e os =
     (case e of Single op key payload \<Rightarrow> wal_append w op key payload os
      | Batched ops \<Rightarrow> append_batch w ops os)"

lemma append_entry_raw:
  "entry_ok e \<Longrightarrow> append_entry w e os =
     do { (ok, w, os) \<leftarrow> write_raw w (entry_image e) os; Some (w, os) }"
  by (cases e) (simp_all add: append_entry_def wal_append_def append_batch_def)

lemma append_entry_prefix:
  assumes "entry_ok e" and "append_entry w e os = Some (w', os')" and "at_end w"
  shows "\<exists>k. w_file w' = w_file w @ take k (entry_image e) \<and> at_end w' \<and>
       (no_error os \<longrightarrow> take k (entry_image e) = entry_image e \<and> no_error os')"
proof -
  from assms(1,2) obtain ok where "write_raw w (entry_image e) os = Some (ok, w', os')"
    by (auto simp: append_entry_raw bind_eq_Some_conv)
  from write_raw_prefix [OF this assms(3)] show ?thesis
    by auto
qed

text \<open>A sequence of appends, each consuming its system calls.\<close>

primrec append_entries :: "wal \<Rightarrow> wal_entry list \<Rightarrow> sys_write list \<Rightarrow> (wal \<times> sys_write list) option" where
  "append_entries w [] os = Some (w, os)"
| "append_entries w (e # es) os = do { (w, os) \<leftarrow> append_entry w e os; append_entries w es os }"

lemma append_entries_file:
  "\<forall>e \<in> set es. entry_ok e \<Longrightarrow> no_error os \<Longrightarrow> at_end w \<Longrightarrow>
   append_entries w es os = Some (w', os') \<Longrightarrow>
   w_file w' = w_file w @ wal_log es \<and> at_end w' \<and> no_error os'"
proof (induction es arbitrary: w os)
  case Nil
  then show ?case by (simp add: wal_log_def)
next
  case (Cons e es)
  from Cons(5) obtain w1 os1 where s: "append_entry w e os = Some (w1, os1)"
      "append_entries w1 es os1 = Some (w', os')"
    by (auto simp: bind_eq_Some_conv)
  from append_entry_prefix [OF _ s(1) Cons(4)] Cons(2,3)
  have "w_file w1 = w_file w @ entry_image e" "at_end w1" "no_error os1"
    by auto
  with Cons.IH [OF _ _ _ s(2)] Cons(2) show ?case
    by (simp add: wal_log_def)
qed

text \<open>One complete \<open>write\<close> per entry is enough for every append to return.\<close>

lemma append_entries_returns:
  "\<forall>e \<in> set es. entry_ok e \<Longrightarrow> \<exists>w'. append_entries w es (map (\<lambda>e. Wrote (length (entry_image e))) es @ os) = Some (w', os)"
proof (induction es arbitrary: w)
  case (Cons e es)
  obtain d ds where i: "entry_image e = d # ds"
    using wl.image_nonempty [of e] Cons(2) by (cases "entry_image e") auto
  then have "\<exists>w1. append_entry w e (Wrote (length (entry_image e)) # map (\<lambda>e. Wrote (length (entry_image e))) es @ os) =
      Some (w1, map (\<lambda>e. Wrote (length (entry_image e))) es @ os)"
    using Cons(2) by (simp add: append_entry_raw write_raw_def)
  with Cons show ?case
    by (auto simp: bind_eq_Some_conv)
qed simp

subsection \<open>Recovery reads back what was written\<close>

lemma recover_scan:
  assumes "\<forall>e \<in> set es. entry_ok e" and "recover_loop no_fail (wal_log es @ t) 0 = (concat (map entry_ops es), length (wal_log es))"
  shows "\<exists>n. recover no_fail (wal_open (wal_log es @ t)) =
    (concat (map entry_ops es), (wal_open (wal_log es))\<lparr>bytes_read := n\<rparr>)"
proof (cases "wal_log es @ t = []")
  case True
  then have "es = []"
    using assms(1) wl.image_nonempty by (cases es) (auto simp: wal_log_def)
  with True show ?thesis
    by (intro exI [of _ 0]) (simp add: recover_def wal_open_def wal_log_def)
next
  case False
  have cut: "(if length a < length (a @ b) then take (length a) (a @ b) else a @ b) = a" for a b :: bytes
    by simp
  show ?thesis
    using False assms(2) cut [of "wal_log es" t]
    by (intro exI [of _ "word_of_nat (length (wal_log es))"])
       (simp add: recover_def wal_open_def del: append_is_Nil_conv)
qed

lemma recover_torn:
  assumes "\<forall>e \<in> set es. entry_ok e" and "wl.torn t"
  shows "\<exists>n. recover no_fail (wal_open (wal_log es @ t)) =
    (concat (map entry_ops es), (wal_open (wal_log es))\<lparr>bytes_read := n\<rparr>)"
  using assms wl.scan_images [OF assms, of "[]"]
  by (intro recover_scan) (simp_all add: wal_log_images wl_emitted)

lemma recover_whole:
  "\<forall>e \<in> set es. entry_ok e \<Longrightarrow> fst (recover no_fail (wal_open (wal_log es))) = concat (map entry_ops es)"
  using recover_torn [of es "[]"] by (auto simp: wl.torn_def)

text \<open>C13. Every append that was written without an I/O error is read back by recovery: after any
  sequence of \<open>append\<close> and \<open>append_batch\<close> calls on a log, interrupted system calls and short writes
  included, reopening the file and recovering it invokes the callback with exactly the operations
  that were appended, in order, and leaves the file as it was. A key or value of a batch whose length does not
  fit the 16 or 32 bits the record has for it comes back cut to the length that was recorded.\<close>

theorem wal_roundtrip:
  assumes "\<forall>e \<in> set es0. entry_ok e" and "\<forall>e \<in> set es. entry_ok e" and "no_error os"
    and "append_entries (wal_open (wal_log es0)) es os = Some (w', os')"
  shows "fst (recover no_fail (wal_open (w_file w'))) = concat (map entry_ops (es0 @ es)) \<and>
    w_file (snd (recover no_fail (wal_open (w_file w')))) = w_file w'"
proof -
  have "w_file w' = wal_log (es0 @ es)"
    using append_entries_file [OF assms(2,3) _ assms(4)] by (simp add: wal_open_def wal_log_def)
  moreover have "\<forall>e \<in> set (es0 @ es). entry_ok e"
    using assms(1,2) by auto
  ultimately show ?thesis
    using recover_torn [of "es0 @ es" "[]"] by (auto simp: wl.torn_def wal_open_def)
qed

definition sample_entries :: "wal_entry list" where
  "sample_entries =
     [Single PUT (bs ''a'') (bs ''1''),
      Batched [\<lparr>b_op = PUT, b_key = bs ''b'', b_value = bs ''2''\<rparr>]]"

lemma sample_entries_ok: "\<forall>e \<in> set sample_entries. entry_ok e"
  by (simp add: sample_entries_def batch_payload_size_def)

definition whole_writes :: "wal_entry list \<Rightarrow> sys_write list" where
  "whole_writes es = map (\<lambda>e. Wrote (length (entry_image e))) es"

lemma no_error_whole_writes [simp]: "no_error (whole_writes es)"
  by (simp add: no_error_def whole_writes_def)

theorem wal_roundtrip_witness:
  "\<exists>w'. append_entries (wal_open (wal_log [])) sample_entries (whole_writes sample_entries) = Some (w', []) \<and>
     fst (recover no_fail (wal_open (w_file w'))) = concat (map entry_ops ([] @ sample_entries))"
proof -
  obtain w' where w: "append_entries (wal_open (wal_log [])) sample_entries (whole_writes sample_entries) = Some (w', [])"
    using append_entries_returns [OF sample_entries_ok, where os = "[]"] by (auto simp: whole_writes_def)
  from wal_roundtrip [OF _ sample_entries_ok no_error_whole_writes w] w show ?thesis
    by auto
qed

text \<open>C14. A crash in the middle of an append loses only that append: recovering a log whose last
  record is cut at any point reports exactly the records before it and cuts the file back to them, so
  that records appended after the recovery are read back by the next one.\<close>

theorem wal_crash_recovery:
  assumes "\<forall>e \<in> set es. entry_ok e" and "entry_ok e" and "k < length (entry_image e)"
    and "recover no_fail (wal_open (wal_log es @ take k (entry_image e))) = (cs, w)"
    and "\<forall>e \<in> set es'. entry_ok e" and "no_error os"
    and "append_entries w es' os = Some (w', os')"
  shows "cs = concat (map entry_ops es) \<and> w_file w = wal_log es \<and>
    fst (recover no_fail (wal_open (w_file w'))) = concat (map entry_ops (es @ es'))"
proof -
  have "strict_prefix (take k (entry_image e)) (entry_image e)"
    using assms(3) by (auto simp: strict_prefix_def take_is_prefix)
  then have "wl.torn (take k (entry_image e))"
    using assms(2) by (auto simp: wl.torn_def)
  from recover_torn [OF assms(1) this] assms(4) obtain n where
    r: "cs = concat (map entry_ops es)" "w = (wal_open (wal_log es))\<lparr>bytes_read := n\<rparr>"
    by auto
  then have "w_file w' = wal_log (es @ es')"
    using append_entries_file [OF assms(5,6) _ assms(7)] by (simp add: wal_open_def wal_log_def)
  then show ?thesis
    using r recover_whole [of "es @ es'"] assms(1,5) by (auto simp: wal_open_def)
qed

theorem wal_crash_recovery_witness:
  "\<exists>cs w w'.
     recover no_fail (wal_open (wal_log [] @ take 7 (entry_image (Single DELETE (bs ''a'') [])))) = (cs, w) \<and>
     append_entries w sample_entries (whole_writes sample_entries) = Some (w', []) \<and>
     fst (recover no_fail (wal_open (w_file w'))) = concat (map entry_ops ([] @ sample_entries))"
proof -
  let ?d = "Single DELETE (bs ''a'') []"
  obtain cs w where r: "recover no_fail (wal_open (wal_log [] @ take 7 (entry_image ?d))) = (cs, w)"
    by fastforce
  have d: "entry_ok ?d" and k: "7 < length (entry_image ?d)"
    by (simp_all add: append_image_def codec_simps HEADER_SIZE_def)
  obtain w' where w: "append_entries w sample_entries (whole_writes sample_entries) = Some (w', [])"
    using append_entries_returns [OF sample_entries_ok, where os = "[]"] by (auto simp: whole_writes_def)
  from wal_crash_recovery [OF _ d k r sample_entries_ok no_error_whole_writes w] r w show ?thesis
    by auto
qed

subsection \<open>Damage\<close>

lemma dec_u32_changed:
  assumes "length d = 4" and "d \<noteq> enc_u32 c"
  shows "d = enc_u32 (dec_u32 d) \<and> dec_u32 d \<noteq> c"
  using assms by (auto simp: enc_dec_u32)

text \<open>A change of one byte outside the two length fields leaves a record the scan refuses.\<close>

lemma read_entry_damaged:
  assumes e: "entry_ok e" and i: "i < length (entry_image e)" "i < 5 \<or> 11 \<le> i"
    and b: "b \<noteq> entry_image e ! i"
  shows "read_entry no_fail (pre @ (entry_image e)[i := b] @ post) (length pre) = None"
proof -
  let ?h = "entry_header e" and ?k = "entry_key e" and ?p = "entry_payload e"
  let ?l = "enc_u16 (h_key_len ?h) @ enc_u32 (h_payload_len ?h)"
  have im: "entry_image e = enc_u32 (h_crc ?h) @ [h_op ?h] @ ?l @ ?k @ ?p"
    by (simp add: entry_image_alt encode_header_def)
  have bad: "read_entry no_fail (pre @ (encode_header (?h\<lparr>h_crc := c, h_op := o'\<rparr>) @ k @ p) @ post) (length pre) = None"
    if "length k = length ?k" "length p = length ?p" "compute_crc o' k p \<noteq> c" for c o' k p
    using entry_sized [OF e] that by (intro read_entry_bad_crc) (simp_all add: sized_def)
  have crc: "compute_crc (h_op ?h) ?k ?p = h_crc ?h"
    by (rule entry_crc)
  consider "i < 4" | "i = 4" | "11 \<le> i"
    using i(2) by linarith
  then show ?thesis
  proof cases
    case 1
    let ?c = "dec_u32 ((enc_u32 (h_crc ?h))[i := b])"
    have "(enc_u32 (h_crc ?h))[i := b] \<noteq> enc_u32 (h_crc ?h)"
      using 1 b by (auto simp: im nth_append codec_simps list_eq_iff_nth_eq)
    with dec_u32_changed have c: "(enc_u32 (h_crc ?h))[i := b] = enc_u32 ?c" "?c \<noteq> h_crc ?h"
      by (simp_all add: codec_simps)
    then have "(entry_image e)[i := b] = encode_header (?h\<lparr>h_crc := ?c, h_op := h_op ?h\<rparr>) @ ?k @ ?p"
      using 1 by (simp add: im list_update_append codec_simps encode_header_def)
    with bad [of ?k ?p "h_op ?h" ?c] c crc show ?thesis
      by simp
  next
    case 2
    have "b \<noteq> h_op ?h"
      using 2 b by (simp add: im nth_append codec_simps)
    then have "compute_crc b ?k ?p \<noteq> h_crc ?h"
      using crc_process_one_byte [of _ "[]"] unfolding crc [symmetric] compute_crc_alt by auto
    moreover have "(entry_image e)[i := b] = encode_header (?h\<lparr>h_crc := h_crc ?h, h_op := b\<rparr>) @ ?k @ ?p"
      using 2 by (simp add: im list_update_append codec_simps encode_header_def)
    ultimately show ?thesis
      using bad [of ?k ?p b "h_crc ?h"] by simp
  next
    case 3
    let ?d = "?k @ ?p" and ?j = "i - 11"
    have split: "entry_image e = encode_header ?h @ ?d" and l: "length (encode_header ?h) = 11"
      by (simp_all add: entry_image_alt codec_simps HEADER_SIZE_def)
    then have "entry_image e ! i = ?d ! ?j" and j: "?j < length ?d"
      using 3 i(1) by (auto simp: nth_append simp del: append_assoc)
    with b have ne: "?d ! ?j \<noteq> b"
      by simp
    let ?k' = "take (length ?k) (?d[?j := b])" and ?p' = "drop (length ?k) (?d[?j := b])"
    have "crc_process x (?k' @ ?p') \<noteq> crc_process x ?d" for x
      using crc_update_neq [OF j ne] by simp
    then have "compute_crc (h_op ?h) ?k' ?p' \<noteq> h_crc ?h"
      unfolding crc [symmetric] compute_crc_alt
      by (simp add: crc_process_def del: append_take_drop_id)
    moreover have "(entry_image e)[i := b] = encode_header (?h\<lparr>h_crc := h_crc ?h, h_op := h_op ?h\<rparr>) @ ?k' @ ?p'"
      using 3 l by (simp add: split list_update_append1 list_update_append)
    ultimately show ?thesis
      using bad [of ?k' ?p' "h_op ?h" "h_crc ?h"] by simp
  qed
qed

text \<open>C15. A damaged record is never replayed: if one byte of a record (any byte of its checksum, operation
  code, key or payload) is changed to another value, recovery reports exactly the records before it
  and cuts the log there, whatever follows.\<close>

theorem wal_damage_detected:
  assumes "\<forall>e \<in> set es. entry_ok e" and "entry_ok e"
    and "i < length (entry_image e)" and "i < 5 \<or> 11 \<le> i" and "b \<noteq> entry_image e ! i"
  shows "fst (recover no_fail (wal_open (wal_log es @ (entry_image e)[i := b] @ post))) = concat (map entry_ops es) \<and>
    w_file (snd (recover no_fail (wal_open (wal_log es @ (entry_image e)[i := b] @ post)))) = wal_log es"
proof -
  let ?d = "(entry_image e)[i := b] @ post"
  have "read_entry no_fail ([] @ wl.images es @ ?d) (length [] + length (wl.images es)) = None"
    using read_entry_damaged [OF assms(2-5)] by simp
  from wl.scan_damaged [OF assms(1) this] recover_scan [OF assms(1), of ?d] show ?thesis
    by (auto simp: wal_log_images wl_emitted [OF assms(1)] wal_open_def)
qed

theorem wal_damage_detected_witness:
  "fst (recover no_fail (wal_open (wal_log sample_entries @
     (entry_image (Single PUT (bs ''c'') (bs ''3'')))[11 := 0] @ entry_image (Single PUT (bs ''d'') []))))
   = concat (map entry_ops sample_entries)"
proof -
  let ?e = "Single PUT (bs ''c'') (bs ''3'')"
  have "11 < length (entry_image ?e)" and "0 \<noteq> entry_image ?e ! 11"
    by (simp_all add: append_image_def codec_simps HEADER_SIZE_def nth_append)
       (simp add: bs_def byte_of_char_def)
  then show ?thesis
    using wal_damage_detected [OF sample_entries_ok, of ?e 11 0] by simp
qed

text \<open>A key of 65536 bytes or more does not survive a batch: \<open>append_batch\<close> reports nothing, and
  recovery hands the callback a different, shorter key.\<close>

theorem batch_key_truncated:
  assumes "65536 \<le> length key" and "length key + length v + 11 < 2 ^ 32"
    and "append_batch (wal_open []) [\<lparr>b_op = PUT, b_key = key, b_value = v\<rparr>] os = Some (w', os')"
    and "no_error os"
  shows "\<exists>key'. fst (recover no_fail (wal_open (w_file w'))) = [(op_code PUT, key', v)] \<and>
    length key' < 65536 \<and> key' \<noteq> key"
proof -
  let ?e = "Batched [\<lparr>b_op = PUT, b_key = key, b_value = v\<rparr>]"
  have ok: "\<forall>e \<in> set [?e]. entry_ok e"
    using assms(2) by (simp add: batch_payload_size_def)
  have "append_entries (wal_open []) [?e] os = Some (w', os')"
    using assms(3) by (simp add: append_entry_def)
  from append_entries_file [OF ok assms(4) _ this] have "w_file w' = wal_log [?e]"
    by (simp add: wal_open_def)
  then have "fst (recover no_fail (wal_open (w_file w'))) = entry_ops ?e"
    using recover_whole [OF ok] by simp
  moreover have "length v mod 4294967296 = length v"
    using assms(2) by simp
  moreover have "length (take (length key mod 65536) key) < 65536"
    by (simp add: min.strict_coboundedI1)
  ultimately show ?thesis
    using assms(1) by (auto intro!: exI [of _ "take (length key mod 65536) key"])
qed

theorem batch_key_truncated_witness:
  "\<exists>w' os' key'. append_batch (wal_open []) [\<lparr>b_op = PUT, b_key = replicate 65537 97, b_value = []\<rparr>] [Wrote 100000] = Some (w', os') \<and>
     fst (recover no_fail (wal_open (w_file w'))) = [(op_code PUT, key', [])] \<and> length key' < 65536"
proof -
  let ?k = "replicate 65537 97 :: bytes"
  let ?o = "\<lparr>b_op = PUT, b_key = ?k, b_value = []\<rparr>"
  have "length (batch_image [?o]) \<le> 100000" "batch_image [?o] \<noteq> []"
    by (simp_all add: batch_image_def Let_def codec_simps HEADER_SIZE_def length_batch_payload
        batch_payload_size_def)
       (simp add: encode_header_def)
  then obtain d ds where d: "batch_image [?o] = d # ds" "length (d # ds) \<le> 100000"
    by (cases "batch_image [?o]") auto
  then have "\<exists>w'. append_batch (wal_open []) [?o] [Wrote 100000] = Some (w', [])"
    by (simp add: append_batch_def write_raw_def)
  then obtain w' where "append_batch (wal_open []) [?o] [Wrote 100000] = Some (w', [])" ..
  moreover have "no_error [Wrote 100000]"
    by simp
  ultimately show ?thesis
    using batch_key_truncated [of ?k "[]" "[Wrote 100000]" w' "[]"] by auto
qed

subsection \<open>Failed writes\<close>

lemma crc_bits_eval: "(crc_bit ^^ numeral k) x = (crc_bit ^^ pred_numeral k) (crc_bit x)"
  by (simp add: numeral_eq_Suc funpow_swap1)

lemmas crc_eval = compute_crc_alt crc_process_def crc_byte_def crc_bits_eval crc_bit_alt

definition three_puts :: "wal_entry list" where
  "three_puts = [Single PUT [97] [49], Single PUT [98] [50], Single PUT [99] [51]]"

definition lossy_writes :: "sys_write list" where
  "lossy_writes = [Wrote 13, Wrote 5, Werr 28, Wrote 13]"

definition lossy_file :: bytes where
  "lossy_file =
     [249, 233, 187, 211, 1, 1, 0, 1, 0, 0, 0, 97, 49, 128, 235, 159, 97, 1, 87, 234, 131, 15, 1, 1, 0, 1, 0, 0, 0, 99, 51]"

lemma lossy_file_written:
  "\<exists>w. append_entries (wal_open []) three_puts lossy_writes = Some (w, []) \<and> w_file w = lossy_file"
  by (simp add: three_puts_def lossy_writes_def lossy_file_def append_entry_def wal_append_def
      write_raw_def sys_put_def wal_open_def append_image_def encode_header_def crc_eval enc_u32_def enc_u16_def)

lemma lossy_file_first: "read_entry no_fail lossy_file 0 = Some ((op_code PUT, [97], [49]), 13)"
  by (simp add: lossy_file_def read_entry_def pread_def HEADER_SIZE_def decode_header_def
      dec_u32_def dec_u16_def crc_eval)

lemma lossy_file_second: "read_entry no_fail lossy_file 13 = None"
  by (simp add: lossy_file_def read_entry_def pread_def HEADER_SIZE_def decode_header_def
      dec_u32_def dec_u16_def)

text \<open>\<open>append\<close> drops the verdict of \<open>write_raw\<close>, so a write that fails half way is not
  repaired: of three puts of which the second one runs out of space after five bytes, recovery returns
  the first only, although the third was written completely and without an error.\<close>

theorem failed_write_hides_later_entries:
  "\<exists>w. append_entries (wal_open []) three_puts lossy_writes = Some (w, []) \<and>
     fst (recover no_fail (wal_open (w_file w))) = entry_ops (hd three_puts)"
proof -
  have "length lossy_file = 31"
    by (simp add: lossy_file_def)
  then have "recover_loop no_fail lossy_file 0 = ([(op_code PUT, [97], [49])], 13)"
    by (subst recover_loop.simps, subst recover_loop.simps)
       (simp add: lossy_file_first lossy_file_second entry_callbacks_def)
  then have "fst (recover no_fail (wal_open lossy_file)) = entry_ops (hd three_puts)"
    by (simp add: recover_def wal_open_def three_puts_def) (simp add: lossy_file_def)
  with lossy_file_written show ?thesis
    by auto
qed

end
