(* ===== verification/Credential_Manager.thy ===== *)
theory Credential_Manager
  imports L3_Prelude "HOL-Library.Multiset"
begin

text \<open>
  Users and access rules: \<open>CredentialManager\<close> (engine/credential_manager.hpp). The three hash maps are
  maps; a \<open>Permission\<close> is its byte, since \<open>operator|\<close> builds values outside the enumerators. \<open>std::sort\<close> is
  not stable, so the order it gives to rules of equal length is not determined by the source: the
  sorting function is an argument \<open>srt\<close>, and \<open>sort_spec\<close> states what the standard promises of it.
\<close>

unbundle bit_operations_syntax

subsection \<open>Permissions, users, rules\<close>

definition INTERNAL_UID :: u32 where
  "INTERNAL_UID = 0xFFFFFFFF"

definition ADMIN_UID :: u32 where
  "ADMIN_UID = 0"

type_synonym permission = u8

definition NONE :: permission where "NONE = 0"
definition READ :: permission where "READ = 1"
definition WRITE :: permission where "WRITE = 2"
definition ADMIN :: permission where "ADMIN = 4"

definition perm_or :: "permission \<Rightarrow> permission \<Rightarrow> permission" where
  "perm_or a b = a OR b"

definition perm_and :: "permission \<Rightarrow> permission \<Rightarrow> bool" where
  "perm_and a b \<longleftrightarrow> a AND b \<noteq> 0"

record user_identity =
  u_uid :: u32
  u_name :: bytes
  u_public_key :: bytes

record acl_rule =
  r_prefix :: bytes
  r_perm :: permission

record credential_manager =
  key_to_uid :: "bytes \<rightharpoonup> u32"
  users :: "u32 \<rightharpoonup> user_identity"
  user_acls :: "u32 \<rightharpoonup> acl_rule list"

type_synonym acl_sort = "acl_rule list \<Rightarrow> acl_rule list"

definition cm_init :: credential_manager where
  "cm_init = \<lparr>key_to_uid = Map.empty, users = Map.empty, user_acls = Map.empty\<rparr>"

subsection \<open>Operations\<close>

definition register_user ::
    "credential_manager \<Rightarrow> u32 \<Rightarrow> bytes \<Rightarrow> bytes \<Rightarrow> bool \<times> credential_manager" where
  "register_user cm uid name public_key =
     (if users cm uid \<noteq> None then (False, cm)
      else (True,
        cm\<lparr>users := (users cm)(uid \<mapsto> \<lparr>u_uid = uid, u_name = name, u_public_key = public_key\<rparr>),
           key_to_uid := (if public_key \<noteq> [] then (key_to_uid cm)(public_key \<mapsto> uid) else key_to_uid cm)\<rparr>))"

text \<open>The outer option is the exception of \<open>users_.at\<close>.\<close>

definition get_user_by_key :: "credential_manager \<Rightarrow> bytes \<Rightarrow> user_identity option option" where
  "get_user_by_key cm public_key =
     (if public_key = [] then Some None
      else (case key_to_uid cm public_key of
              None \<Rightarrow> Some None
            | Some uid \<Rightarrow> (case users cm uid of None \<Rightarrow> None | Some u \<Rightarrow> Some (Some u))))"

definition set_acl ::
    "acl_sort \<Rightarrow> credential_manager \<Rightarrow> u32 \<Rightarrow> bytes \<Rightarrow> permission \<Rightarrow> credential_manager" where
  "set_acl srt cm uid pfx perm =
     (let acls = (case user_acls cm uid of None \<Rightarrow> [] | Some a \<Rightarrow> a);
          acls = filter (\<lambda>r. r_prefix r \<noteq> pfx) acls;
          acls = acls @ [\<lparr>r_prefix = pfx, r_perm = perm\<rparr>]
      in cm\<lparr>user_acls := (user_acls cm)(uid \<mapsto> srt acls)\<rparr>)"

definition rule_applies :: "bytes \<Rightarrow> bytes \<Rightarrow> bool" where
  "rule_applies pfx key \<longleftrightarrow> pfx = bs ''*'' \<or> pfx = take (length pfx) key"

primrec first_rule :: "acl_rule list \<Rightarrow> bytes \<Rightarrow> permission" where
  "first_rule [] key = NONE"
| "first_rule (r # rs) key = (if rule_applies (r_prefix r) key then r_perm r else first_rule rs key)"

definition check_permission :: "credential_manager \<Rightarrow> u32 \<Rightarrow> bytes \<Rightarrow> permission" where
  "check_permission cm uid key =
     (if uid = INTERNAL_UID \<or> uid = ADMIN_UID then ADMIN
      else (case user_acls cm uid of None \<Rightarrow> NONE | Some acls \<Rightarrow> first_rule acls key))"

text \<open>The two tests the engine makes of a permission.\<close>

definition can_read :: "credential_manager \<Rightarrow> u32 \<Rightarrow> bytes \<Rightarrow> bool" where
  "can_read cm uid key =
     (let perm = check_permission cm uid key in perm_and perm READ \<or> perm_and perm ADMIN)"

definition can_write :: "credential_manager \<Rightarrow> u32 \<Rightarrow> bytes \<Rightarrow> bool" where
  "can_write cm uid key =
     (let perm = check_permission cm uid key in perm_and perm WRITE \<or> perm_and perm ADMIN)"

subsection \<open>What \<open>std::sort\<close> promises\<close>

definition longer_first :: "acl_rule list \<Rightarrow> bool" where
  "longer_first = sorted_wrt (\<lambda>a b. length (r_prefix a) \<ge> length (r_prefix b))"

definition sort_spec :: "acl_sort \<Rightarrow> bool" where
  "sort_spec srt \<longleftrightarrow> (\<forall>rs. mset (srt rs) = mset rs \<and> longer_first (srt rs))"

lemma sort_spec_set: "sort_spec srt \<Longrightarrow> set (srt rs) = set rs"
  by (metis sort_spec_def set_mset_mset)

lemma sort_spec_sorted: "sort_spec srt \<Longrightarrow> longer_first (srt rs)"
  by (simp add: sort_spec_def)

text \<open>Two sorts that meet the contract and differ on ties.\<close>

definition sort_by_length :: acl_sort where
  "sort_by_length rs = rev (sort_key (\<lambda>r. length (r_prefix r)) rs)"

definition sort_by_length_rev :: acl_sort where
  "sort_by_length_rev rs = rev (sort_key (\<lambda>r. length (r_prefix r)) (rev rs))"

lemma longer_first_rev_sort: "longer_first (rev (sort_key (\<lambda>r. length (r_prefix r)) rs))"
proof -
  have "sorted_wrt (\<lambda>a b. length (r_prefix a) \<le> length (r_prefix b)) (sort_key (\<lambda>r. length (r_prefix r)) rs)"
    using sorted_sort_key [of "\<lambda>r. length (r_prefix r)" rs] by (simp add: sorted_wrt_map)
  then show ?thesis
    by (simp add: longer_first_def sorted_wrt_rev)
qed

lemma sort_by_length_spec: "sort_spec sort_by_length"
  by (simp add: sort_spec_def sort_by_length_def longer_first_rev_sort)

lemma sort_by_length_rev_spec: "sort_spec sort_by_length_rev"
  by (simp add: sort_spec_def sort_by_length_rev_def longer_first_rev_sort)

subsection \<open>Rule lists\<close>

lemma first_rule_none: "\<forall>r \<in> set rs. \<not> rule_applies (r_prefix r) key \<Longrightarrow> first_rule rs key = NONE"
  by (induction rs) auto

text \<open>In a list sorted by length, the first rule that applies is one of the longest that do.\<close>

lemma first_rule_longest:
  assumes "longer_first rs" and "r \<in> set rs" and "rule_applies (r_prefix r) key"
    and "\<forall>r' \<in> set rs. rule_applies (r_prefix r') key \<longrightarrow> r' = r \<or> length (r_prefix r') < length (r_prefix r)"
  shows "first_rule rs key = r_perm r"
  using assms
proof (induction rs)
  case (Cons a rs)
  show ?case
  proof (cases "rule_applies (r_prefix a) key")
    case True
    have "a = r"
    proof (rule ccontr)
      assume "a \<noteq> r"
      with Cons(3) have "r \<in> set rs" by auto
      with Cons(2) have "length (r_prefix r) \<le> length (r_prefix a)"
        by (auto simp: longer_first_def)
      with Cons(5) True \<open>a \<noteq> r\<close> show False
        by fastforce
    qed
    with True show ?thesis by simp
  next
    case False
    with Cons(4) Cons(3) have "r \<in> set rs" by auto
    with Cons False show ?thesis
      by (auto simp: longer_first_def)
  qed
qed simp

subsection \<open>The table of rules\<close>

text \<open>
  The contract of the rule table: for every user and prefix the permission set last. \<open>acl_table\<close> reads
  it off the lists.
\<close>

definition acls_of :: "credential_manager \<Rightarrow> u32 \<Rightarrow> acl_rule list" where
  "acls_of cm uid = (case user_acls cm uid of None \<Rightarrow> [] | Some a \<Rightarrow> a)"

definition acl_table :: "credential_manager \<Rightarrow> u32 \<Rightarrow> bytes \<Rightarrow> permission option" where
  "acl_table cm uid pfx = map_of (map (\<lambda>r. (r_prefix r, r_perm r)) (acls_of cm uid)) pfx"

definition acl_inv :: "credential_manager \<Rightarrow> bool" where
  "acl_inv cm \<longleftrightarrow>
     (\<forall>uid. distinct (map r_prefix (acls_of cm uid)) \<and> longer_first (acls_of cm uid))"

lemma acl_inv_init [simp]: "acl_inv cm_init"
  by (simp add: acl_inv_def acls_of_def cm_init_def longer_first_def)

lemma acls_of_set_acl:
  "acls_of (set_acl srt cm uid pfx perm) u =
     (if u = uid then srt (filter (\<lambda>r. r_prefix r \<noteq> pfx) (acls_of cm uid) @ [\<lparr>r_prefix = pfx, r_perm = perm\<rparr>])
      else acls_of cm u)"
  by (auto simp: acls_of_def set_acl_def Let_def split: option.splits)

lemma distinct_srt:
  assumes "sort_spec srt" and "distinct (map f rs)"
  shows "distinct (map f (srt rs))"
proof -
  have "mset (map f (srt rs)) = mset (map f rs)"
    using assms(1) by (simp add: sort_spec_def)
  then show ?thesis
    using assms(2) mset_eq_imp_distinct_iff by blast
qed

lemma acl_inv_set_acl:
  assumes "sort_spec srt" and "acl_inv cm"
  shows "acl_inv (set_acl srt cm uid pfx perm)"
proof -
  have "distinct (map r_prefix (filter (\<lambda>r. r_prefix r \<noteq> pfx) (acls_of cm uid) @ [\<lparr>r_prefix = pfx, r_perm = perm\<rparr>]))"
    using assms(2) by (auto simp: acl_inv_def distinct_map_filter)
  with assms show ?thesis
    by (auto simp: acl_inv_def acls_of_set_acl intro: distinct_srt sort_spec_sorted)
qed

lemma acl_rule_eq: "(r_prefix r, r_perm r) = (p, q) \<longleftrightarrow> r = \<lparr>r_prefix = p, r_perm = q\<rparr>"
  by (cases r) auto

lemma acl_rule_surj [simp]: "\<lparr>r_prefix = r_prefix r, r_perm = r_perm r\<rparr> = r"
  by (cases r) auto

lemma acl_table_iff:
  assumes "acl_inv cm"
  shows "acl_table cm uid pfx = Some perm \<longleftrightarrow> \<lparr>r_prefix = pfx, r_perm = perm\<rparr> \<in> set (acls_of cm uid)"
proof -
  have "distinct (map fst (map (\<lambda>r. (r_prefix r, r_perm r)) (acls_of cm uid)))"
    using assms by (simp add: acl_inv_def comp_def)
  then have "acl_table cm uid pfx = Some perm \<longleftrightarrow>
      (pfx, perm) \<in> set (map (\<lambda>r. (r_prefix r, r_perm r)) (acls_of cm uid))"
    unfolding acl_table_def by (rule map_of_eq_Some_iff)
  also have "\<dots> \<longleftrightarrow> \<lparr>r_prefix = pfx, r_perm = perm\<rparr> \<in> set (acls_of cm uid)"
    unfolding set_map image_iff using acl_rule_eq by metis
  finally show ?thesis .
qed

text \<open>\<open>set_acl\<close> implements a point update of the table.\<close>

lemma acl_table_set_acl:
  assumes "sort_spec srt" and "acl_inv cm"
  shows "acl_table (set_acl srt cm uid pfx perm) = (acl_table cm)(uid := (acl_table cm uid)(pfx \<mapsto> perm))"
proof (intro ext)
  fix u q
  have "acl_table (set_acl srt cm uid pfx perm) u q = Some y \<longleftrightarrow>
      ((acl_table cm)(uid := (acl_table cm uid)(pfx \<mapsto> perm))) u q = Some y" for y
    using acl_table_iff [OF acl_inv_set_acl [OF assms, of uid pfx perm], of u q y]
      acl_table_iff [OF assms(2), of u q y]
    by (auto simp: acls_of_set_acl sort_spec_set [OF assms(1)])
  then show "acl_table (set_acl srt cm uid pfx perm) u q =
      ((acl_table cm)(uid := (acl_table cm uid)(pfx \<mapsto> perm))) u q"
    by (metis option.exhaust)
qed

lemma check_permission_rules:
  "uid \<noteq> INTERNAL_UID \<Longrightarrow> uid \<noteq> ADMIN_UID \<Longrightarrow> check_permission cm uid key = first_rule (acls_of cm uid) key"
  by (simp add: check_permission_def acls_of_def split: option.splits)

text \<open>Longest-prefix match over the table.\<close>

lemma check_permission_longest:
  assumes "acl_inv cm" and "uid \<noteq> INTERNAL_UID" "uid \<noteq> ADMIN_UID"
    and "acl_table cm uid p = Some perm" and "rule_applies p key"
    and "\<forall>q. acl_table cm uid q \<noteq> None \<longrightarrow> rule_applies q key \<longrightarrow> q = p \<or> length q < length p"
  shows "check_permission cm uid key = perm"
proof -
  let ?r = "\<lparr>r_prefix = p, r_perm = perm\<rparr>"
  have "first_rule (acls_of cm uid) key = r_perm ?r"
  proof (rule first_rule_longest)
    show "longer_first (acls_of cm uid)" "?r \<in> set (acls_of cm uid)" "rule_applies (r_prefix ?r) key"
      using assms acl_table_iff [OF assms(1)] by (auto simp: acl_inv_def)
    show "\<forall>r' \<in> set (acls_of cm uid). rule_applies (r_prefix r') key \<longrightarrow>
        r' = ?r \<or> length (r_prefix r') < length (r_prefix ?r)"
    proof (intro ballI impI)
      fix r' assume r': "r' \<in> set (acls_of cm uid)" "rule_applies (r_prefix r') key"
      then have t: "acl_table cm uid (r_prefix r') = Some (r_perm r')"
        using acl_table_iff [OF assms(1)] by simp
      with assms(6) r' have "r_prefix r' = p \<or> length (r_prefix r') < length p"
        by blast
      with t assms(4) show "r' = ?r \<or> length (r_prefix r') < length (r_prefix ?r)"
        by auto
    qed
  qed
  with assms(2,3) show ?thesis
    by (simp add: check_permission_rules)
qed

lemma check_permission_default:
  assumes "acl_inv cm" and "uid \<noteq> INTERNAL_UID" "uid \<noteq> ADMIN_UID"
    and "\<forall>q. acl_table cm uid q \<noteq> None \<longrightarrow> \<not> rule_applies q key"
  shows "check_permission cm uid key = NONE"
proof -
  have "\<not> rule_applies (r_prefix r) key" if "r \<in> set (acls_of cm uid)" for r
    using that assms(4) acl_table_iff [OF assms(1), of uid "r_prefix r" "r_perm r"] by auto
  then show ?thesis
    using assms(2,3) by (simp add: check_permission_rules first_rule_none)
qed

subsection \<open>Properties\<close>

type_synonym acl_call = "u32 \<times> bytes \<times> permission"

definition run_acl :: "acl_sort \<Rightarrow> credential_manager \<Rightarrow> acl_call list \<Rightarrow> credential_manager" where
  "run_acl srt cm calls = foldl (\<lambda>cm (uid, pfx, perm). set_acl srt cm uid pfx perm) cm calls"

definition last_set :: "acl_call list \<Rightarrow> u32 \<Rightarrow> bytes \<Rightarrow> permission option" where
  "last_set calls uid pfx = map_of (rev (map (\<lambda>(u, p, q). ((u, p), q)) calls)) (uid, pfx)"

lemma run_acl_table:
  assumes "sort_spec srt"
  shows "acl_inv (run_acl srt cm_init calls) \<and>
    acl_table (run_acl srt cm_init calls) uid pfx = last_set calls uid pfx"
proof (induction calls arbitrary: uid pfx rule: rev_induct)
  case Nil
  then show ?case
    by (simp add: run_acl_def last_set_def) (simp add: acl_table_def acls_of_def cm_init_def)
next
  case (snoc c calls)
  obtain u p q where c: "c = (u, p, q)"
    by (cases c) auto
  have "run_acl srt cm_init (calls @ [c]) = set_acl srt (run_acl srt cm_init calls) u p q"
    by (simp add: run_acl_def c)
  with snoc assms show ?case
    by (simp add: acl_inv_set_acl acl_table_set_acl last_set_def c)
qed

text \<open>C19. The access decision is longest-prefix match over the rules set last: after any sequence of
  \<open>set_acl\<close> calls, and for any sorting function that meets the contract of \<open>std::sort\<close>, an ordinary
  user gets the permission set last for the longest prefix (\<open>*\<close> counting as a prefix of length
  one that matches every key) that applies to the key, and \<open>NONE\<close> when no prefix set for the user applies.\<close>

theorem acl_longest_prefix:
  assumes "sort_spec srt" and "uid \<noteq> INTERNAL_UID" and "uid \<noteq> ADMIN_UID"
  shows "(\<forall>p perm. last_set calls uid p = Some perm \<longrightarrow> rule_applies p key \<longrightarrow>
        (\<forall>q. last_set calls uid q \<noteq> None \<longrightarrow> rule_applies q key \<longrightarrow> q = p \<or> length q < length p) \<longrightarrow>
        check_permission (run_acl srt cm_init calls) uid key = perm) \<and>
     ((\<forall>q. last_set calls uid q \<noteq> None \<longrightarrow> \<not> rule_applies q key) \<longrightarrow>
        check_permission (run_acl srt cm_init calls) uid key = NONE)"
  using run_acl_table [OF assms(1), of calls] assms(2,3)
    check_permission_longest [of "run_acl srt cm_init calls" uid _ _ key]
    check_permission_default [of "run_acl srt cm_init calls" uid key]
  by auto

theorem acl_longest_prefix_witness:
  "check_permission (run_acl sort_by_length cm_init
      [(7, bs ''*'', READ), (7, bs ''doc:'', WRITE), (7, bs ''doc:'', NONE)]) 7 (bs ''doc:1'') = NONE \<and>
   check_permission (run_acl sort_by_length cm_init
      [(7, bs ''*'', READ), (7, bs ''doc:'', WRITE), (7, bs ''doc:'', NONE)]) 7 (bs ''img:1'') = READ"
proof -
  let ?c = "[(7, bs ''*'', READ), (7, bs ''doc:'', WRITE), (7, bs ''doc:'', NONE)]"
  have u: "(7::u32) \<noteq> INTERNAL_UID" "(7::u32) \<noteq> ADMIN_UID"
    by (simp_all add: INTERNAL_UID_def ADMIN_UID_def)
  have t: "last_set ?c 7 q = (if q = bs ''doc:'' then Some NONE else if q = bs ''*'' then Some READ else None)" for q
    by (simp add: last_set_def)
  have a: "rule_applies (bs ''doc:'') (bs ''doc:1'')" "\<not> rule_applies (bs ''doc:'') (bs ''img:1'')"
    "rule_applies (bs ''*'') k" for k
    by (simp_all add: rule_applies_def bs_def byte_of_char_def)
  have "length (bs ''doc:'') = 4" "length (bs ''*'') = 1"
    by simp_all
  with acl_longest_prefix [OF sort_by_length_spec u, of ?c "bs ''doc:1''"]
    acl_longest_prefix [OF sort_by_length_spec u, of ?c "bs ''img:1''"] t a
  show ?thesis
    by (auto split: if_splits)
qed

text \<open>The rule \<open>*\<close> ties with one-character prefixes: both have length one, and the comparator does not
  order them. Two sorting functions that both meet the contract of \<open>std::sort\<close> give the same user
  different permissions on the same key.\<close>

theorem acl_star_tie:
  "\<exists>srt srt'. sort_spec srt \<and> sort_spec srt' \<and>
     check_permission (run_acl srt cm_init [(7, bs ''*'', READ), (7, bs ''a'', WRITE)]) 7 (bs ''abc'') \<noteq>
     check_permission (run_acl srt' cm_init [(7, bs ''*'', READ), (7, bs ''a'', WRITE)]) 7 (bs ''abc'')"
  by (intro exI [of _ sort_by_length] exI [of _ sort_by_length_rev])
     (simp add: sort_by_length_spec sort_by_length_rev_spec run_acl_def set_acl_def sort_by_length_def
      sort_by_length_rev_def check_permission_def rule_applies_def INTERNAL_UID_def ADMIN_UID_def
      cm_init_def READ_def WRITE_def bs_def byte_of_char_def)

text \<open>Every key of the index belongs to a registered user.\<close>

definition user_inv :: "credential_manager \<Rightarrow> bool" where
  "user_inv cm \<longleftrightarrow> (\<forall>k uid. key_to_uid cm k = Some uid \<longrightarrow> users cm uid \<noteq> None)"

lemma user_inv_init [simp]: "user_inv cm_init"
  by (simp add: user_inv_def cm_init_def)

lemma user_inv_set_acl [simp]: "user_inv (set_acl srt cm uid pfx perm) = user_inv cm"
  by (simp add: user_inv_def set_acl_def Let_def)

text \<open>\<open>register_user\<close> and \<open>get_user_by_key\<close> fit together: registration keeps the key index consistent,
  so that looking a key up never throws; it makes exactly the new key resolve to the new identity, and
  a refused registration (the uid exists) changes no lookup.\<close>

theorem register_then_lookup:
  assumes "user_inv cm"
  shows "user_inv (snd (register_user cm uid name pk)) \<and>
    get_user_by_key cm k \<noteq> None \<and>
    get_user_by_key (snd (register_user cm uid name pk)) k =
      (if fst (register_user cm uid name pk) \<and> k = pk \<and> pk \<noteq> []
       then Some (Some \<lparr>u_uid = uid, u_name = name, u_public_key = pk\<rparr>)
       else get_user_by_key cm k)"
proof -
  have reg: "key_to_uid cm k = Some u \<Longrightarrow> users cm u \<noteq> None" for k u
    using assms by (simp add: user_inv_def)
  have "user_inv (snd (register_user cm uid name pk))"
    using assms by (auto simp: register_user_def user_inv_def)
  moreover have "get_user_by_key cm k \<noteq> None"
    using reg by (force simp: get_user_by_key_def split: option.splits)
  moreover have "get_user_by_key (snd (register_user cm uid name pk)) k =
      (if fst (register_user cm uid name pk) \<and> k = pk \<and> pk \<noteq> []
       then Some (Some \<lparr>u_uid = uid, u_name = name, u_public_key = pk\<rparr>)
       else get_user_by_key cm k)"
    using reg [of k uid] by (cases "users cm uid") (auto simp: register_user_def get_user_by_key_def split: option.split)
  ultimately show ?thesis
    by blast
qed

theorem register_then_lookup_witness:
  "get_user_by_key (snd (register_user cm_init 5 (bs ''ann'') (bs ''pk''))) (bs ''pk'') =
     Some (Some \<lparr>u_uid = 5, u_name = bs ''ann'', u_public_key = bs ''pk''\<rparr>)"
  using register_then_lookup [of cm_init 5 "bs ''ann''" "bs ''pk''" "bs ''pk''"]
  by (simp add: register_user_def cm_init_def user_inv_def)

end
