(* ===== verification/Merkle.thy ===== *)
theory Merkle
  imports L3_Prelude
begin

text \<open>
  The hash tree over the key space: \<open>MerkleTree\<close> (engine/merkle.hpp). Vectors are functions of the
  index with their sizes written out where an index comes from outside. The 64-bit hash is third-party
  code (XXH3) and the argument \<open>h\<close> of every definition; \<open>fnv1a_64\<close> is the source's name for it. A node is the
  hash of the 128-byte memory image of its sixteen children (little-endian words).
\<close>

unbundle bit_operations_syntax

type_synonym hash64 = "bytes \<Rightarrow> u64"

subsection \<open>The tree\<close>

record merkle =
  leaves :: "nat \<Rightarrow> u64"
  l3 :: "nat \<Rightarrow> u64"
  l3_dirty :: "nat \<Rightarrow> bool"
  l2 :: "nat \<Rightarrow> u64"
  l2_dirty :: "nat \<Rightarrow> bool"
  l1 :: "nat \<Rightarrow> u64"
  l1_dirty :: "nat \<Rightarrow> bool"
  l0 :: u64
  l0_dirty :: bool

definition L4_SIZE :: nat where "L4_SIZE = 65536"
definition L3_SIZE :: nat where "L3_SIZE = 4096"
definition SHARD_COUNT :: nat where "SHARD_COUNT = 256"

definition fnv1a_64 :: "hash64 \<Rightarrow> bytes \<Rightarrow> u64" where
  "fnv1a_64 h s = h s"

text \<open>The hash of the children \<open>16 i, ..., 16 i + 15\<close>.\<close>

definition hash_block :: "hash64 \<Rightarrow> (nat \<Rightarrow> u64) \<Rightarrow> nat \<Rightarrow> u64" where
  "hash_block h child i = fnv1a_64 h (concat (map (\<lambda>k. enc_u64 (child (i * 16 + k))) [0..<16]))"

definition merkle_init :: "hash64 \<Rightarrow> merkle" where
  "merkle_init h =
     (let h_l3 = hash_block h (\<lambda>_. 0) 0;
          h_l2 = hash_block h (\<lambda>_. h_l3) 0;
          h_l1 = hash_block h (\<lambda>_. h_l2) 0;
          h_l0 = hash_block h (\<lambda>_. h_l1) 0
      in \<lparr>leaves = (\<lambda>_. 0), l3 = (\<lambda>_. h_l3), l3_dirty = (\<lambda>_. False), l2 = (\<lambda>_. h_l2),
          l2_dirty = (\<lambda>_. False), l1 = (\<lambda>_. h_l1), l1_dirty = (\<lambda>_. False), l0 = h_l0, l0_dirty = False\<rparr>)"

definition bucket_of :: "hash64 \<Rightarrow> bytes \<Rightarrow> nat" where
  "bucket_of h key = unat (drop_bit 48 (fnv1a_64 h key) AND 0xFFFF)"

definition apply_delta :: "hash64 \<Rightarrow> merkle \<Rightarrow> bytes \<Rightarrow> u64 \<Rightarrow> merkle" where
  "apply_delta h m key hash_delta =
     (let b = bucket_of h key
      in m\<lparr>leaves := (leaves m)(b := leaves m b XOR hash_delta),
           l3_dirty := (l3_dirty m)(b div 16 := True)\<rparr>)"

subsection \<open>Recomputation\<close>

text \<open>One iteration of each of the four loops of \<open>recompute_dirty\<close>.\<close>

definition rehash_l3 :: "hash64 \<Rightarrow> nat \<Rightarrow> merkle \<Rightarrow> merkle" where
  "rehash_l3 h i m =
     (if l3_dirty m i
      then m\<lparr>l3 := (l3 m)(i := hash_block h (leaves m) i), l3_dirty := (l3_dirty m)(i := False),
             l2_dirty := (l2_dirty m)(i div 16 := True)\<rparr>
      else m)"

definition rehash_l2 :: "hash64 \<Rightarrow> nat \<Rightarrow> merkle \<Rightarrow> merkle" where
  "rehash_l2 h i m =
     (if l2_dirty m i
      then m\<lparr>l2 := (l2 m)(i := hash_block h (l3 m) i), l2_dirty := (l2_dirty m)(i := False),
             l1_dirty := (l1_dirty m)(i div 16 := True)\<rparr>
      else m)"

definition rehash_l1 :: "hash64 \<Rightarrow> nat \<Rightarrow> merkle \<Rightarrow> merkle" where
  "rehash_l1 h i m =
     (if l1_dirty m i
      then m\<lparr>l1 := (l1 m)(i := hash_block h (l2 m) i), l1_dirty := (l1_dirty m)(i := False),
             l0_dirty := True\<rparr>
      else m)"

definition rehash_l0 :: "hash64 \<Rightarrow> merkle \<Rightarrow> merkle" where
  "rehash_l0 h m =
     (if l0_dirty m then m\<lparr>l0 := hash_block h (l1 m) 0, l0_dirty := False\<rparr> else m)"

definition recompute_dirty :: "hash64 \<Rightarrow> merkle \<Rightarrow> merkle" where
  "recompute_dirty h m =
     (let m = fold (\<lambda>s. fold (\<lambda>i. rehash_l3 h (s * 16 + i)) [0..<16]) [0..<SHARD_COUNT] m;
          m = fold (rehash_l2 h) [0..<256] m;
          m = fold (rehash_l1 h) [0..<16] m
      in rehash_l0 h m)"

definition get_root_hash :: "hash64 \<Rightarrow> merkle \<Rightarrow> u64 \<times> merkle" where
  "get_root_hash h m = (let m = recompute_dirty h m in (l0 m, m))"

text \<open>\<open>None\<close> is a read beyond the end of a vector.\<close>

definition get_node_hash :: "merkle \<Rightarrow> int \<Rightarrow> nat \<Rightarrow> u64 option" where
  "get_node_hash m level index =
     (if level = 0 then Some (l0 m)
      else if level = 1 then (if index < 16 then Some (l1 m index) else None)
      else if level = 2 then (if index < 256 then Some (l2 m index) else None)
      else if level = 3 then (if index < L3_SIZE then Some (l3 m index) else None)
      else if level = 4 then (if index < L4_SIZE then Some (leaves m index) else None)
      else Some 0)"

subsection \<open>The reference tree\<close>

text \<open>The node at a given height over the leaves, computed from scratch; the root has height 4.\<close>

primrec ref_node :: "hash64 \<Rightarrow> (nat \<Rightarrow> u64) \<Rightarrow> nat \<Rightarrow> nat \<Rightarrow> u64" where
  "ref_node h lv 0 = lv"
| "ref_node h lv (Suc n) = hash_block h (ref_node h lv n)"

definition ref_root :: "hash64 \<Rightarrow> (nat \<Rightarrow> u64) \<Rightarrow> u64" where
  "ref_root h lv = ref_node h lv 4 0"

lemma hash_block_cong:
  "(\<And>k. k < 16 \<Longrightarrow> f (i * 16 + k) = g (i * 16 + k)) \<Longrightarrow> hash_block h f i = hash_block h g i"
  unfolding hash_block_def by (intro arg_cong [of _ _ "fnv1a_64 h"] arg_cong [of _ _ concat] map_cong) auto

lemma hash_block_const: "hash_block h (\<lambda>_. c) i = hash_block h (\<lambda>_. c) j"
  by (simp add: hash_block_def)

lemma bucket_of_less: "bucket_of h key < L4_SIZE"
proof -
  have "bucket_of h key = unat (take_bit 16 (drop_bit 48 (fnv1a_64 h key)))"
    by (simp add: bucket_of_def take_bit_eq_mask mask_eq_exp_minus_1)
  also have "\<dots> < 2 ^ 16"
    unfolding unsigned_take_bit_eq by (rule take_bit_nat_less_exp)
  finally show ?thesis
    by (simp add: L4_SIZE_def)
qed

subsection \<open>Levels\<close>

text \<open>A level is consistent when every node that is not marked is the hash of its children.\<close>

definition level_ok :: "hash64 \<Rightarrow> nat \<Rightarrow> (nat \<Rightarrow> u64) \<Rightarrow> (nat \<Rightarrow> u64) \<Rightarrow> (nat \<Rightarrow> bool) \<Rightarrow> bool" where
  "level_ok h n child node dirty \<longleftrightarrow> (\<forall>i < n. \<not> dirty i \<longrightarrow> node i = hash_block h child i)"

lemma level_ok_change:
  assumes "level_ok h n child node dirty"
  shows "level_ok h n (child(c := v)) node (dirty(c div 16 := True))"
  unfolding level_ok_def
proof (intro allI impI)
  fix i assume "i < n" and "\<not> (dirty(c div 16 := True)) i"
  then have i: "i \<noteq> c div 16" "node i = hash_block h child i"
    using assms by (auto simp: level_ok_def split: if_splits)
  have "hash_block h child i = hash_block h (child(c := v)) i"
    using i(1) by (intro hash_block_cong) auto
  with i(2) show "node i = hash_block h (child(c := v)) i"
    by simp
qed

lemma level_ok_rehash:
  "level_ok h n child node dirty \<Longrightarrow>
   level_ok h n child (node(i := hash_block h child i)) (dirty(i := False))"
  by (auto simp: level_ok_def)

lemma level_ok_mark: "level_ok h n child node dirty \<Longrightarrow> level_ok h n child node (dirty(i := True))"
  by (auto simp: level_ok_def)

definition merkle_inv :: "hash64 \<Rightarrow> merkle \<Rightarrow> bool" where
  "merkle_inv h m \<longleftrightarrow>
     level_ok h L3_SIZE (leaves m) (l3 m) (l3_dirty m) \<and>
     level_ok h 256 (l3 m) (l2 m) (l2_dirty m) \<and>
     level_ok h 16 (l2 m) (l1 m) (l1_dirty m) \<and>
     level_ok h 1 (l1 m) (\<lambda>_. l0 m) (\<lambda>_. l0_dirty m)"

lemma merkle_inv_init: "merkle_inv h (merkle_init h)"
  by (auto simp: merkle_inv_def level_ok_def merkle_init_def Let_def intro: hash_block_const)

lemma merkle_inv_delta: "merkle_inv h m \<Longrightarrow> merkle_inv h (apply_delta h m key d)"
  by (simp add: merkle_inv_def apply_delta_def Let_def level_ok_change)

lemma merkle_inv_l3: "merkle_inv h m \<Longrightarrow> merkle_inv h (rehash_l3 h i m)"
  by (simp add: merkle_inv_def rehash_l3_def level_ok_rehash level_ok_change)

lemma merkle_inv_l2: "merkle_inv h m \<Longrightarrow> merkle_inv h (rehash_l2 h i m)"
  by (simp add: merkle_inv_def rehash_l2_def level_ok_rehash level_ok_change)

lemma merkle_inv_l1: "merkle_inv h m \<Longrightarrow> merkle_inv h (rehash_l1 h i m)"
  by (simp add: merkle_inv_def rehash_l1_def level_ok_rehash) (simp add: level_ok_def)

lemma merkle_inv_l0: "merkle_inv h m \<Longrightarrow> merkle_inv h (rehash_l0 h m)"
  by (simp add: merkle_inv_def rehash_l0_def) (simp add: level_ok_def)

lemmas merkle_inv_steps = merkle_inv_delta merkle_inv_l3 merkle_inv_l2 merkle_inv_l1 merkle_inv_l0

subsection \<open>Recomputing clears every mark\<close>

lemma fold_blocks: "fold (\<lambda>s. fold (\<lambda>i. f (s * 16 + i)) [0..<16]) [0..<n] m = fold f [0..<n * 16] m"
proof (induction n)
  case (Suc n)
  have "map (\<lambda>i. n * 16 + i) [0..<16] = [n * 16..<Suc n * 16]"
    using map_add_upt [of "n * 16" 16] by (simp add: add.commute)
  moreover have "fold (\<lambda>i. f (n * 16 + i)) [0..<16] = fold f (map (\<lambda>i. n * 16 + i) [0..<16])"
    by (simp add: fold_map comp_def)
  moreover have "[0..<Suc n * 16] = [0..<n * 16] @ [n * 16..<Suc n * 16]"
    using upt_add_eq_append [of 0 "n * 16" 16] by (simp add: add.commute)
  ultimately show ?case
    using Suc by simp
qed simp

lemma fold_keeps: "(\<And>i m. P m \<Longrightarrow> P (f i m)) \<Longrightarrow> P m \<Longrightarrow> P (fold f xs m)"
  by (induction xs arbitrary: m) auto

lemma fold_same: "(\<And>i m. g (f i m) = g m) \<Longrightarrow> g (fold f xs m) = g m"
  by (induction xs arbitrary: m) auto

lemma rehash_frame [simp]:
  "leaves (rehash_l3 h i m) = leaves m" "leaves (rehash_l2 h i m) = leaves m"
  "leaves (rehash_l1 h i m) = leaves m" "leaves (rehash_l0 h m) = leaves m"
  "l3_dirty (rehash_l2 h i m) = l3_dirty m" "l3_dirty (rehash_l1 h i m) = l3_dirty m"
  "l3_dirty (rehash_l0 h m) = l3_dirty m"
  "l2_dirty (rehash_l1 h i m) = l2_dirty m" "l2_dirty (rehash_l0 h m) = l2_dirty m"
  "l1_dirty (rehash_l0 h m) = l1_dirty m"
  "l3_dirty (rehash_l3 h i m) = (l3_dirty m)(i := False)"
  "l2_dirty (rehash_l2 h i m) = (l2_dirty m)(i := False)"
  "l1_dirty (rehash_l1 h i m) = (l1_dirty m)(i := False)"
  "\<not> l0_dirty (rehash_l0 h m)"
  by (auto simp: rehash_l3_def rehash_l2_def rehash_l1_def rehash_l0_def fun_eq_iff)

lemma cleared_l3: "l3_dirty (fold (rehash_l3 h) xs m) i \<longleftrightarrow> i \<notin> set xs \<and> l3_dirty m i"
  by (induction xs arbitrary: m) auto

lemma cleared_l2: "l2_dirty (fold (rehash_l2 h) xs m) i \<longleftrightarrow> i \<notin> set xs \<and> l2_dirty m i"
  by (induction xs arbitrary: m) auto

lemma cleared_l1: "l1_dirty (fold (rehash_l1 h) xs m) i \<longleftrightarrow> i \<notin> set xs \<and> l1_dirty m i"
  by (induction xs arbitrary: m) auto

lemma recompute_folds:
  "recompute_dirty h m =
     rehash_l0 h (fold (rehash_l1 h) [0..<16] (fold (rehash_l2 h) [0..<256] (fold (rehash_l3 h) [0..<L3_SIZE] m)))"
  by (simp add: recompute_dirty_def fold_blocks SHARD_COUNT_def L3_SIZE_def)

lemma recompute_inv: "merkle_inv h m \<Longrightarrow> merkle_inv h (recompute_dirty h m)"
  unfolding recompute_folds by (intro merkle_inv_l0 fold_keeps [where P = "merkle_inv h"] merkle_inv_steps)

lemma recompute_leaves: "leaves (recompute_dirty h m) = leaves m"
  by (simp add: recompute_folds fold_same [where g = leaves])

lemma recompute_clean:
  "i < L3_SIZE \<Longrightarrow> \<not> l3_dirty (recompute_dirty h m) i"
  "i < 256 \<Longrightarrow> \<not> l2_dirty (recompute_dirty h m) i"
  "i < 16 \<Longrightarrow> \<not> l1_dirty (recompute_dirty h m) i"
  "\<not> l0_dirty (recompute_dirty h m)"
  by (simp_all add: recompute_folds fold_same [where g = l3_dirty] fold_same [where g = l2_dirty]
      cleared_l3 cleared_l2 cleared_l1)

subsection \<open>Interleaved updates\<close>

text \<open>
  \<open>apply_delta\<close> holds only its shard lock, so updates run between the iterations of a recomputation
  in another thread. Every iteration is one step; the steps of any number of threads interleave freely.
\<close>

inductive merkle_step :: "hash64 \<Rightarrow> merkle \<Rightarrow> merkle \<Rightarrow> bool" for h where
  Delta: "merkle_step h m (apply_delta h m key d)"
| L3: "i < L3_SIZE \<Longrightarrow> merkle_step h m (rehash_l3 h i m)"
| L2: "i < 256 \<Longrightarrow> merkle_step h m (rehash_l2 h i m)"
| L1: "i < 16 \<Longrightarrow> merkle_step h m (rehash_l1 h i m)"
| L0: "merkle_step h m (rehash_l0 h m)"

inductive merkle_reachable :: "hash64 \<Rightarrow> merkle \<Rightarrow> bool" for h where
  Start: "merkle_reachable h (merkle_init h)"
| Step: "merkle_reachable h m \<Longrightarrow> merkle_step h m m' \<Longrightarrow> merkle_reachable h m'"

inductive_cases merkle_stepE: "merkle_step h m m'"

lemma merkle_step_inv: "merkle_step h m m' \<Longrightarrow> merkle_inv h m \<Longrightarrow> merkle_inv h m'"
  by (auto elim!: merkle_stepE intro: merkle_inv_steps)

lemma merkle_reachable_inv: "merkle_reachable h m \<Longrightarrow> merkle_inv h m"
  by (induction rule: merkle_reachable.induct) (auto intro: merkle_inv_init merkle_step_inv)

text \<open>A clean, consistent tree is the reference tree.\<close>

lemma clean_nodes:
  assumes "merkle_inv h m" and "\<And>i. i < L3_SIZE \<Longrightarrow> \<not> l3_dirty m i" and "\<And>i. i < 256 \<Longrightarrow> \<not> l2_dirty m i"
    and "\<And>i. i < 16 \<Longrightarrow> \<not> l1_dirty m i" and "\<not> l0_dirty m"
  shows "i < L3_SIZE \<Longrightarrow> l3 m i = ref_node h (leaves m) 1 i"
    and "i < 256 \<Longrightarrow> l2 m i = ref_node h (leaves m) 2 i"
    and "i < 16 \<Longrightarrow> l1 m i = ref_node h (leaves m) 3 i"
    and "l0 m = ref_root h (leaves m)"
proof -
  have n1: "l3 m i = ref_node h (leaves m) 1 i" if "i < L3_SIZE" for i
    using assms(1,2) that by (auto simp: merkle_inv_def level_ok_def)
  have n2: "l2 m i = ref_node h (leaves m) 2 i" if "i < 256" for i
  proof -
    have "hash_block h (l3 m) i = hash_block h (ref_node h (leaves m) 1) i"
      using that by (intro hash_block_cong n1) (simp add: L3_SIZE_def)
    with assms(1,3) that show ?thesis
      by (auto simp: merkle_inv_def level_ok_def numeral_2_eq_2)
  qed
  have n3: "l1 m i = ref_node h (leaves m) 3 i" if "i < 16" for i
  proof -
    have "hash_block h (l2 m) i = hash_block h (ref_node h (leaves m) 2) i"
      using that by (intro hash_block_cong n2) simp
    with assms(1,4) that show ?thesis
      by (auto simp: merkle_inv_def level_ok_def numeral_3_eq_3 numeral_2_eq_2)
  qed
  have "hash_block h (l1 m) 0 = hash_block h (ref_node h (leaves m) 3) 0"
    by (intro hash_block_cong n3) simp
  then have n4: "l0 m = ref_root h (leaves m)"
    using assms(1,5) by (simp add: merkle_inv_def level_ok_def ref_root_def eval_nat_numeral)
  show "i < L3_SIZE \<Longrightarrow> l3 m i = ref_node h (leaves m) 1 i"
    and "i < 256 \<Longrightarrow> l2 m i = ref_node h (leaves m) 2 i"
    and "i < 16 \<Longrightarrow> l1 m i = ref_node h (leaves m) 3 i"
    and "l0 m = ref_root h (leaves m)"
    using n1 n2 n3 n4 by auto
qed

lemma recompute_reference:
  assumes "merkle_inv h m"
  shows "i < L3_SIZE \<Longrightarrow> l3 (recompute_dirty h m) i = ref_node h (leaves m) 1 i"
    and "i < 256 \<Longrightarrow> l2 (recompute_dirty h m) i = ref_node h (leaves m) 2 i"
    and "i < 16 \<Longrightarrow> l1 (recompute_dirty h m) i = ref_node h (leaves m) 3 i"
    and "l0 (recompute_dirty h m) = ref_root h (leaves m)"
  using clean_nodes [OF recompute_inv [OF assms] recompute_clean] by (simp_all add: recompute_leaves)

definition level_size :: "nat \<Rightarrow> nat" where
  "level_size level = 16 ^ level"

lemma node_after_recompute:
  assumes "merkle_inv h m" and "level \<le> 4" and "i < level_size level"
  shows "get_node_hash (recompute_dirty h m) (int level) i = Some (ref_node h (leaves m) (4 - level) i)"
proof -
  consider "level = 0" | "level = 1" | "level = 2" | "level = 3" | "level = 4"
    using assms(2) by linarith
  then show ?thesis
    using recompute_reference [OF assms(1)] assms(3)
    by cases (simp_all add: get_node_hash_def level_size_def recompute_leaves ref_root_def L3_SIZE_def L4_SIZE_def)
qed

text \<open>C17. The lazily maintained tree is the hash tree of its leaves: after any interleaving of updates and
  of steps of recomputations, \<open>get_root_hash\<close> returns the root computed from scratch over the current
  leaves, leaves them alone, and makes \<open>get_node_hash\<close> return the reference node at every level and index.\<close>

theorem merkle_lazy_correct:
  assumes "merkle_reachable h m"
  shows "fst (get_root_hash h m) = ref_root h (leaves m) \<and>
    leaves (snd (get_root_hash h m)) = leaves m \<and>
    (\<forall>level \<le> 4. \<forall>i < level_size level.
       get_node_hash (snd (get_root_hash h m)) (int level) i = Some (ref_node h (leaves m) (4 - level) i))"
  using merkle_reachable_inv [OF assms] recompute_reference(4) [of h m] node_after_recompute [of h m]
  by (auto simp: get_root_hash_def Let_def recompute_leaves)

theorem merkle_lazy_correct_witness:
  "fst (get_root_hash (\<lambda>b. word_of_nat (length b)) (apply_delta (\<lambda>b. word_of_nat (length b)) (merkle_init (\<lambda>b. word_of_nat (length b))) (bs ''k'') 7))
   = ref_root (\<lambda>b. word_of_nat (length b)) (leaves (apply_delta (\<lambda>b. word_of_nat (length b)) (merkle_init (\<lambda>b. word_of_nat (length b))) (bs ''k'') 7))"
  using merkle_lazy_correct [OF merkle_reachable.Step [OF merkle_reachable.Start merkle_step.Delta]] by blast

subsection \<open>Finding a difference\<close>

lemma hash_block_differs:
  "hash_block h f i \<noteq> hash_block h g i \<Longrightarrow> \<exists>k < 16. f (i * 16 + k) \<noteq> g (i * 16 + k)"
  using hash_block_cong by metis

lemma descend_one:
  assumes "ref_node h f (Suc n) i \<noteq> ref_node h g (Suc n) i"
  shows "\<exists>j. j div 16 = i \<and> ref_node h f n j \<noteq> ref_node h g n j"
proof -
  obtain k where "k < 16" "ref_node h f n (i * 16 + k) \<noteq> ref_node h g n (i * 16 + k)"
    using hash_block_differs assms by (metis ref_node.simps(2))
  moreover from this have "(i * 16 + k) div 16 = i"
    by simp
  ultimately show ?thesis
    by metis
qed

lemma descend:
  "ref_node h f n i \<noteq> ref_node h g n i \<Longrightarrow>
   \<exists>j. j div 16 ^ n = i \<and> (\<forall>k \<le> n. ref_node h f k (j div 16 ^ k) \<noteq> ref_node h g k (j div 16 ^ k))"
proof (induction n arbitrary: i)
  case (Suc n)
  obtain j' where j': "j' div 16 = i" "ref_node h f n j' \<noteq> ref_node h g n j'"
    using descend_one [OF Suc(2)] by blast
  obtain j where j: "j div 16 ^ n = j'"
      "\<forall>k \<le> n. ref_node h f k (j div 16 ^ k) \<noteq> ref_node h g k (j div 16 ^ k)"
    using Suc.IH [OF j'(2)] by blast
  have "j div 16 ^ Suc n = i"
    using j(1) j'(1) div_mult2_eq [of j "16 ^ n" 16] by (simp add: mult.commute)
  moreover from this Suc(2) j(2)
  have "\<forall>k \<le> Suc n. ref_node h f k (j div 16 ^ k) \<noteq> ref_node h g k (j div 16 ^ k)"
    by (metis le_Suc_eq)
  ultimately show ?case
    by blast
qed auto

text \<open>C28. Descending into children whose hashes differ always arrives at a differing leaf: if the roots of
  two trees differ, there is a bucket whose leaves differ and on whose path from the root every pair
  of nodes differs.\<close>

theorem merkle_drill_down:
  assumes "merkle_reachable h m" and "merkle_reachable h m'"
    and "fst (get_root_hash h m) \<noteq> fst (get_root_hash h m')"
  shows "\<exists>b < L4_SIZE. leaves m b \<noteq> leaves m' b \<and>
    (\<forall>level \<le> 4. get_node_hash (snd (get_root_hash h m)) (int level) (b div 16 ^ (4 - level)) \<noteq>
                 get_node_hash (snd (get_root_hash h m')) (int level) (b div 16 ^ (4 - level)))"
proof -
  note inv = merkle_reachable_inv [OF assms(1)] merkle_reachable_inv [OF assms(2)]
  have "ref_node h (leaves m) 4 0 \<noteq> ref_node h (leaves m') 4 0"
    using assms(3) recompute_reference(4) [OF inv(1)] recompute_reference(4) [OF inv(2)]
    by (simp add: get_root_hash_def Let_def ref_root_def)
  from descend [OF this] obtain b where b: "b div 16 ^ 4 = 0"
      "\<And>k. k \<le> 4 \<Longrightarrow> ref_node h (leaves m) k (b div 16 ^ k) \<noteq> ref_node h (leaves m') k (b div 16 ^ k)"
    by blast
  have lt: "b < 16 ^ 4"
    using b(1) by (simp add: div_eq_0_iff)
  have "b div 16 ^ (4 - level) < level_size level" if "level \<le> 4" for level
    using lt that by (simp add: level_size_def less_mult_imp_div_less flip: power_add)
  then show ?thesis
    using b(2) [of 0] b(2) lt inv
    by (intro exI [of _ b]) (auto simp: L4_SIZE_def get_root_hash_def Let_def node_after_recompute)
qed

text \<open>A concrete hash for the examples: the sum of the bytes.\<close>

definition byte_sum :: hash64 where
  "byte_sum b = foldl (\<lambda>a x. a + ucast x) 0 b"

lemma byte_sum_block_zero: "hash_block byte_sum (\<lambda>_. 0) = (\<lambda>_. 0)"
  by (rule ext) (simp add: hash_block_def fnv1a_64_def byte_sum_def upt_conv_Cons enc_u64_def)

lemma byte_sum_block_one: "hash_block byte_sum ((\<lambda>_. 0)(0 := 1)) = (\<lambda>_. 0)(0 := 1)"
proof
  fix i
  show "hash_block byte_sum ((\<lambda>_. 0)(0 := 1)) i = ((\<lambda>_. 0)(0 := 1)) i"
  proof (cases "i = 0")
    case True
    then show ?thesis
      by (simp add: hash_block_def fnv1a_64_def byte_sum_def upt_conv_Cons enc_u64_def)
  next
    case False
    then have "hash_block byte_sum ((\<lambda>_. 0)(0 := 1)) i = hash_block byte_sum (\<lambda>_. 0) i"
      by (intro hash_block_cong) auto
    with False show ?thesis
      by (simp add: byte_sum_block_zero)
  qed
qed

lemma byte_sum_ref: "ref_node byte_sum ((\<lambda>_. 0)(0 := 1)) n = (\<lambda>_. 0)(0 := 1)"
  "ref_node byte_sum (\<lambda>_. 0) n = (\<lambda>_. 0)"
  by (induction n) (simp_all add: byte_sum_block_one byte_sum_block_zero)

theorem merkle_drill_down_witness:
  "\<exists>b < L4_SIZE. leaves (merkle_init byte_sum) b \<noteq> leaves (apply_delta byte_sum (merkle_init byte_sum) (bs ''k'') 1) b"
proof -
  let ?m = "merkle_init byte_sum" and ?m' = "apply_delta byte_sum (merkle_init byte_sum) (bs ''k'') 1"
  have r: "merkle_reachable byte_sum ?m" "merkle_reachable byte_sum ?m'"
    by (auto intro: merkle_reachable.intros merkle_step.Delta)
  have "leaves ?m = (\<lambda>_. 0)"
    by (simp add: merkle_init_def Let_def)
  moreover have "bucket_of byte_sum (bs ''k'') = 0"
    by (simp add: bucket_of_def fnv1a_64_def byte_sum_def bs_def byte_of_char_def)
  ultimately have "leaves ?m' = (\<lambda>_. 0)(0 := 1)"
    by (simp add: apply_delta_def Let_def)
  with \<open>leaves ?m = (\<lambda>_. 0)\<close> have "fst (get_root_hash byte_sum ?m) \<noteq> fst (get_root_hash byte_sum ?m')"
    using recompute_reference(4) [OF merkle_reachable_inv [OF r(1)]] recompute_reference(4) [OF merkle_reachable_inv [OF r(2)]]
    by (simp add: get_root_hash_def Let_def ref_root_def byte_sum_ref)
  from merkle_drill_down [OF r this] show ?thesis
    by blast
qed

end
