(* ===== verification/Replication_Log.thy ===== *)
theory Replication_Log
  imports Hlc_Clock "HOL-Library.Sublist"
begin

text \<open>
  The bounded queue of changes to replicate: \<open>Mutation\<close> and \<open>ReplicationLog\<close>
  (engine/replication_log.hpp). \<open>append\<close> answers \<open>None\<close> where the source pops the front of an empty
  deque.
\<close>

record mutation =
  m_timestamp :: timestamp
  m_key :: bytes
  m_value :: bytes
  m_is_delete :: bool

record replication_log =
  rl_queue :: "mutation list"
  rl_max_size :: nat

definition rl_init :: "nat \<Rightarrow> replication_log" where
  "rl_init max_size = \<lparr>rl_queue = [], rl_max_size = max_size\<rparr>"

definition rl_append :: "replication_log \<Rightarrow> mutation \<Rightarrow> replication_log option" where
  "rl_append r m =
     (if length (rl_queue r) \<ge> rl_max_size r
      then (case rl_queue r of [] \<Rightarrow> None | x # q \<Rightarrow> Some (r\<lparr>rl_queue := q @ [m]\<rparr>))
      else Some (r\<lparr>rl_queue := rl_queue r @ [m]\<rparr>))"

fun pop_loop :: "nat \<Rightarrow> mutation list \<Rightarrow> mutation list \<Rightarrow> mutation list \<times> mutation list" where
  "pop_loop limit batch [] = (batch, [])"
| "pop_loop limit batch (m # q) =
     (if length batch < limit then pop_loop limit (batch @ [m]) q else (batch, m # q))"

definition pop_batch :: "replication_log \<Rightarrow> nat \<Rightarrow> mutation list \<times> replication_log" where
  "pop_batch r limit = (let (batch, q) = pop_loop limit [] (rl_queue r) in (batch, r\<lparr>rl_queue := q\<rparr>))"

definition rl_size :: "replication_log \<Rightarrow> nat" where
  "rl_size r = length (rl_queue r)"

definition rl_empty :: "replication_log \<Rightarrow> bool" where
  "rl_empty r \<longleftrightarrow> rl_queue r = []"

subsection \<open>Behaviour\<close>

lemma pop_loop_take: "pop_loop limit batch q = (batch @ take (limit - length batch) q, drop (limit - length batch) q)"
proof (induction limit batch q rule: pop_loop.induct)
  case (2 limit batch m q)
  show ?case
  proof (cases "length batch < limit")
    case True
    then have "limit - length batch = Suc (limit - Suc (length batch))"
      by simp
    with True 2 show ?thesis
      by simp
  qed simp
qed simp

lemma pop_batch_take:
  "pop_batch r limit = (take limit (rl_queue r), r\<lparr>rl_queue := drop limit (rl_queue r)\<rparr>)"
  by (simp add: pop_batch_def pop_loop_take)

text \<open>The calls on one log, in the order its mutex gives them.\<close>

datatype rl_call = Append mutation | Pop nat

fun rl_run :: "replication_log \<Rightarrow> rl_call list \<Rightarrow> (mutation list \<times> replication_log) option" where
  "rl_run r [] = Some ([], r)"
| "rl_run r (Append m # cs) = (case rl_append r m of None \<Rightarrow> None | Some r' \<Rightarrow> rl_run r' cs)"
| "rl_run r (Pop n # cs) =
     (let (b, r') = pop_batch r n
      in map_option (\<lambda>(out, r''). (b @ out, r'')) (rl_run r' cs))"

fun appended :: "rl_call list \<Rightarrow> mutation list" where
  "appended [] = []"
| "appended (Append m # cs) = m # appended cs"
| "appended (Pop n # cs) = appended cs"

text \<open>The queue is bounded and the delivered changes are a subsequence in order.\<close>

lemma rl_append_some:
  assumes "0 < rl_max_size r" and "length (rl_queue r) \<le> rl_max_size r"
  shows "rl_append r m = Some (r\<lparr>rl_queue :=
    drop (Suc (length (rl_queue r)) - rl_max_size r) (rl_queue r) @ [m]\<rparr>)"
  using assms by (cases "rl_queue r") (auto simp: rl_append_def)

lemma rl_run_fifo:
  "0 < rl_max_size r \<Longrightarrow> length (rl_queue r) \<le> rl_max_size r \<Longrightarrow>
   \<exists>out r'. rl_run r cs = Some (out, r') \<and> length (rl_queue r') \<le> rl_max_size r \<and>
     subseq (out @ rl_queue r') (rl_queue r @ appended cs)"
proof (induction r cs rule: rl_run.induct)
  case (2 r m cs)
  let ?r = "r\<lparr>rl_queue := drop (Suc (length (rl_queue r)) - rl_max_size r) (rl_queue r) @ [m]\<rparr>"
  have a: "rl_append r m = Some ?r"
    using 2(2,3) by (rule rl_append_some)
  have "0 < rl_max_size ?r" "length (rl_queue ?r) \<le> rl_max_size ?r"
    using 2(2,3) by auto
  from 2(1) [OF a this] obtain out r' where r': "rl_run ?r cs = Some (out, r')"
      "length (rl_queue r') \<le> rl_max_size r" "subseq (out @ rl_queue r') (rl_queue ?r @ appended cs)"
    by auto
  have "subseq (rl_queue ?r @ appended cs) (rl_queue r @ m # appended cs)"
    using suffix_drop [of "Suc (length (rl_queue r)) - rl_max_size r" "rl_queue r"]
    by (auto intro!: list_emb_append_mono suffix_imp_subseq)
  with r'(3) have "subseq (out @ rl_queue r') (rl_queue r @ m # appended cs)"
    by (rule subseq_order.trans)
  with a r' show ?case
    by simp
next
  case (3 r n cs)
  let ?r = "r\<lparr>rl_queue := drop n (rl_queue r)\<rparr>"
  have "0 < rl_max_size ?r" "length (rl_queue ?r) \<le> rl_max_size ?r"
    using 3(2,3) by auto
  from 3(1) [OF _ _ this] pop_batch_take obtain out r' where r': "rl_run ?r cs = Some (out, r')"
      "length (rl_queue r') \<le> rl_max_size r" "subseq (out @ rl_queue r') (drop n (rl_queue r) @ appended cs)"
    by fastforce
  have "subseq (take n (rl_queue r) @ out @ rl_queue r') (take n (rl_queue r) @ drop n (rl_queue r) @ appended cs)"
    using r'(3) by (simp only: subseq_append')
  then have "subseq ((take n (rl_queue r) @ out) @ rl_queue r') (rl_queue r @ appended cs)"
    by (simp add: append_assoc [symmetric] del: append_assoc)
  with r' show ?case
    by (simp add: pop_batch_take)
qed auto

lemma rl_run_exact:
  "length (rl_queue r) + length (appended cs) \<le> rl_max_size r \<Longrightarrow>
   \<exists>out r'. rl_run r cs = Some (out, r') \<and> out @ rl_queue r' = rl_queue r @ appended cs"
proof (induction r cs rule: rl_run.induct)
  case (2 r m cs)
  then have a: "rl_append r m = Some (r\<lparr>rl_queue := rl_queue r @ [m]\<rparr>)"
    by (simp add: rl_append_def)
  from 2(1) [OF this] 2(2) a show ?case
    by auto
next
  case (3 r n cs)
  have "length (drop n (rl_queue r)) + length (appended cs) \<le> rl_max_size r"
    using 3(2) by simp
  with 3(1) [OF pop_batch_take [symmetric] refl] obtain out r' where
    "rl_run (r\<lparr>rl_queue := drop n (rl_queue r)\<rparr>) cs = Some (out, r')"
    "out @ rl_queue r' = drop n (rl_queue r) @ appended cs"
    by auto
  then show ?case
    by (simp add: pop_batch_take)
qed auto

text \<open>The replication log is a bounded FIFO queue: with a positive capacity, any sequence of appends and
  pops succeeds, never holds more than the capacity, and delivers changes in the order they were appended;
  nothing is lost as long as no more changes are appended than the capacity.\<close>

theorem replication_log_fifo:
  assumes "0 < max_size"
  shows "\<exists>out r. rl_run (rl_init max_size) cs = Some (out, r) \<and> rl_size r \<le> max_size \<and>
    subseq (out @ rl_queue r) (appended cs) \<and>
    (length (appended cs) \<le> max_size \<longrightarrow> out @ rl_queue r = appended cs)"
  using rl_run_fifo [of "rl_init max_size" cs] rl_run_exact [of "rl_init max_size" cs] assms
  by (auto simp: rl_init_def rl_size_def)

definition sample_mutation :: "int \<Rightarrow> mutation" where
  "sample_mutation t = \<lparr>m_timestamp = Timestamp t 0 1, m_key = bs ''k'', m_value = bs ''v'', m_is_delete = False\<rparr>"

theorem replication_log_fifo_witness:
  "\<exists>out r. rl_run (rl_init 2) [Append (sample_mutation 1), Pop 5, Append (sample_mutation 2)] = Some (out, r) \<and>
     out @ rl_queue r = [sample_mutation 1, sample_mutation 2]"
  using replication_log_fifo [of 2 "[Append (sample_mutation 1), Pop 5, Append (sample_mutation 2)]"] by auto

end
