(* ===== verification/Third_Party.thy ===== *)
theory Third_Party
  imports Credential_Manager Merkle
begin

text \<open>
  The libraries the engine calls and whose source is not part of the repository: XXH3, zstd and lite3-cpp,
  together with the one routine of the standard library whose result the standard leaves open
  (\<open>std::sort\<close> on rules of equal length). They are the fields of one record, which every definition
  that calls them takes as its first argument; a result \<open>None\<close> is an exception or an error code.
  (\<open>get_f64\<close> gives the double converted to \<open>int64_t\<close>, which is all the code does with it.)
  What the code relies on is stated as predicates on the record, each of which the concrete record \<open>demo\<close> satisfies.
\<close>

subsection \<open>The calls\<close>

datatype lite3_type = T_Int64 | T_Float64 | T_String | T_Bytes | T_Bool | T_Other

record ext =
  xxh3 :: hash64
  std_sort :: acl_sort
  zdict_train :: "nat \<Rightarrow> bytes list \<Rightarrow> bytes option"
  zstd_compress :: "bytes \<Rightarrow> bytes \<Rightarrow> bytes option"
  zstd_decompress :: "bytes \<Rightarrow> bytes \<Rightarrow> nat \<Rightarrow> bytes option"
  from_json_string :: "bytes \<Rightarrow> bytes option"
  init_object :: bytes
  set_i64 :: "bytes \<Rightarrow> bytes \<Rightarrow> int \<Rightarrow> bytes option"
  set_str :: "bytes \<Rightarrow> bytes \<Rightarrow> bytes \<Rightarrow> bytes option"
  set_bool :: "bytes \<Rightarrow> bytes \<Rightarrow> bool \<Rightarrow> bytes option"
  set_bytes :: "bytes \<Rightarrow> bytes \<Rightarrow> bytes \<Rightarrow> bytes option"
  get_type :: "bytes \<Rightarrow> bytes \<Rightarrow> lite3_type option"
  get_i64 :: "bytes \<Rightarrow> bytes \<Rightarrow> int option"
  get_f64 :: "bytes \<Rightarrow> bytes \<Rightarrow> int option"
  get_str :: "bytes \<Rightarrow> bytes \<Rightarrow> bytes option"
  get_bool :: "bytes \<Rightarrow> bytes \<Rightarrow> bool option"
  get_bytes :: "bytes \<Rightarrow> bytes \<Rightarrow> bytes option"
  object_keys :: "bytes \<Rightarrow> bytes list"

subsection \<open>What the code relies on\<close>

text \<open>A compressed frame is not empty, and decompressing it with the same dictionary gives the source back.\<close>

definition zstd_laws :: "ext \<Rightarrow> bool" where
  "zstd_laws X \<longleftrightarrow>
     (\<forall>d s c. zstd_compress X d s = Some c \<longrightarrow> c \<noteq> [] \<and> zstd_decompress X d c (length s) = Some s)"

definition int64 :: "int \<Rightarrow> bool" where
  "int64 v \<longleftrightarrow> - (2 ^ 63) \<le> v \<and> v < 2 ^ 63"

text \<open>The buffers that \<open>init_object\<close> and the setters build.\<close>

inductive lite3_object :: "ext \<Rightarrow> bytes \<Rightarrow> bool" for X where
  Init: "lite3_object X (init_object X)"
| I64: "lite3_object X b \<Longrightarrow> set_i64 X b k v = Some b' \<Longrightarrow> lite3_object X b'"
| Str: "lite3_object X b \<Longrightarrow> set_str X b k s = Some b' \<Longrightarrow> lite3_object X b'"
| Bool: "lite3_object X b \<Longrightarrow> set_bool X b k t = Some b' \<Longrightarrow> lite3_object X b'"
| Bytes: "lite3_object X b \<Longrightarrow> set_bytes X b k s = Some b' \<Longrightarrow> lite3_object X b'"

text \<open>
  Setting a field of an object succeeds, the field reads back with the type and value set, and other fields keep
  theirs; an object's first byte is the type tag 6 (the engine tests for it when it tells binary
  objects from JSON text).
\<close>

definition same_field :: "ext \<Rightarrow> bytes \<Rightarrow> bytes \<Rightarrow> bytes \<Rightarrow> bool" where
  "same_field X b b' k \<longleftrightarrow>
     get_type X b' k = get_type X b k \<and> get_i64 X b' k = get_i64 X b k \<and>
     get_str X b' k = get_str X b k \<and> get_bool X b' k = get_bool X b k"

definition lite3_laws :: "ext \<Rightarrow> bool" where
  "lite3_laws X \<longleftrightarrow>
     (\<forall>b. lite3_object X b \<longrightarrow> b \<noteq> [] \<and> hd b = 6) \<and>
     (\<forall>b k v. lite3_object X b \<longrightarrow> int64 v \<longrightarrow>
        (\<exists>b'. set_i64 X b k v = Some b' \<and> get_type X b' k = Some T_Int64 \<and> get_i64 X b' k = Some v \<and>
              (\<forall>k'. k' \<noteq> k \<longrightarrow> same_field X b b' k'))) \<and>
     (\<forall>b k s. lite3_object X b \<longrightarrow>
        (\<exists>b'. set_str X b k s = Some b' \<and> get_type X b' k = Some T_String \<and> get_str X b' k = Some s \<and>
              (\<forall>k'. k' \<noteq> k \<longrightarrow> same_field X b b' k'))) \<and>
     (\<forall>b k t. lite3_object X b \<longrightarrow>
        (\<exists>b'. set_bool X b k t = Some b' \<and> get_type X b' k = Some T_Bool \<and> get_bool X b' k = Some t \<and>
              (\<forall>k'. k' \<noteq> k \<longrightarrow> same_field X b b' k')))"

definition ext_laws :: "ext \<Rightarrow> bool" where
  "ext_laws X \<longleftrightarrow> zstd_laws X \<and> lite3_laws X \<and> sort_spec (std_sort X)"

subsection \<open>A concrete instance\<close>

text \<open>
  Objects as a tag and a list of fields, newest first; a field is a type byte and two strings, each
  preceded by its length in unary.
\<close>

definition put_string :: "bytes \<Rightarrow> bytes" where
  "put_string s = replicate (length s) 1 @ 0 # s"

definition take_string :: "bytes \<Rightarrow> (bytes \<times> bytes) option" where
  "take_string b =
     (let n = length (takeWhile (\<lambda>x. x = 1) b); r = drop (Suc n) b
      in if n < length b \<and> n \<le> length r then Some (take n r, drop n r) else None)"

definition put_field :: "u8 \<Rightarrow> bytes \<Rightarrow> bytes \<Rightarrow> bytes" where
  "put_field t k v = t # put_string k @ put_string v"

definition take_field :: "bytes \<Rightarrow> ((u8 \<times> bytes \<times> bytes) \<times> bytes) option" where
  "take_field b =
     (case b of [] \<Rightarrow> None
      | t # r \<Rightarrow>
          (case take_string r of None \<Rightarrow> None
           | Some (k, r) \<Rightarrow> (case take_string r of None \<Rightarrow> None | Some (v, r) \<Rightarrow> Some ((t, k, v), r))))"

lemma take_string_put: "take_string (put_string s @ r) = Some (s, r)"
proof -
  have "takeWhile (\<lambda>x. x = (1::u8)) (replicate (length s) 1 @ 0 # s @ r) = replicate (length s) 1"
    by (subst takeWhile_append2) auto
  then show ?thesis
    by (simp add: take_string_def put_string_def)
qed

lemma take_field_put: "take_field (put_field t k v @ r) = Some ((t, k, v), r)"
  by (simp add: take_field_def put_field_def take_string_put)

lemma take_string_shorter: "take_string b = Some (s, r) \<Longrightarrow> length r < length b"
  by (auto simp: take_string_def Let_def split: if_splits)

lemma take_field_shorter: "take_field b = Some (f, r) \<Longrightarrow> length r < length b"
  by (auto simp: take_field_def split: list.splits option.splits dest!: take_string_shorter)

function find_field :: "bytes \<Rightarrow> bytes \<Rightarrow> (u8 \<times> bytes) option" where
  "find_field b k =
     (case take_field b of None \<Rightarrow> None
      | Some ((t, k', v), r) \<Rightarrow> if k' = k then Some (t, v) else find_field r k)"
  by pat_completeness auto
termination
  by (relation "measure (\<lambda>(b, k). length b)") (auto dest: take_field_shorter)

declare find_field.simps [simp del]

lemma find_field_put: "find_field (put_field t k v @ r) k' = (if k = k' then Some (t, v) else find_field r k')"
  by (subst find_field.simps) (simp add: take_field_put)

fun type_tag :: "u8 \<Rightarrow> lite3_type" where
  "type_tag t = (if t = 0 then T_Int64 else if t = 1 then T_String else if t = 2 then T_Bool else T_Bytes)"

definition demo_set :: "u8 \<Rightarrow> bytes \<Rightarrow> bytes \<Rightarrow> bytes \<Rightarrow> bytes option" where
  "demo_set t b k v = (case b of [] \<Rightarrow> None | x # r \<Rightarrow> if x = 6 then Some (6 # put_field t k v @ r) else None)"

definition demo_get :: "bytes \<Rightarrow> bytes \<Rightarrow> (u8 \<times> bytes) option" where
  "demo_get b k = find_field (tl b) k"

text \<open>A compressor for strings of one repeated byte; it fails on all others.\<close>

definition demo_compress :: "bytes \<Rightarrow> bytes \<Rightarrow> bytes option" where
  "demo_compress d s = (if s \<noteq> [] \<and> s = replicate (length s) (hd s) then Some [hd s] else None)"

fun demo_keys :: "nat \<Rightarrow> bytes \<Rightarrow> bytes list" where
  "demo_keys 0 b = []"
| "demo_keys (Suc n) b =
     (case take_field b of None \<Rightarrow> [] | Some ((t, k, v), r) \<Rightarrow> k # filter (\<lambda>k'. k' \<noteq> k) (demo_keys n r))"

definition demo :: ext where
  "demo =
     \<lparr>xxh3 = byte_sum, std_sort = sort_by_length,
      zdict_train = (\<lambda>cap samples. Some []), zstd_compress = demo_compress,
      zstd_decompress = (\<lambda>d c n. case c of [] \<Rightarrow> None | x # r \<Rightarrow> Some (replicate n x)),
      from_json_string = (\<lambda>s. if s = bs ''{}'' then Some [6] else None),
      init_object = [6],
      set_i64 = (\<lambda>b k v. demo_set 0 b k (enc_u64 (word_of_int v))),
      set_str = demo_set 1,
      set_bool = (\<lambda>b k t. demo_set 2 b k (if t then [1] else [0])),
      set_bytes = demo_set 3,
      get_type = (\<lambda>b k. Some (case demo_get b k of None \<Rightarrow> T_Other | Some f \<Rightarrow> type_tag (fst f))),
      get_i64 = (\<lambda>b k. Option.bind (demo_get b k) (\<lambda>(t, v). if t = 0 then Some (sint (dec_u64 v)) else None)),
      get_f64 = (\<lambda>b k. None),
      get_str = (\<lambda>b k. Option.bind (demo_get b k) (\<lambda>(t, v). if t = 1 then Some v else None)),
      get_bool = (\<lambda>b k. Option.bind (demo_get b k) (\<lambda>(t, v). if t = 2 then Some (v = [1]) else None)),
      get_bytes = (\<lambda>b k. Option.bind (demo_get b k) (\<lambda>(t, v). if t = 3 then Some v else None)),
      object_keys = (\<lambda>b. demo_keys (length b) (tl b))\<rparr>"

lemma demo_object: "lite3_object demo b \<Longrightarrow> \<exists>r. b = 6 # r"
proof (induction rule: lite3_object.induct)
qed (auto simp: demo_def demo_set_def)

lemma demo_get_put: "demo_get (6 # put_field t k v @ r) k' = (if k = k' then Some (t, v) else demo_get (6 # r) k')"
  by (simp add: demo_get_def find_field_put)

lemma demo_zstd_laws: "zstd_laws demo"
  by (simp add: zstd_laws_def demo_def demo_compress_def)

lemma sint_int64: "int64 v \<Longrightarrow> sint (word_of_int v :: u64) = v"
  by (simp add: int64_def signed_of_int signed_take_bit_int_eq_self_iff)

lemma demo_lite3_laws: "lite3_laws demo"
  unfolding lite3_laws_def
proof (intro conjI allI impI)
  fix b assume "lite3_object demo b"
  then show "b \<noteq> []" "hd b = 6"
    using demo_object [of b] by auto
next
  fix b k v assume b: "lite3_object demo b" "int64 v"
  then obtain r where "b = 6 # r"
    using demo_object by blast
  with b(2) show "\<exists>b'. set_i64 demo b k v = Some b' \<and> get_type demo b' k = Some T_Int64 \<and>
      get_i64 demo b' k = Some v \<and> (\<forall>k'. k' \<noteq> k \<longrightarrow> same_field demo b b' k')"
    by (simp add: demo_def demo_set_def demo_get_put same_field_def codec_simps sint_int64)
next
  fix b k s assume "lite3_object demo b"
  then obtain r where "b = 6 # r"
    using demo_object by blast
  then show "\<exists>b'. set_str demo b k s = Some b' \<and> get_type demo b' k = Some T_String \<and>
      get_str demo b' k = Some s \<and> (\<forall>k'. k' \<noteq> k \<longrightarrow> same_field demo b b' k')"
    by (simp add: demo_def demo_set_def demo_get_put same_field_def)
next
  fix b k t assume "lite3_object demo b"
  then obtain r where "b = 6 # r"
    using demo_object by blast
  then show "\<exists>b'. set_bool demo b k t = Some b' \<and> get_type demo b' k = Some T_Bool \<and>
      get_bool demo b' k = Some t \<and> (\<forall>k'. k' \<noteq> k \<longrightarrow> same_field demo b b' k')"
    by (simp add: demo_def demo_set_def demo_get_put same_field_def)
qed

lemma demo_ext_laws: "ext_laws demo"
  using demo_zstd_laws demo_lite3_laws sort_by_length_spec by (simp add: ext_laws_def demo_def)

end
