(* ===== verification/Blob_Store.thy ===== *)
theory Blob_Store
  imports Third_Party
begin

text \<open>
  Values and their compression: \<open>ZstdManager\<close>, \<open>is_json_payload\<close> and \<open>Blob\<close> (engine/store.hpp). The engine
  always passes its manager, so the null tests of the pointer are left out. A \<open>lite3cpp::Buffer\<close> is its bytes.
\<close>

subsection \<open>The compression manager\<close>

record zstd_manager =
  samples :: "bytes list"
  samples_bytes :: nat
  zdict :: "bytes option"
  active :: bool

definition zm_init :: zstd_manager where
  "zm_init = \<lparr>samples = [], samples_bytes = 0, zdict = None, active = False\<rparr>"

definition dict_cap :: "nat \<Rightarrow> nat" where
  "dict_cap buffer_size = min (100 * 1024) (max 256 (buffer_size div 10))"

definition train_dictionary :: "ext \<Rightarrow> zstd_manager \<Rightarrow> zstd_manager" where
  "train_dictionary X z =
     (if samples z = [] then z
      else (case zdict_train X (dict_cap (length (concat (samples z)))) (samples z) of
              None \<Rightarrow> z
            | Some d \<Rightarrow> z\<lparr>zdict := Some d\<rparr>))"

definition add_sample :: "ext \<Rightarrow> zstd_manager \<Rightarrow> bytes \<Rightarrow> zstd_manager" where
  "add_sample X z data =
     (if active z then z
      else
        (let z = z\<lparr>samples := samples z @ [data], samples_bytes := samples_bytes z + length data\<rparr>
         in if length (samples z) \<ge> 1000 \<or> samples_bytes z \<ge> 100 * 1024
            then (train_dictionary X z)\<lparr>active := True, samples := []\<rparr>
            else z))"

definition zm_compress :: "ext \<Rightarrow> zstd_manager \<Rightarrow> bytes \<Rightarrow> bytes" where
  "zm_compress X z src =
     (if \<not> active z then src
      else (case zdict z of
              None \<Rightarrow> src
            | Some d \<Rightarrow> (case zstd_compress X d src of None \<Rightarrow> src | Some c \<Rightarrow> c)))"

definition zm_decompress :: "ext \<Rightarrow> zstd_manager \<Rightarrow> bytes \<Rightarrow> nat \<Rightarrow> bytes" where
  "zm_decompress X z src osize =
     (if \<not> active z then src
      else (case zdict z of
              None \<Rightarrow> src
            | Some d \<Rightarrow> (case zstd_decompress X d src osize of None \<Rightarrow> src | Some s \<Rightarrow> s)))"

subsection \<open>Blobs\<close>

definition is_json_payload :: "bytes \<Rightarrow> bool" where
  "is_json_payload data =
     (case dropWhile (\<lambda>c. c \<in> set [0x20, 9, 13, 10]) data of
        [] \<Rightarrow> False
      | c # r \<Rightarrow> c = 0x7B \<or> c = 0x5B)"

record blob =
  buf :: bytes
  compressed :: bool
  original_size :: u32

definition blob_default :: blob where
  "blob_default = \<lparr>buf = [], compressed = False, original_size = 0\<rparr>"

definition blob_compress :: "ext \<Rightarrow> zstd_manager \<Rightarrow> blob \<Rightarrow> blob" where
  "blob_compress X z b =
     (if compressed b \<or> \<not> active z then b
      else
        (let src = buf b; dst = zm_compress X z src
         in if length dst < length src
            then b\<lparr>original_size := word_of_nat (length src), compressed := True, buf := dst\<rparr>
            else b))"

definition blob_decompress :: "ext \<Rightarrow> zstd_manager \<Rightarrow> blob \<Rightarrow> blob" where
  "blob_decompress X z b =
     (if \<not> compressed b then b
      else b\<lparr>compressed := False, buf := zm_decompress X z (buf b) (unat (original_size b))\<rparr>)"

definition overwrite :: "ext \<Rightarrow> zstd_manager \<Rightarrow> blob \<Rightarrow> bytes \<Rightarrow> blob \<times> zstd_manager" where
  "overwrite X z b data =
     (let z = (if \<not> active z then add_sample X z data else z)
      in if data = [] then (b\<lparr>buf := [], compressed := False, original_size := 0\<rparr>, z)
         else
           (case (if is_json_payload data then from_json_string X data else None) of
              Some new_buf \<Rightarrow> (blob_compress X z (b\<lparr>buf := new_buf, compressed := False\<rparr>), z)
            | None \<Rightarrow> (blob_compress X z (b\<lparr>buf := data, compressed := False\<rparr>), z)))"

definition blob_of :: "ext \<Rightarrow> zstd_manager \<Rightarrow> bytes \<Rightarrow> blob \<times> zstd_manager" where
  "blob_of X z data = overwrite X z blob_default data"

definition blob_set_int :: "ext \<Rightarrow> zstd_manager \<Rightarrow> blob \<Rightarrow> bytes \<Rightarrow> int \<Rightarrow> blob option" where
  "blob_set_int X z b key val =
     (let b = (if compressed b then blob_decompress X z b else b);
          start = (if length (buf b) = 0 then init_object X else buf b)
      in map_option (\<lambda>r. blob_compress X z (b\<lparr>buf := r\<rparr>)) (set_i64 X start key val))"

definition blob_set_str :: "ext \<Rightarrow> zstd_manager \<Rightarrow> blob \<Rightarrow> bytes \<Rightarrow> bytes \<Rightarrow> blob option" where
  "blob_set_str X z b key val =
     (let b = (if compressed b then blob_decompress X z b else b);
          start = (if length (buf b) = 0 then init_object X else buf b)
      in map_option (\<lambda>r. blob_compress X z (b\<lparr>buf := r\<rparr>)) (set_str X start key val))"

text \<open>What a reader of a blob gets.\<close>

definition blob_value :: "ext \<Rightarrow> zstd_manager \<Rightarrow> blob \<Rightarrow> bytes" where
  "blob_value X z b =
     (if compressed b then zm_decompress X z (buf b) (unat (original_size b)) else buf b)"

definition hash_blob :: "ext \<Rightarrow> blob \<Rightarrow> u64" where
  "hash_blob X b = fnv1a_64 (xxh3 X) (buf b)"

subsection \<open>Compression is invisible\<close>

text \<open>The bytes \<open>overwrite\<close> stores: the parsed object for JSON text that parses, the data itself otherwise.\<close>

definition stored_form :: "ext \<Rightarrow> bytes \<Rightarrow> bytes" where
  "stored_form X data =
     (case (if data \<noteq> [] \<and> is_json_payload data then from_json_string X data else None) of
        Some b \<Rightarrow> b | None \<Rightarrow> data)"

definition blob_ok :: "ext \<Rightarrow> zstd_manager \<Rightarrow> blob \<Rightarrow> bool" where
  "blob_ok X z b \<longleftrightarrow>
     (compressed b \<longrightarrow> active z \<and>
        (\<exists>d s. zdict z = Some d \<and> zstd_compress X d s = Some (buf b) \<and> unat (original_size b) = length s \<and> s \<noteq> []))"

lemma blob_ok_default [simp]: "blob_ok X z blob_default" "blob_value X z blob_default = []"
  by (simp_all add: blob_ok_def blob_default_def blob_value_def)

lemma blob_ok_sample: "blob_ok X z b \<Longrightarrow> blob_ok X (add_sample X z data) b"
  by (auto simp: blob_ok_def add_sample_def)

lemma blob_value_sample: "blob_ok X z b \<Longrightarrow> blob_value X (add_sample X z data) b = blob_value X z b"
  by (auto simp: blob_ok_def blob_value_def add_sample_def)

lemma blob_compress_ok:
  assumes "zstd_laws X" and "length (buf b) < 2 ^ 32" and "\<not> compressed b"
  shows "blob_ok X z (blob_compress X z b) \<and> blob_value X z (blob_compress X z b) = buf b"
proof (cases "active z \<and> length (zm_compress X z (buf b)) < length (buf b)")
  case True
  then obtain d c where d: "zdict z = Some d" "zstd_compress X d (buf b) = Some c"
      "zm_compress X z (buf b) = c"
    by (auto simp: zm_compress_def split: option.splits)
  with assms have "zstd_decompress X d c (length (buf b)) = Some (buf b)"
    by (simp add: zstd_laws_def)
  moreover have "unat (word_of_nat (length (buf b)) :: u32) = length (buf b)"
    using assms(2) by (simp add: unat_of_nat take_bit_eq_mod)
  ultimately show ?thesis
    using True d assms(3)
    by (auto simp: blob_compress_def blob_ok_def blob_value_def zm_decompress_def Let_def)
next
  case False
  then show ?thesis
    using assms(3) by (auto simp: blob_compress_def blob_ok_def blob_value_def Let_def)
qed

lemma blob_ok_empty: "zstd_laws X \<Longrightarrow> blob_ok X z b \<Longrightarrow> buf b = [] \<longleftrightarrow> blob_value X z b = []"
  by (auto simp: blob_ok_def blob_value_def zm_decompress_def zstd_laws_def)

definition sampled :: "ext \<Rightarrow> zstd_manager \<Rightarrow> bytes \<Rightarrow> zstd_manager" where
  "sampled X z data = (if \<not> active z then add_sample X z data else z)"

lemma sampled_alt: "sampled X z data = add_sample X z data"
  by (simp add: sampled_def add_sample_def)

lemma blob_of_sampled: "snd (blob_of X z data) = add_sample X z data"
  unfolding sampled_alt [symmetric]
  by (simp add: blob_of_def overwrite_def sampled_def Let_def split: option.splits)

text \<open>\<open>overwrite\<close> stores the form of the data that a reader gets back, compressed or not.\<close>

lemma blob_of_value:
  assumes "zstd_laws X" and "length (stored_form X data) < 2 ^ 32"
  shows "blob_ok X (add_sample X z data) (fst (blob_of X z data)) \<and>
    blob_value X (add_sample X z data) (fst (blob_of X z data)) = stored_form X data"
proof (cases "data = []")
  case True
  then show ?thesis
    by (simp add: blob_of_def overwrite_def blob_ok_def blob_value_def stored_form_def Let_def)
next
  case False
  let ?b = "\<lparr>buf = stored_form X data, compressed = False, original_size = 0\<rparr>"
  have "fst (blob_of X z data) = blob_compress X (sampled X z data) ?b"
    using False
    by (auto simp: blob_of_def overwrite_def blob_default_def stored_form_def sampled_def Let_def split: option.splits)
  with blob_compress_ok [OF assms(1), of ?b "sampled X z data"] assms(2) show ?thesis
    by (simp add: sampled_alt)
qed

definition blob_plain :: "ext \<Rightarrow> zstd_manager \<Rightarrow> blob \<Rightarrow> blob" where
  "blob_plain X z b = (if compressed b then blob_decompress X z b else b)"

lemma blob_plain_value [simp]: "buf (blob_plain X z b) = blob_value X z b" "\<not> compressed (blob_plain X z b)"
  by (simp_all add: blob_plain_def blob_decompress_def blob_value_def)

definition patch_start :: "ext \<Rightarrow> bytes \<Rightarrow> bytes" where
  "patch_start X v = (if v = [] then init_object X else v)"

lemma blob_set_alt:
  "blob_set_int X z b key val =
     map_option (\<lambda>r. blob_compress X z ((blob_plain X z b)\<lparr>buf := r\<rparr>)) (set_i64 X (patch_start X (blob_value X z b)) key val)"
  "blob_set_str X z b key s =
     map_option (\<lambda>r. blob_compress X z ((blob_plain X z b)\<lparr>buf := r\<rparr>)) (set_str X (patch_start X (blob_value X z b)) key s)"
  unfolding blob_set_int_def blob_set_str_def blob_plain_def [symmetric]
  by (simp_all add: Let_def patch_start_def)

lemma blob_set_value:
  assumes "zstd_laws X" and "length r < 2 ^ 32"
  shows "blob_ok X z (blob_compress X z ((blob_plain X z b)\<lparr>buf := r\<rparr>)) \<and>
    blob_value X z (blob_compress X z ((blob_plain X z b)\<lparr>buf := r\<rparr>)) = r"
  using blob_compress_ok [OF assms(1), of "(blob_plain X z b)\<lparr>buf := r\<rparr>" z] assms(2) by simp

end
