(* ===== verification/Shard_Store.thy ===== *)
theory Shard_Store
  imports Blob_Store Ordered_Map
begin

text \<open>
  The in-memory state behind the engine and the operations on it: routing, \<open>apply_put\<close>, \<open>apply_patch_int\<close>,
  \<open>apply_patch_str\<close>, \<open>apply_del\<close> and \<open>get_view\<close> (engine/store.hpp). The map entries of a shard are never null
  pointers (every insertion stores a blob), so the null tests of the source are left out.
\<close>

subsection \<open>State and routing\<close>

record store =
  shards :: "nat \<Rightarrow> blob omap"
  s_merkle :: merkle
  s_zstd :: zstd_manager
  s_creds :: credential_manager

definition SHARDS :: nat where
  "SHARDS = 8"

definition get_routing_shard :: "ext \<Rightarrow> bytes \<Rightarrow> nat" where
  "get_routing_shard X key =
     (case split_at 0x7B key of
        None \<Rightarrow> unat (xxh3 X key) mod SHARDS
      | Some (_, rest) \<Rightarrow>
          (case split_at 0x7D rest of
             None \<Rightarrow> unat (xxh3 X key) mod SHARDS
           | Some (tag, _) \<Rightarrow> unat (xxh3 X tag) mod SHARDS))"

definition get_view :: "ext \<Rightarrow> store \<Rightarrow> bytes \<Rightarrow> blob option" where
  "get_view X st key = om_find (shards st (get_routing_shard X key)) key"

text \<open>The tail shared by the \<open>apply\<close> functions: the map assignment and the change of the key's leaf.\<close>

definition old_hash :: "ext \<Rightarrow> store \<Rightarrow> bytes \<Rightarrow> u64" where
  "old_hash X st key = (case get_view X st key of None \<Rightarrow> 0 | Some b \<Rightarrow> hash_blob X b)"

definition store_blob :: "ext \<Rightarrow> store \<Rightarrow> bytes \<Rightarrow> blob \<Rightarrow> store" where
  "store_blob X st key b =
     (let i = get_routing_shard X key; old_h = old_hash X st key; new_h = hash_blob X b
      in st\<lparr>shards := (shards st)(i := om_insert key b (shards st i)),
            s_merkle := apply_delta (xxh3 X) (s_merkle st) key (old_h XOR new_h)\<rparr>)"

subsection \<open>System keys\<close>

definition starts_with :: "bytes \<Rightarrow> bytes \<Rightarrow> bool" where
  "starts_with p s \<longleftrightarrow> take (length p) s = p"

definition ends_with :: "bytes \<Rightarrow> bytes \<Rightarrow> bool" where
  "ends_with p s \<longleftrightarrow> length p \<le> length s \<and> drop (length s - length p) s = p"

primrec contains :: "bytes \<Rightarrow> bytes \<Rightarrow> bool" where
  "contains p [] \<longleftrightarrow> p = []"
| "contains p (c # s) \<longleftrightarrow> starts_with p (c # s) \<or> contains p s"

definition user_buffer :: "ext \<Rightarrow> bytes \<Rightarrow> bytes option" where
  "user_buffer X body =
     (if length body \<ge> 4 \<and> (hd body = 6 \<or> hd body = 7) then Some body
      else if is_json_payload body then from_json_string X body
      else Some [])"

definition user_field :: "ext \<Rightarrow> bytes \<Rightarrow> bytes \<Rightarrow> bytes" where
  "user_field X b name = (if b = [] then [] else case get_str X b name of None \<Rightarrow> [] | Some s \<Rightarrow> s)"

definition hook_user :: "ext \<Rightarrow> credential_manager \<Rightarrow> bytes \<Rightarrow> bytes \<Rightarrow> credential_manager" where
  "hook_user X cm key body =
     (case stoul (drop 6 key) of
        None \<Rightarrow> cm
      | Some n \<Rightarrow>
          (case user_buffer X body of
             None \<Rightarrow> cm
           | Some b \<Rightarrow>
               (let uname = user_field X b (bs ''name''); pubkey = user_field X b (bs ''public_key'')
                in if uname \<noteq> [] \<and> pubkey \<noteq> [] then snd (register_user cm (ucast n) uname pubkey) else cm)))"

definition acl_perm :: "bytes \<Rightarrow> permission" where
  "acl_perm body =
     (let p = NONE;
          p = (if contains (bs ''READ'') body then perm_or p READ else p);
          p = (if contains (bs ''WRITE'') body then perm_or p WRITE else p);
          p = (if contains (bs ''ADMIN'') body then perm_or p ADMIN else p)
      in p)"

definition hook_acl :: "ext \<Rightarrow> credential_manager \<Rightarrow> bytes \<Rightarrow> bytes \<Rightarrow> credential_manager" where
  "hook_acl X cm key body =
     (case split_at 0x3A (drop 8 key) of
        None \<Rightarrow> cm
      | Some (u, pfx) \<Rightarrow>
          (case stoul u of
             None \<Rightarrow> cm
           | Some n \<Rightarrow> set_acl (std_sort X) cm (ucast n) pfx (acl_perm body)))"

definition cred_hook :: "ext \<Rightarrow> credential_manager \<Rightarrow> bytes \<Rightarrow> bytes \<Rightarrow> credential_manager" where
  "cred_hook X cm key body =
     (if starts_with (bs ''sys:u:'') key then hook_user X cm key body
      else if starts_with (bs ''sys:acl:'') key then hook_acl X cm key body
      else cm)"

subsection \<open>The apply functions\<close>

definition apply_put :: "ext \<Rightarrow> store \<Rightarrow> bytes \<Rightarrow> bytes \<Rightarrow> store" where
  "apply_put X st key body =
     (let (b, z) = blob_of X (s_zstd st) body;
          st = store_blob X (st\<lparr>s_zstd := z\<rparr>) key b
      in st\<lparr>s_creds := cred_hook X (s_creds st) key body\<rparr>)"

definition patch_base :: "ext \<Rightarrow> store \<Rightarrow> bytes \<Rightarrow> blob" where
  "patch_base X st key =
     (case get_view X st key of
        None \<Rightarrow> blob_default
      | Some b \<Rightarrow> if length (buf b) > 0 then b else blob_default)"

text \<open>\<open>None\<close>: the field setter throws, before anything of the store has changed.\<close>

definition apply_patch_int :: "ext \<Rightarrow> store \<Rightarrow> bytes \<Rightarrow> bytes \<Rightarrow> int \<Rightarrow> store option" where
  "apply_patch_int X st key field val =
     map_option (store_blob X st key) (blob_set_int X (s_zstd st) (patch_base X st key) field val)"

definition apply_patch_str :: "ext \<Rightarrow> store \<Rightarrow> bytes \<Rightarrow> bytes \<Rightarrow> bytes \<Rightarrow> store option" where
  "apply_patch_str X st key field val =
     map_option (store_blob X st key) (blob_set_str X (s_zstd st) (patch_base X st key) field val)"

definition apply_del :: "ext \<Rightarrow> store \<Rightarrow> bytes \<Rightarrow> bool \<times> store" where
  "apply_del X st key = (True, store_blob X st key blob_default)"

text \<open>The state the constructor of the engine builds before recovery.\<close>

definition creds_init :: "ext \<Rightarrow> credential_manager" where
  "creds_init X =
     (let cm = snd (register_user cm_init ADMIN_UID (bs ''admin'') (bs ''admin-key''));
          cm = set_acl (std_sort X) cm ADMIN_UID (bs ''*'') ADMIN;
          cm = snd (register_user cm INTERNAL_UID (bs ''internal'') (bs ''internal-key''))
      in set_acl (std_sort X) cm INTERNAL_UID (bs ''*'') ADMIN)"

definition store_init :: "ext \<Rightarrow> store" where
  "store_init X =
     \<lparr>shards = (\<lambda>_. []), s_merkle = merkle_init (xxh3 X), s_zstd = zm_init, s_creds = creds_init X\<rparr>"

subsection \<open>Reads after writes\<close>

definition value_at :: "ext \<Rightarrow> store \<Rightarrow> bytes \<Rightarrow> bytes option" where
  "value_at X st key = map_option (blob_value X (s_zstd st)) (get_view X st key)"

lemma get_view_store_blob [simp]:
  "get_view X (store_blob X st key b) k = (if k = key then Some b else get_view X st k)"
  by (auto simp: get_view_def store_blob_def Let_def)

lemma store_blob_frame [simp]:
  "s_zstd (store_blob X st key b) = s_zstd st" "s_creds (store_blob X st key b) = s_creds st"
  by (simp_all add: store_blob_def Let_def)

lemma get_view_update [simp]:
  "get_view X (st\<lparr>s_creds := c\<rparr>) k = get_view X st k" "get_view X (st\<lparr>s_zstd := z\<rparr>) k = get_view X st k"
  by (simp_all add: get_view_def)

lemma get_routing_shard_less: "get_routing_shard X key < SHARDS"
  by (simp add: get_routing_shard_def SHARDS_def split: option.splits)

subsection \<open>The invariant of the store\<close>

text \<open>
  Every shard is in key order and holds only keys routed to it; every blob can be read back; every leaf of the tree
  is the exclusive-or of the hashes of the blobs in its bucket; the tree and the credentials keep their own
  invariants.
\<close>

definition leaf_term :: "ext \<Rightarrow> nat \<Rightarrow> bytes \<Rightarrow> blob \<Rightarrow> u64" where
  "leaf_term X bucket k b = (if bucket_of (xxh3 X) k = bucket then hash_blob X b else 0)"

primrec xor_below :: "(nat \<Rightarrow> u64) \<Rightarrow> nat \<Rightarrow> u64" where
  "xor_below f 0 = 0"
| "xor_below f (Suc n) = xor_below f n XOR f n"

definition leaf_content :: "ext \<Rightarrow> (nat \<Rightarrow> blob omap) \<Rightarrow> nat \<Rightarrow> u64" where
  "leaf_content X sh bucket = xor_below (\<lambda>i. om_xor (leaf_term X bucket) (sh i)) SHARDS"

definition shards_inv :: "ext \<Rightarrow> store \<Rightarrow> bool" where
  "shards_inv X st \<longleftrightarrow>
     (\<forall>i. om_inv (shards st i) \<and> (\<forall>e \<in> set (shards st i). get_routing_shard X (fst e) = i))"

definition blobs_inv :: "ext \<Rightarrow> store \<Rightarrow> bool" where
  "blobs_inv X st \<longleftrightarrow> (\<forall>k b. get_view X st k = Some b \<longrightarrow> blob_ok X (s_zstd st) b)"

definition leaves_inv :: "ext \<Rightarrow> store \<Rightarrow> bool" where
  "leaves_inv X st \<longleftrightarrow>
     merkle_reachable (xxh3 X) (s_merkle st) \<and> leaves (s_merkle st) = leaf_content X (shards st)"

definition creds_inv :: "store \<Rightarrow> bool" where
  "creds_inv st \<longleftrightarrow> acl_inv (s_creds st) \<and> user_inv (s_creds st)"

definition store_inv :: "ext \<Rightarrow> store \<Rightarrow> bool" where
  "store_inv X st \<longleftrightarrow> shards_inv X st \<and> blobs_inv X st \<and> leaves_inv X st \<and> creds_inv st"

lemma xor_below_update: "i < n \<Longrightarrow> xor_below (f(i := f i XOR d)) n = xor_below f n XOR d"
proof (induction n)
  case (Suc n)
  have "xor_below (f(n := x)) m = xor_below f m" if "m \<le> n" for m x
    using that by (induction m) auto
  then have "xor_below (f(n := f n XOR d)) n = xor_below f n"
    by blast
  with Suc show ?case
    by (cases "i = n") (auto simp: xor.assoc xor.commute [of d] fun_upd_same fun_upd_other simp del: fun_upd_apply)
qed simp

text \<open>The leaf of the key's bucket changes by the old and the new hash, the others not at all.\<close>

lemma leaf_content_insert:
  assumes "om_inv (sh i)" and "i < SHARDS"
  shows "leaf_content X (sh(i := om_insert k b (sh i))) =
    (leaf_content X sh)(bucket_of (xxh3 X) k :=
       leaf_content X sh (bucket_of (xxh3 X) k) XOR
         ((case om_find (sh i) k of None \<Rightarrow> 0 | Some b \<Rightarrow> hash_blob X b) XOR hash_blob X b))"
proof
  fix n
  let ?f = "\<lambda>j. om_xor (leaf_term X n) (sh j)" and ?d = "om_term (leaf_term X n) (sh i) k XOR leaf_term X n k b"
  have "(\<lambda>j. om_xor (leaf_term X n) ((sh(i := om_insert k b (sh i))) j)) = ?f(i := ?f i XOR ?d)"
    by (simp add: fun_eq_iff om_xor_insert [OF assms(1)])
  then have "leaf_content X (sh(i := om_insert k b (sh i))) n = leaf_content X sh n XOR ?d"
    using xor_below_update [OF assms(2), of ?f ?d] by (simp add: leaf_content_def)
  then show "leaf_content X (sh(i := om_insert k b (sh i))) n =
    ((leaf_content X sh)(bucket_of (xxh3 X) k :=
       leaf_content X sh (bucket_of (xxh3 X) k) XOR
         ((case om_find (sh i) k of None \<Rightarrow> 0 | Some b \<Rightarrow> hash_blob X b) XOR hash_blob X b))) n"
    by (auto simp: om_term_def leaf_term_def split: option.splits)
qed

lemma shards_inv_store_blob: "shards_inv X st \<Longrightarrow> shards_inv X (store_blob X st key b)"
proof -
  assume "shards_inv X st"
  moreover have "fst e \<in> insert k (fst ` set m)" if "e \<in> set (om_insert k v m)" for e k and v :: blob and m
    using that fst_set_om_insert [of k v m] by blast
  ultimately show ?thesis
    by (auto simp: shards_inv_def store_blob_def Let_def) blast
qed

lemma leaves_inv_store_blob:
  assumes "shards_inv X st" and "leaves_inv X st"
  shows "leaves_inv X (store_blob X st key b)"
proof -
  have "om_inv (shards st (get_routing_shard X key))"
    using assms(1) by (simp add: shards_inv_def)
  note ins = leaf_content_insert [of "shards st" "get_routing_shard X key", OF this get_routing_shard_less, of X key b]
  have "merkle_reachable (xxh3 X) (s_merkle (store_blob X st key b))"
    using assms(2) by (auto simp: leaves_inv_def store_blob_def Let_def intro: merkle_reachable.Step merkle_step.Delta)
  moreover have "leaves (s_merkle (store_blob X st key b)) = leaf_content X (shards (store_blob X st key b))"
    using assms(2) ins
    by (simp add: leaves_inv_def store_blob_def Let_def apply_delta_def old_hash_def get_view_def)
  ultimately show ?thesis
    by (simp add: leaves_inv_def)
qed

lemma blobs_inv_store_blob:
  "blobs_inv X st \<Longrightarrow> blob_ok X (s_zstd st) b \<Longrightarrow> blobs_inv X (store_blob X st key b)"
  by (simp add: blobs_inv_def)

lemma store_inv_store_blob:
  "store_inv X st \<Longrightarrow> blob_ok X (s_zstd st) b \<Longrightarrow> store_inv X (store_blob X st key b)"
  by (simp add: store_inv_def shards_inv_store_blob leaves_inv_store_blob blobs_inv_store_blob creds_inv_def)

subsection \<open>The apply functions keep it\<close>

definition fits :: "ext \<Rightarrow> bytes \<Rightarrow> bool" where
  "fits X body \<longleftrightarrow> length (stored_form X body) < 2 ^ 32"

lemma cred_hook_inv:
  assumes "sort_spec (std_sort X)" and "acl_inv cm" and "user_inv cm"
  shows "acl_inv (cred_hook X cm key body) \<and> user_inv (cred_hook X cm key body)"
proof -
  have reg: "acl_inv (snd (register_user cm u n k)) \<and> user_inv (snd (register_user cm u n k))" for u n k
    using assms(2,3) by (auto simp: register_user_def acl_inv_def acls_of_def user_inv_def)
  show ?thesis
    using assms reg
    by (auto simp: cred_hook_def hook_user_def hook_acl_def Let_def acl_inv_set_acl split: option.splits)
qed

lemma apply_put_parts:
  "apply_put X st key body =
     (store_blob X (st\<lparr>s_zstd := add_sample X (s_zstd st) body\<rparr>) key (fst (blob_of X (s_zstd st) body)))
       \<lparr>s_creds := cred_hook X (s_creds st) key body\<rparr>"
proof -
  obtain b z where bz: "blob_of X (s_zstd st) body = (b, z)"
    by fastforce
  with blob_of_sampled [of X "s_zstd st" body] show ?thesis
    by (simp add: apply_put_def)
qed

lemma store_inv_sample: "store_inv X st \<Longrightarrow> store_inv X (st\<lparr>s_zstd := add_sample X (s_zstd st) body\<rparr>)"
  by (auto simp: store_inv_def shards_inv_def blobs_inv_def leaves_inv_def creds_inv_def blob_ok_sample)

lemma store_inv_creds:
  "store_inv X st \<Longrightarrow> acl_inv c \<Longrightarrow> user_inv c \<Longrightarrow> store_inv X (st\<lparr>s_creds := c\<rparr>)"
  by (simp add: store_inv_def shards_inv_def blobs_inv_def leaves_inv_def creds_inv_def)

lemma store_inv_put:
  assumes "ext_laws X" and "store_inv X st" and "fits X body"
  shows "store_inv X (apply_put X st key body)"
proof -
  have "blob_ok X (add_sample X (s_zstd st) body) (fst (blob_of X (s_zstd st) body))"
    using assms blob_of_value by (simp add: ext_laws_def fits_def)
  then have "store_inv X (store_blob X (st\<lparr>s_zstd := add_sample X (s_zstd st) body\<rparr>) key (fst (blob_of X (s_zstd st) body)))"
    using assms(2) by (intro store_inv_store_blob store_inv_sample) simp_all
  moreover have "acl_inv (cred_hook X (s_creds st) key body) \<and> user_inv (cred_hook X (s_creds st) key body)"
    using assms(1,2) by (intro cred_hook_inv) (simp_all add: ext_laws_def store_inv_def creds_inv_def)
  ultimately show ?thesis
    unfolding apply_put_parts by (blast intro: store_inv_creds)
qed

lemma value_at_put:
  assumes "ext_laws X" and "store_inv X st" and "fits X body"
  shows "value_at X (apply_put X st key body) k = (if k = key then Some (stored_form X body) else value_at X st k)"
proof (cases "k = key")
  case True
  then show ?thesis
    using assms blob_of_value [of X body "s_zstd st"]
    by (simp add: value_at_def apply_put_parts ext_laws_def fits_def)
next
  case False
  have "blob_value X (add_sample X (s_zstd st) body) b = blob_value X (s_zstd st) b" if "get_view X st k = Some b" for b
    using that assms(2) by (intro blob_value_sample) (auto simp: store_inv_def blobs_inv_def)
  with False show ?thesis
    by (cases "get_view X st k") (simp_all add: value_at_def apply_put_parts)
qed

lemma store_inv_del: "store_inv X st \<Longrightarrow> store_inv X (snd (apply_del X st key))"
  by (simp add: apply_del_def store_inv_store_blob)

lemma value_at_del: "value_at X (snd (apply_del X st key)) k = (if k = key then Some [] else value_at X st k)"
  by (simp add: value_at_def apply_del_def)

text \<open>What a patch starts from: an object, new when the key is absent or deleted.\<close>

definition patch_input :: "ext \<Rightarrow> store \<Rightarrow> bytes \<Rightarrow> bytes" where
  "patch_input X st key = patch_start X (case value_at X st key of None \<Rightarrow> [] | Some v \<Rightarrow> v)"

lemma patch_base_value:
  assumes "zstd_laws X" and "blobs_inv X st"
  shows "patch_start X (blob_value X (s_zstd st) (patch_base X st key)) = patch_input X st key"
  using assms blob_ok_empty [OF assms(1), of "s_zstd st"]
  by (auto simp: patch_base_def patch_input_def value_at_def blobs_inv_def split: option.splits)

lemma apply_patch_int_value:
  assumes "ext_laws X" and "store_inv X st" and "apply_patch_int X st key field val = Some st'"
    and "\<And>r. set_i64 X (patch_input X st key) field val = Some r \<Longrightarrow> length r < 2 ^ 32"
  shows "store_inv X st' \<and> s_creds st' = s_creds st \<and>
    value_at X st' k = (if k = key then set_i64 X (patch_input X st key) field val else value_at X st k)"
proof -
  have laws: "zstd_laws X" "blobs_inv X st"
    using assms(1,2) by (simp_all add: ext_laws_def store_inv_def)
  obtain r where r: "set_i64 X (patch_input X st key) field val = Some r"
      "st' = store_blob X st key (blob_compress X (s_zstd st) ((blob_plain X (s_zstd st) (patch_base X st key))\<lparr>buf := r\<rparr>))"
    using assms(3) by (auto simp: apply_patch_int_def blob_set_alt patch_base_value [OF laws])
  from blob_set_value [OF laws(1) assms(4) [OF r(1)], of "s_zstd st" "patch_base X st key"] assms(2) r
  show ?thesis
    by (auto simp: value_at_def intro: store_inv_store_blob)
qed

lemma apply_patch_str_value:
  assumes "ext_laws X" and "store_inv X st" and "apply_patch_str X st key field val = Some st'"
    and "\<And>r. set_str X (patch_input X st key) field val = Some r \<Longrightarrow> length r < 2 ^ 32"
  shows "store_inv X st' \<and> s_creds st' = s_creds st \<and>
    value_at X st' k = (if k = key then set_str X (patch_input X st key) field val else value_at X st k)"
proof -
  have laws: "zstd_laws X" "blobs_inv X st"
    using assms(1,2) by (simp_all add: ext_laws_def store_inv_def)
  obtain r where r: "set_str X (patch_input X st key) field val = Some r"
      "st' = store_blob X st key (blob_compress X (s_zstd st) ((blob_plain X (s_zstd st) (patch_base X st key))\<lparr>buf := r\<rparr>))"
    using assms(3) by (auto simp: apply_patch_str_def blob_set_alt patch_base_value [OF laws])
  from blob_set_value [OF laws(1) assms(4) [OF r(1)], of "s_zstd st" "patch_base X st key"] assms(2) r
  show ?thesis
    by (auto simp: value_at_def intro: store_inv_store_blob)
qed

lemma leaf_content_empty: "leaf_content X (\<lambda>_. []) = (\<lambda>_. 0)"
proof -
  have "xor_below (\<lambda>_. 0) n = 0" for n
    by (induction n) auto
  then show ?thesis
    by (simp add: leaf_content_def fun_eq_iff)
qed

lemma store_inv_init: "sort_spec (std_sort X) \<Longrightarrow> store_inv X (store_init X)"
proof -
  assume srt: "sort_spec (std_sort X)"
  have reg: "acl_inv (snd (register_user cm u n k)) = acl_inv cm" for cm u n k
    by (auto simp: register_user_def acl_inv_def acls_of_def)
  have "acl_inv (creds_init X)"
    by (simp add: creds_init_def Let_def reg acl_inv_set_acl [OF srt])
  moreover have "user_inv cm \<Longrightarrow> user_inv (snd (register_user cm u n k))" for cm u n k
    by (auto simp: register_user_def user_inv_def)
  then have "user_inv (creds_init X)"
    by (simp add: creds_init_def Let_def)
  ultimately show ?thesis
    by (simp add: store_inv_def shards_inv_def blobs_inv_def leaves_inv_def creds_inv_def store_init_def
        get_view_def leaf_content_empty merkle_reachable.Start)
      (simp add: merkle_init_def Let_def)
qed

end
