(* ===== verification/Engine.thy ===== *)
theory Engine
  imports Shard_Store Key_Builder Hlc_Clock Wal Replication_Log
begin

text \<open>
  The engine: reads, writes and recovery (engine/store.hpp). Its state is the in-memory store, the log, the
  clock and the work queued to the core threads; the readings of the physical clock and the results of
  the system calls still to come are part of it. An operation answers \<open>None\<close> when it has not returned within those
  inputs, and otherwise a value or the exception it throws, with the new state. A task that is submitted and waited for
  is the effect of the task.
\<close>

record engine =
  e_store :: store
  e_wal :: wal
  e_clock :: hlc
  e_pending :: "nat \<Rightarrow> (bytes \<times> bytes) list"
  e_phys :: "int list"
  e_io :: "sys_write list"

datatype engine_error = Unauthorized bytes | Lite3_Error

type_synonym 'a outcome = "((engine_error + 'a) \<times> engine) option"

subsection \<open>Reading\<close>

definition engine_get :: "ext \<Rightarrow> engine \<Rightarrow> bytes \<Rightarrow> u32 \<Rightarrow> bytes" where
  "engine_get X e key principal_id =
     (if \<not> can_read (s_creds (e_store e)) principal_id key then []
      else (case get_view X (e_store e) key of
              None \<Rightarrow> []
            | Some b \<Rightarrow>
                (if compressed b then zm_decompress X (s_zstd (e_store e)) (buf b) (unat (original_size b))
                 else buf b)))"

definition batch_get_step :: "ext \<Rightarrow> engine \<Rightarrow> u32 \<Rightarrow> bytes \<Rightarrow> bytes \<Rightarrow> bytes option" where
  "batch_get_step X e principal_id k res =
     (if \<not> can_read (s_creds (e_store e)) principal_id k then Some res
      else (case get_view X (e_store e) k of
              None \<Rightarrow> Some res
            | Some b \<Rightarrow>
                (if compressed b
                 then set_str X res k (zm_decompress X (s_zstd (e_store e)) (buf b) (unat (original_size b)))
                 else set_bytes X res k (buf b))))"

primrec batch_get_loop :: "ext \<Rightarrow> engine \<Rightarrow> u32 \<Rightarrow> bytes list \<Rightarrow> bytes \<Rightarrow> bytes option" where
  "batch_get_loop X e principal_id [] res = Some res"
| "batch_get_loop X e principal_id (k # ks) res =
     Option.bind (batch_get_step X e principal_id k res) (batch_get_loop X e principal_id ks)"

definition batch_get :: "ext \<Rightarrow> engine \<Rightarrow> bytes list \<Rightarrow> u32 \<Rightarrow> bytes option" where
  "batch_get X e keys principal_id = batch_get_loop X e principal_id keys (init_object X)"

subsection \<open>Writing\<close>

text \<open>The metadata object of a write.\<close>

definition meta_val :: "ext \<Rightarrow> timestamp \<Rightarrow> bool \<Rightarrow> bytes option" where
  "meta_val X now tombstone =
     do {
       b \<leftarrow> set_i64 X (init_object X) (bs ''ts'') (wall_time now);
       b \<leftarrow> set_i64 X b (bs ''l'') (int (unat (logical now)));
       b \<leftarrow> set_i64 X b (bs ''n'') (int (unat (node_id now)));
       if tombstone then set_bool X b (bs ''tombstone'') True else Some b
     }"

definition ts_str :: "timestamp \<Rightarrow> bytes" where
  "ts_str now = to_string (wall_time now) @ bs '':'' @ to_string (int (unat (logical now))) @ bs '':''
     @ to_string (int (unat (node_id now)))"

definition clock_now :: "engine \<Rightarrow> (timestamp \<times> engine) option" where
  "clock_now e =
     do { (now, c, ph) \<leftarrow> hlc_now (e_clock e) (e_phys e); Some (now, e\<lparr>e_clock := c, e_phys := ph\<rparr>) }"

definition log_batch :: "engine \<Rightarrow> batch_op list \<Rightarrow> engine option" where
  "log_batch e ops =
     do { (w, io) \<leftarrow> append_batch (e_wal e) ops (e_io e); Some (e\<lparr>e_wal := w, e_io := io\<rparr>) }"

definition bop :: "WalOp \<Rightarrow> bytes \<Rightarrow> bytes \<Rightarrow> batch_op" where
  "bop op key v = \<lparr>b_op = op, b_key = key, b_value = v\<rparr>"

definition engine_put :: "ext \<Rightarrow> engine \<Rightarrow> bytes \<Rightarrow> bytes \<Rightarrow> u32 \<Rightarrow> unit outcome" where
  "engine_put X e key json_body principal_id =
     (if \<not> can_write (s_creds (e_store e)) principal_id key then Some (Inl (Unauthorized key), e)
      else do {
        (now, e) \<leftarrow> clock_now e;
        let mkey_s = meta_key_s key;
        (case meta_val X now False of
           None \<Rightarrow> Some (Inl Lite3_Error, e)
         | Some mv \<Rightarrow> do {
             e \<leftarrow> log_batch e [bop PUT key json_body, bop PUT mkey_s mv];
             let st = apply_put X (e_store e) key json_body;
             let st = apply_put X st mkey_s mv;
             Some (Inr (), e\<lparr>e_store := st\<rparr>)
           })
      })"

text \<open>A task of two patches: the second is not reached when the first throws.\<close>

definition patch_task :: "engine \<Rightarrow> store option \<Rightarrow> (store \<Rightarrow> store option) \<Rightarrow> (engine_error + unit) \<times> engine" where
  "patch_task e first second =
     (case first of
        None \<Rightarrow> (Inl Lite3_Error, e)
      | Some st \<Rightarrow>
          (case second st of
             None \<Rightarrow> (Inl Lite3_Error, e\<lparr>e_store := st\<rparr>)
           | Some st' \<Rightarrow> (Inr (), e\<lparr>e_store := st'\<rparr>)))"

definition patch_int :: "ext \<Rightarrow> engine \<Rightarrow> bytes \<Rightarrow> bytes \<Rightarrow> int \<Rightarrow> unit outcome" where
  "patch_int X e key field val =
     do {
       (now, e) \<leftarrow> clock_now e;
       let mkey_s = meta_key_s key;
       e \<leftarrow> log_batch e [bop PATCH_I64 key (field @ bs '':'' @ to_string val),
                         bop PATCH_STR mkey_s (field @ bs '':'' @ ts_str now)];
       Some (patch_task e (apply_patch_int X (e_store e) key field val)
                          (\<lambda>st. apply_patch_str X st mkey_s field (ts_str now)))
     }"

definition patch_str :: "ext \<Rightarrow> engine \<Rightarrow> bytes \<Rightarrow> bytes \<Rightarrow> bytes \<Rightarrow> unit outcome" where
  "patch_str X e key field val =
     do {
       (now, e) \<leftarrow> clock_now e;
       let mkey_s = meta_key_s key;
       e \<leftarrow> log_batch e [bop PATCH_STR key (field @ bs '':'' @ val),
                         bop PATCH_STR mkey_s (field @ bs '':'' @ ts_str now)];
       Some (patch_task e (apply_patch_str X (e_store e) key field val)
                          (\<lambda>st. apply_patch_str X st mkey_s field (ts_str now)))
     }"

definition engine_del :: "ext \<Rightarrow> engine \<Rightarrow> bytes \<Rightarrow> u32 \<Rightarrow> bool outcome" where
  "engine_del X e key principal_id =
     (if \<not> can_write (s_creds (e_store e)) principal_id key then Some (Inr False, e)
      else do {
        (now, e) \<leftarrow> clock_now e;
        let mkey_s = meta_key_s key;
        (case meta_val X now True of
           None \<Rightarrow> Some (Inl Lite3_Error, e)
         | Some mv \<Rightarrow> do {
             e \<leftarrow> log_batch e [bop DELETE key [], bop PUT mkey_s mv];
             let (existed, st) = apply_del X (e_store e) key;
             let st = apply_put X st mkey_s mv;
             Some (Inr existed, e\<lparr>e_store := st\<rparr>)
           })
      })"

subsection \<open>Batches\<close>

text \<open>
  \<open>batch_put\<close> collects its log operations as views of strings local to the loop body, which are gone when
  \<open>append_batch\<close> reads them. What such a view shows is not determined by the source: \<open>mem v i\<close> is the byte
  found at offset \<open>i\<close> of the \<open>v\<close>-th dangling view.
\<close>

type_synonym stale_memory = "nat \<Rightarrow> nat \<Rightarrow> u8"

definition read_stale :: "stale_memory \<Rightarrow> nat \<Rightarrow> bytes \<Rightarrow> bytes" where
  "read_stale mem v s = map (mem v) [0..<length s]"

record batch_work =
  bw_wal :: "batch_op list"
  bw_works :: "nat \<Rightarrow> (bytes \<times> bytes) list"

definition batch_value :: "ext \<Rightarrow> bytes \<Rightarrow> bytes \<Rightarrow> (bytes option) option" where
  "batch_value X batch key =
     do {
       t \<leftarrow> get_type X batch key;
       if t = T_String then map_option Some (get_str X batch key)
       else if t = T_Bytes then map_option Some (get_bytes X batch key)
       else Some None
     }"

definition add_update :: "nat \<Rightarrow> bytes \<times> bytes \<Rightarrow> batch_work \<Rightarrow> batch_work" where
  "add_update i u bw = bw\<lparr>bw_works := (bw_works bw)(i := bw_works bw i @ [u])\<rparr>"

definition batch_put_item ::
    "ext \<Rightarrow> bytes \<Rightarrow> u32 \<Rightarrow> bytes \<Rightarrow> engine \<Rightarrow> batch_work \<Rightarrow> ((engine_error + batch_work) \<times> engine) option" where
  "batch_put_item X batch principal_id key e bw =
     (if \<not> can_write (s_creds (e_store e)) principal_id key then Some (Inl (Unauthorized key), e)
      else (case batch_value X batch key of
              None \<Rightarrow> Some (Inl Lite3_Error, e)
            | Some None \<Rightarrow> Some (Inr bw, e)
            | Some (Some val) \<Rightarrow> do {
                (now, e) \<leftarrow> clock_now e;
                let mkey_s = meta_key_s key;
                (case meta_val X now False of
                   None \<Rightarrow> Some (Inl Lite3_Error, e)
                 | Some mv \<Rightarrow>
                     let bw = bw\<lparr>bw_wal := bw_wal bw @ [bop PUT key val, bop PUT mkey_s mv]\<rparr>;
                         bw = add_update (get_routing_shard X key) (key, val) bw;
                         bw = add_update (get_routing_shard X mkey_s) (mkey_s, mv) bw
                     in Some (Inr bw, e))
              }))"

primrec batch_put_loop ::
    "ext \<Rightarrow> bytes \<Rightarrow> u32 \<Rightarrow> bytes list \<Rightarrow> engine \<Rightarrow> batch_work \<Rightarrow> ((engine_error + batch_work) \<times> engine) option" where
  "batch_put_loop X batch principal_id [] e bw = Some (Inr bw, e)"
| "batch_put_loop X batch principal_id (k # ks) e bw =
     do {
       (r, e) \<leftarrow> batch_put_item X batch principal_id k e bw;
       (case r of Inl err \<Rightarrow> Some (Inl err, e) | Inr bw \<Rightarrow> batch_put_loop X batch principal_id ks e bw)
     }"

definition stale_ops :: "stale_memory \<Rightarrow> batch_op list \<Rightarrow> batch_op list" where
  "stale_ops mem ops =
     map (\<lambda>(i, o'). o'\<lparr>b_key := read_stale mem (2 * i) (b_key o'), b_value := read_stale mem (2 * i + 1) (b_value o')\<rparr>)
       (zip [0..<length ops] ops)"

definition batch_put :: "ext \<Rightarrow> stale_memory \<Rightarrow> engine \<Rightarrow> bytes \<Rightarrow> u32 \<Rightarrow> unit outcome" where
  "batch_put X mem e batch principal_id =
     do {
       (r, e) \<leftarrow> batch_put_loop X batch principal_id (object_keys X batch) e \<lparr>bw_wal = [], bw_works = (\<lambda>_. [])\<rparr>;
       (case r of
          Inl err \<Rightarrow> Some (Inl err, e)
        | Inr bw \<Rightarrow>
            if bw_wal bw = [] then Some (Inr (), e)
            else do {
              e \<leftarrow> log_batch e (stale_ops mem (bw_wal bw));
              Some (Inr (), e\<lparr>e_pending := (\<lambda>i. e_pending e i @ bw_works bw i)\<rparr>)
            })
     }"

text \<open>A core thread runs the next queued update of its shard.\<close>

definition core_step :: "ext \<Rightarrow> nat \<Rightarrow> engine \<Rightarrow> engine" where
  "core_step X i e =
     (case e_pending e i of
        [] \<Rightarrow> e
      | (k, v) # r \<Rightarrow> e\<lparr>e_pending := (e_pending e)(i := r), e_store := apply_put X (e_store e) k v\<rparr>)"

record shard_mutation =
  sm_puts :: "(bytes \<times> bytes) list"
  sm_dels :: "bytes list"

definition apply_shard_mutation :: "ext \<Rightarrow> shard_mutation \<Rightarrow> store \<Rightarrow> store" where
  "apply_shard_mutation X mut st =
     (let st = fold (\<lambda>d st. snd (apply_del X st d)) (sm_dels mut) st
      in fold (\<lambda>(k, v) st. apply_put X st k v) (sm_puts mut) st)"

text \<open>The tasks of a batch run on their shards' threads; \<open>order\<close> is the order in which they happen to run.\<close>

definition apply_batch_mutations ::
    "ext \<Rightarrow> nat list \<Rightarrow> engine \<Rightarrow> batch_op list \<Rightarrow> (nat \<rightharpoonup> shard_mutation) \<Rightarrow> engine option" where
  "apply_batch_mutations X order e wal_ops muts =
     (if wal_ops = [] \<and> muts = Map.empty then Some e
      else do {
        e \<leftarrow> (if wal_ops \<noteq> [] then log_batch e wal_ops else Some e);
        Some (e\<lparr>e_store := fold (\<lambda>i st. case muts i of None \<Rightarrow> st | Some mut \<Rightarrow> apply_shard_mutation X mut st)
                             order (e_store e)\<rparr>)
      })"

subsection \<open>Replication\<close>

definition stored_ts :: "ext \<Rightarrow> bytes \<Rightarrow> timestamp option" where
  "stored_ts X b =
     (if length b > 0
      then do {
        t \<leftarrow> get_type X b (bs ''ts'');
        if t = T_Int64 \<or> t = T_Float64
        then do {
          w \<leftarrow> get_i64 X b (bs ''ts'');
          l \<leftarrow> get_i64 X b (bs ''l'');
          n \<leftarrow> get_i64 X b (bs ''n'');
          Some (Timestamp w (word_of_int l) (word_of_int n))
        }
        else Some (Timestamp 0 0 0)
      }
      else Some (Timestamp 0 0 0))"

definition apply_mutation :: "ext \<Rightarrow> engine \<Rightarrow> mutation \<Rightarrow> unit outcome" where
  "apply_mutation X e m =
     (let meta_key_lookup = meta_key_s (m_key m)
      in case stored_ts X (engine_get X e meta_key_lookup ADMIN_UID) of
           None \<Rightarrow> Some (Inl Lite3_Error, e)
         | Some local_ts \<Rightarrow>
             if m_timestamp m \<le> local_ts then Some (Inr (), e)
             else (case meta_val X (m_timestamp m) (m_is_delete m) of
                     None \<Rightarrow> Some (Inl Lite3_Error, e)
                   | Some mv \<Rightarrow> do {
                       e \<leftarrow> log_batch e [if m_is_delete m then bop DELETE (m_key m) [] else bop PUT (m_key m) (m_value m),
                                         bop PUT meta_key_lookup mv];
                       let st = (if m_is_delete m then snd (apply_del X (e_store e) (m_key m))
                                 else apply_put X (e_store e) (m_key m) (m_value m));
                       let st = apply_put X st meta_key_lookup mv;
                       Some (Inr (), e\<lparr>e_store := st\<rparr>)
                     }))"

subsection \<open>Recovery\<close>

definition recover_op :: "ext \<Rightarrow> callback \<Rightarrow> store \<Rightarrow> store" where
  "recover_op X c st =
     (case c of (op, key, payload) \<Rightarrow>
        if op = op_code PUT then apply_put X st key payload
        else if op = op_code PATCH_I64 then
          (case split_at 0x3A payload of
             None \<Rightarrow> st
           | Some (field, v) \<Rightarrow>
               (case stoll v of None \<Rightarrow> st
                | Some val \<Rightarrow> (case apply_patch_int X st key field val of None \<Rightarrow> st | Some st' \<Rightarrow> st')))
        else if op = op_code PATCH_STR then
          (case split_at 0x3A payload of
             None \<Rightarrow> st
           | Some (field, v) \<Rightarrow> (case apply_patch_str X st key field v of None \<Rightarrow> st | Some st' \<Rightarrow> st'))
        else if op = op_code DELETE then snd (apply_del X st key)
        else st)"

definition replay :: "ext \<Rightarrow> callback list \<Rightarrow> store" where
  "replay X cs = fold (recover_op X) cs (store_init X)"

definition engine_open :: "ext \<Rightarrow> (nat \<Rightarrow> bool) \<Rightarrow> bytes \<Rightarrow> u32 \<Rightarrow> int list \<Rightarrow> sys_write list \<Rightarrow> engine" where
  "engine_open X bad file node ph io =
     (let (cs, w) = recover bad (wal_open file)
      in \<lparr>e_store = replay X cs, e_wal = w, e_clock = hlc_init node, e_pending = (\<lambda>_. []), e_phys = ph, e_io = io\<rparr>)"

subsection \<open>Hashes\<close>

definition get_merkle_root_hash :: "ext \<Rightarrow> engine \<Rightarrow> u64 \<times> engine" where
  "get_merkle_root_hash X e =
     (let (h, m) = get_root_hash (xxh3 X) (s_merkle (e_store e))
      in (h, e\<lparr>e_store := (e_store e)\<lparr>s_merkle := m\<rparr>\<rparr>))"

definition get_merkle_node :: "engine \<Rightarrow> int \<Rightarrow> int \<Rightarrow> u64 option" where
  "get_merkle_node e level index =
     get_node_hash (s_merkle (e_store e)) level (if index \<ge> 0 then nat index else nat (2 ^ 64 + index))"

definition get_wal_stats :: "engine \<Rightarrow> wal_stats" where
  "get_wal_stats e = stats (e_wal e)"

subsection \<open>Metadata objects\<close>

lemma meta_val_object: "meta_val X now t = Some b \<Longrightarrow> lite3_object X b"
proof -
  assume "meta_val X now t = Some b"
  then obtain b1 b2 b3 where s: "set_i64 X (init_object X) (bs ''ts'') (wall_time now) = Some b1"
      "set_i64 X b1 (bs ''l'') (int (unat (logical now))) = Some b2"
      "set_i64 X b2 (bs ''n'') (int (unat (node_id now))) = Some b3"
      "(if t then set_bool X b3 (bs ''tombstone'') True else Some b3) = Some b"
    unfolding meta_val_def bind_eq_Some_conv by blast
  have "lite3_object X b3"
    using lite3_object.I64 [OF lite3_object.I64 [OF lite3_object.I64 [OF lite3_object.Init s(1)] s(2)] s(3)] .
  with s(4) show ?thesis
    by (cases t) (auto intro: lite3_object.Bool)
qed

text \<open>A metadata object reads back the timestamp it was built from.\<close>

lemma meta_val_reads:
  assumes laws: "lite3_laws X" and w: "int64 (wall_time now)"
  shows "\<exists>b. meta_val X now t = Some b \<and> lite3_object X b \<and> stored_ts X b = Some now"
proof -
  have set: "\<exists>b'. set_i64 X b k v = Some b' \<and> lite3_object X b' \<and> get_type X b' k = Some T_Int64 \<and>
      get_i64 X b' k = Some v \<and> (\<forall>k'. k' \<noteq> k \<longrightarrow> get_type X b' k' = get_type X b k' \<and> get_i64 X b' k' = get_i64 X b k')"
    if "lite3_object X b" "int64 v" for b k v
    using laws that unfolding lite3_laws_def same_field_def by (meson lite3_object.I64)
  have nat: "int64 (int (unat (x :: u32)))" for x
  proof -
    have "int (unat x) < int (2 ^ 32)"
      unfolding of_nat_less_iff using unat_bound [of x] by simp
    moreover have "0 \<le> int (unat x)"
      by (rule of_nat_0_le_iff)
    moreover have "int (2 ^ 32) < 2 ^ 63" "- (2 ^ 63) \<le> (0 :: int)"
      by simp_all
    ultimately show ?thesis
      unfolding int64_def by linarith
  qed
  obtain b1 where b1: "set_i64 X (init_object X) (bs ''ts'') (wall_time now) = Some b1" "lite3_object X b1"
      "get_type X b1 (bs ''ts'') = Some T_Int64" "get_i64 X b1 (bs ''ts'') = Some (wall_time now)"
    using set [OF lite3_object.Init w] by blast
  obtain b2 where b2: "set_i64 X b1 (bs ''l'') (int (unat (logical now))) = Some b2" "lite3_object X b2"
      "get_i64 X b2 (bs ''l'') = Some (int (unat (logical now)))"
      "\<And>k. k \<noteq> bs ''l'' \<Longrightarrow> get_type X b2 k = get_type X b1 k \<and> get_i64 X b2 k = get_i64 X b1 k"
    using set [OF b1(2) nat] by meson
  obtain b3 where b3: "set_i64 X b2 (bs ''n'') (int (unat (node_id now))) = Some b3" "lite3_object X b3"
      "get_i64 X b3 (bs ''n'') = Some (int (unat (node_id now)))"
      "\<And>k. k \<noteq> bs ''n'' \<Longrightarrow> get_type X b3 k = get_type X b2 k \<and> get_i64 X b3 k = get_i64 X b2 k"
    using set [OF b2(2) nat] by meson
  have names: "bs ''ts'' \<noteq> bs ''l''" "bs ''ts'' \<noteq> bs ''n''" "bs ''l'' \<noteq> bs ''n''"
    "bs ''ts'' \<noteq> bs ''tombstone''" "bs ''l'' \<noteq> bs ''tombstone''" "bs ''n'' \<noteq> bs ''tombstone''"
    by simp_all
  have r3: "get_type X b3 (bs ''ts'') = Some T_Int64" "get_i64 X b3 (bs ''ts'') = Some (wall_time now)"
    "get_i64 X b3 (bs ''l'') = Some (int (unat (logical now)))"
    using b3(4) [OF names(2)] b2(4) [OF names(1)] b3(4) [OF names(3)] b2(3) b1(3,4) by simp_all
  have st: "stored_ts X b = Some now" if "lite3_object X b" "get_type X b (bs ''ts'') = Some T_Int64"
    "get_i64 X b (bs ''ts'') = Some (wall_time now)" "get_i64 X b (bs ''l'') = Some (int (unat (logical now)))"
    "get_i64 X b (bs ''n'') = Some (int (unat (node_id now)))" for b
  proof -
    have "b \<noteq> []"
      using laws that(1) by (simp add: lite3_laws_def)
    with that(2-5) show ?thesis
      unfolding stored_ts_def by (cases now) simp
  qed
  show ?thesis
  proof (cases t)
    case False
    then show ?thesis
      using b1(1) b2(1) b3(1,2) st [OF b3(2) r3 b3(3)] by (simp add: meta_val_def)
  next
    case True
    obtain b4 where b4: "set_bool X b3 (bs ''tombstone'') True = Some b4" "lite3_object X b4"
        "\<And>k. k \<noteq> bs ''tombstone'' \<Longrightarrow> get_type X b4 k = get_type X b3 k \<and> get_i64 X b4 k = get_i64 X b3 k"
      using laws b3(2) unfolding lite3_laws_def same_field_def by (meson lite3_object.Bool)
    with r3 b3(3) names st [OF b4(2)] show ?thesis
      using b1(1) b2(1) b3(1) True by (simp add: meta_val_def)
  qed
qed

end
