(* ===== verification/Engine_Recovery.thy ===== *)
theory Engine_Recovery
  imports Engine Wal_Recovery
begin

text \<open>
  Durability of the engine: what the log of a running engine replays to. The central statement is that reopening
  the log rebuilds the in-memory store exactly; the conditions it needs are the ones the code does not check
  itself, and the last part shows what happens without them.
\<close>

subsection \<open>Requests\<close>

datatype request =
    Put bytes bytes u32
  | Patch_Int bytes bytes int
  | Patch_Str bytes bytes bytes
  | Del bytes u32
  | Mutate mutation

fun exec :: "ext \<Rightarrow> engine \<Rightarrow> request \<Rightarrow> unit outcome" where
  "exec X e (Put key body uid) = engine_put X e key body uid"
| "exec X e (Patch_Int key field val) = patch_int X e key field val"
| "exec X e (Patch_Str key field val) = patch_str X e key field val"
| "exec X e (Del key uid) = map_option (apfst (map_sum id (\<lambda>_. ()))) (engine_del X e key uid)"
| "exec X e (Mutate m) = apply_mutation X e m"

fun request_key :: "request \<Rightarrow> bytes" where
  "request_key (Put key body uid) = key"
| "request_key (Patch_Int key field val) = key"
| "request_key (Patch_Str key field val) = key"
| "request_key (Del key uid) = key"
| "request_key (Mutate m) = m_key m"

text \<open>
  What the log format needs of a request: a key length that fits 16 bits, an integer that fits 64, and a field name
  without the separator.
\<close>

fun loggable :: "request \<Rightarrow> bool" where
  "loggable (Patch_Int key field val) \<longleftrightarrow> length key < 2 ^ 16 \<and> 0x3A \<notin> set field \<and> int64 val"
| "loggable (Patch_Str key field val) \<longleftrightarrow> length key < 2 ^ 16 \<and> 0x3A \<notin> set field"
| "loggable r \<longleftrightarrow> length (request_key r) < 2 ^ 16"

text \<open>A run of requests; \<open>None\<close> when one does not return, \<open>Lite3_Error\<close> when one throws half way.\<close>

primrec run :: "ext \<Rightarrow> engine \<Rightarrow> request list \<Rightarrow> ((engine_error + unit) list \<times> engine) option" where
  "run X e [] = Some ([], e)"
| "run X e (r # rs) =
     do {
       (o', e) \<leftarrow> exec X e r;
       (os, e) \<leftarrow> run X e rs;
       Some (o' # os, e)
     }"

subsection \<open>The log of a running engine\<close>

definition replays_to :: "ext \<Rightarrow> engine \<Rightarrow> bool" where
  "replays_to X e \<longleftrightarrow>
     at_end (e_wal e) \<and> no_error (e_io e) \<and>
     (\<exists>es. (\<forall>en \<in> set es. entry_ok en) \<and> w_file (e_wal e) = wal_log es \<and>
           e_store e = replay X (concat (map entry_ops es)))"

lemma length_meta_key_s: "length (meta_key_s key) < 2 ^ 16"
  by (auto simp: meta_key_s_def MAX_KEY_SIZE_def)

lemma length_batch_image: "length (batch_image ops) = 11 + batch_payload_size ops"
  by (simp add: batch_image_def Let_def codec_simps HEADER_SIZE_def length_batch_payload)

lemma log_batch_file:
  assumes "log_batch e ops = Some e'" and "at_end (e_wal e)" and "no_error (e_io e)" and "ops \<noteq> []"
  shows "w_file (e_wal e') = w_file (e_wal e) @ batch_image ops \<and> at_end (e_wal e') \<and> no_error (e_io e') \<and>
    e_store e' = e_store e \<and> e_clock e' = e_clock e"
proof -
  from assms(1,4) obtain ok w io where w: "write_raw (e_wal e) (batch_image ops) (e_io e) = Some (ok, w, io)"
      "e' = e\<lparr>e_wal := w, e_io := io\<rparr>"
    by (auto simp: log_batch_def append_batch_def bind_eq_Some_conv)
  from write_raw_prefix [OF w(1) assms(2)] assms(3) w(2) show ?thesis
    by auto
qed

definition op_ops :: "batch_op list \<Rightarrow> callback list" where
  "op_ops ops = map (\<lambda>o'. (op_code (b_op o'), b_key o', b_value o')) ops"

lemma batch_size_values: "o' \<in> set ops \<Longrightarrow> length (b_value o') \<le> batch_payload_size ops"
  unfolding batch_payload_size_def by (induction ops) auto

lemma entry_ops_batched:
  assumes "\<forall>o' \<in> set ops. length (b_key o') < 2 ^ 16" and "batch_payload_size ops < 2 ^ 32"
  shows "entry_ops (Batched ops) = op_ops ops"
proof -
  have "length (b_value o') mod 2 ^ 32 = length (b_value o')" if "o' \<in> set ops" for o'
    using batch_size_values [OF that] assms(2) by (intro mod_less) linarith
  with assms(1) show ?thesis
    unfolding entry_ops.simps op_ops_def by (intro map_cong) auto
qed

text \<open>One logged batch whose replay is the change of the store.\<close>

lemma replays_to_batch:
  assumes inv: "replays_to X e" and log: "log_batch e ops = Some e1" and ops: "ops \<noteq> []"
    and keys: "\<forall>o' \<in> set ops. length (b_key o') < 2 ^ 16"
    and size: "length (w_file (e_wal e1)) < 2 ^ 32"
    and st: "fold (recover_op X) (op_ops ops) (e_store e) = st"
  shows "replays_to X (e1\<lparr>e_store := st\<rparr>)"
proof -
  from inv obtain es where es: "\<forall>en \<in> set es. entry_ok en" "w_file (e_wal e) = wal_log es"
      "e_store e = replay X (concat (map entry_ops es))"
    by (auto simp: replays_to_def)
  have f: "w_file (e_wal e1) = wal_log es @ batch_image ops" "at_end (e_wal e1)" "no_error (e_io e1)"
    using log_batch_file [OF log _ _ ops] inv es(2) by (auto simp: replays_to_def)
  then have sz: "batch_payload_size ops < 2 ^ 32"
    using size by (simp add: length_batch_image)
  let ?es = "es @ [Batched ops]"
  have "\<forall>en \<in> set ?es. entry_ok en"
    using es(1) ops sz by simp
  moreover have "w_file (e_wal e1) = wal_log ?es"
    using f(1) by (simp add: wal_log_def)
  moreover have "st = replay X (concat (map entry_ops ?es))"
    using st es(3) entry_ops_batched [OF keys sz] by (simp add: replay_def del: entry_ops.simps)
  ultimately have "\<exists>es. (\<forall>en \<in> set es. entry_ok en) \<and> w_file (e_wal e1) = wal_log es \<and>
      st = replay X (concat (map entry_ops es))"
    by blast
  with f(2,3) show ?thesis
    by (simp add: replays_to_def)
qed

lemma replays_to_clock: "clock_now e = Some (now, e') \<Longrightarrow> replays_to X e' = replays_to X e \<and> e_store e' = e_store e \<and> e_wal e' = e_wal e"
  by (auto simp: clock_now_def bind_eq_Some_conv replays_to_def)

lemma log_batch_store: "log_batch e ops = Some e' \<Longrightarrow> e_store e' = e_store e"
  by (auto simp: log_batch_def bind_eq_Some_conv)

lemma bop_simps [simp]: "b_op (bop op k v) = op" "b_key (bop op k v) = k" "b_value (bop op k v) = v"
  by (simp_all add: bop_def)

subsection \<open>Every request keeps the log in step\<close>

lemmas op_codes = op_code.simps

lemma put_replays:
  assumes "replays_to X e" and "engine_put X e key body uid = Some (r, e')"
    and "length key < 2 ^ 16" and "length (w_file (e_wal e')) < 2 ^ 32"
  shows "replays_to X e'"
proof (cases "can_write (s_creds (e_store e)) uid key")
  case False
  with assms show ?thesis by (simp add: engine_put_def)
next
  case True
  with assms(2) obtain now e1 where c: "clock_now e = Some (now, e1)"
    by (auto simp: engine_put_def bind_eq_Some_conv)
  note e1 = replays_to_clock [OF c, of X]
  show ?thesis
  proof (cases "meta_val X now False")
    case None
    with True assms(1,2) c e1 show ?thesis
      by (simp add: engine_put_def)
  next
    case (Some mv)
    let ?ops = "[bop PUT key body, bop PUT (meta_key_s key) mv]"
    from Some True assms(2) c obtain e2 where e2: "log_batch e1 ?ops = Some e2"
        "e' = e2\<lparr>e_store := apply_put X (apply_put X (e_store e2) key body) (meta_key_s key) mv\<rparr>"
      by (auto simp: engine_put_def bind_eq_Some_conv Let_def)
    have "replays_to X (e2\<lparr>e_store := apply_put X (apply_put X (e_store e1) key body) (meta_key_s key) mv\<rparr>)"
      using assms(1,3,4) e1 e2
      by (intro replays_to_batch [OF _ e2(1)]) (simp_all add: op_ops_def recover_op_def length_meta_key_s [simplified])
    then show ?thesis
      using e2 log_batch_store [OF e2(1)] by simp
  qed
qed

lemma del_replays:
  assumes "replays_to X e" and "engine_del X e key uid = Some (r, e')"
    and "length key < 2 ^ 16" and "length (w_file (e_wal e')) < 2 ^ 32"
  shows "replays_to X e'"
proof (cases "can_write (s_creds (e_store e)) uid key")
  case False
  with assms show ?thesis by (simp add: engine_del_def)
next
  case True
  with assms(2) obtain now e1 where c: "clock_now e = Some (now, e1)"
    by (auto simp: engine_del_def bind_eq_Some_conv)
  note e1 = replays_to_clock [OF c, of X]
  show ?thesis
  proof (cases "meta_val X now True")
    case None
    with True assms(1,2) c e1 show ?thesis
      by (simp add: engine_del_def)
  next
    case (Some mv)
    let ?ops = "[bop DELETE key [], bop PUT (meta_key_s key) mv]"
    from Some True assms(2) c obtain e2 where e2: "log_batch e1 ?ops = Some e2"
        "e' = e2\<lparr>e_store := apply_put X (snd (apply_del X (e_store e2) key)) (meta_key_s key) mv\<rparr>"
      by (auto simp: engine_del_def bind_eq_Some_conv Let_def split_def)
    have "replays_to X (e2\<lparr>e_store := apply_put X (snd (apply_del X (e_store e1) key)) (meta_key_s key) mv\<rparr>)"
      using assms(1,3,4) e1 e2
      by (intro replays_to_batch [OF _ e2(1)]) (simp_all add: op_ops_def recover_op_def length_meta_key_s [simplified])
    then show ?thesis
      using e2 log_batch_store [OF e2(1)] by simp
  qed
qed

lemma mutation_replays:
  assumes "replays_to X e" and "apply_mutation X e m = Some (r, e')"
    and "length (m_key m) < 2 ^ 16" and "length (w_file (e_wal e')) < 2 ^ 32"
  shows "replays_to X e'"
proof (cases "e' = e")
  case True
  with assms(1) show ?thesis by simp
next
  case False
  let ?mk = "meta_key_s (m_key m)"
  let ?o = "if m_is_delete m then bop DELETE (m_key m) [] else bop PUT (m_key m) (m_value m)"
  let ?f = "\<lambda>st. if m_is_delete m then snd (apply_del X st (m_key m)) else apply_put X st (m_key m) (m_value m)"
  from assms(2) False obtain mv e2 where e2: "log_batch e [?o, bop PUT ?mk mv] = Some e2"
      "e' = e2\<lparr>e_store := apply_put X (?f (e_store e2)) ?mk mv\<rparr>"
    by (auto simp: apply_mutation_def Let_def bind_eq_Some_conv split: option.splits if_splits)
  have "replays_to X (e2\<lparr>e_store := apply_put X (?f (e_store e)) ?mk mv\<rparr>)"
    using assms(1,3,4) e2
    by (intro replays_to_batch [OF _ e2(1)]) (simp_all add: op_ops_def recover_op_def length_meta_key_s [simplified])
  then show ?thesis
    unfolding e2(2) log_batch_store [OF e2(1)] .
qed

lemma colon: "bs '':'' @ s = 0x3A # s"
  by (simp add: bs_def byte_of_char_def)

lemma recover_patch_int:
  assumes "0x3A \<notin> set field" and "int64 val" and "apply_patch_int X st key field val = Some st'"
  shows "recover_op X (op_code PATCH_I64, key, field @ bs '':'' @ to_string val) st = st'"
  using assms unfolding colon by (simp add: recover_op_def stoll_to_string int64_def)

lemma recover_patch_str:
  assumes "0x3A \<notin> set field" and "apply_patch_str X st key field val = Some st'"
  shows "recover_op X (op_code PATCH_STR, key, field @ bs '':'' @ val) st = st'"
  using assms unfolding colon by (simp add: recover_op_def)

lemma patch_task_ok:
  "patch_task e f g = (Inr (), e') \<longleftrightarrow> (\<exists>st st'. f = Some st \<and> g st = Some st' \<and> e' = e\<lparr>e_store := st'\<rparr>)"
  by (auto simp: patch_task_def split: option.splits)

lemma patch_replays:
  assumes "replays_to X e" and c: "clock_now e = Some (now, e1)" and l: "log_batch e1 ops = Some e2"
    and ops: "ops = [bop op key p, bop PATCH_STR (meta_key_s key) (field @ bs '':'' @ ts_str now)]"
    and f: "0x3A \<notin> set field" and key: "length key < 2 ^ 16"
    and first: "\<And>st. first = Some st \<Longrightarrow> recover_op X (op_code op, key, p) (e_store e2) = st"
    and t: "patch_task e2 first (\<lambda>st. apply_patch_str X st (meta_key_s key) field (ts_str now)) = (Inr (), e')"
    and size: "length (w_file (e_wal e')) < 2 ^ 32"
  shows "replays_to X e'"
proof -
  from t obtain st1 st2 where st: "first = Some st1" "apply_patch_str X st1 (meta_key_s key) field (ts_str now) = Some st2"
      "e' = e2\<lparr>e_store := st2\<rparr>"
    unfolding patch_task_ok by blast
  note e1 = replays_to_clock [OF c, of X]
  have "recover_op X (op_code op, key, p) (e_store e1) = st1"
    using first st(1) log_batch_store [OF l] by simp
  then have "replays_to X (e2\<lparr>e_store := st2\<rparr>)"
    using assms(1) e1 size key st(3) recover_patch_str [OF f st(2)]
    by (intro replays_to_batch [OF _ l]) (simp_all add: ops op_ops_def length_meta_key_s [simplified])
  with st(3) show ?thesis
    by simp
qed

lemma exec_replays:
  assumes "replays_to X e" and "exec X e r = Some (o', e')" and "loggable r" and "o' \<noteq> Inl Lite3_Error"
    and "length (w_file (e_wal e')) < 2 ^ 32"
  shows "replays_to X e'"
proof (cases r)
  case (Put key body uid)
  with assms put_replays show ?thesis by auto
next
  case (Del key uid)
  with assms obtain o1 where "engine_del X e key uid = Some (o1, e')"
    by auto
  with Del assms del_replays show ?thesis by auto
next
  case (Mutate m)
  with assms mutation_replays show ?thesis by auto
next
  case (Patch_Int key field val)
  then have e: "patch_int X e key field val = Some (o', e')" "0x3A \<notin> set field" "int64 val" "length key < 2 ^ 16"
    using assms(2,3) by simp_all
  then obtain now e1 e2 where s: "clock_now e = Some (now, e1)"
      "log_batch e1 [bop PATCH_I64 key (field @ bs '':'' @ to_string val),
         bop PATCH_STR (meta_key_s key) (field @ bs '':'' @ ts_str now)] = Some e2"
      "patch_task e2 (apply_patch_int X (e_store e2) key field val)
         (\<lambda>st. apply_patch_str X st (meta_key_s key) field (ts_str now)) = (o', e')"
    by (auto simp: patch_int_def bind_eq_Some_conv Let_def)
  then have "o' = Inr ()"
    using assms(4) by (auto simp: patch_task_def split: option.splits)
  with s patch_replays [OF assms(1) s(1,2) refl e(2,4)] recover_patch_int [OF e(2,3)] assms(5) show ?thesis
    by blast
next
  case (Patch_Str key field val)
  then have e: "patch_str X e key field val = Some (o', e')" "0x3A \<notin> set field" "length key < 2 ^ 16"
    using assms(2,3) by simp_all
  then obtain now e1 e2 where s: "clock_now e = Some (now, e1)"
      "log_batch e1 [bop PATCH_STR key (field @ bs '':'' @ val),
         bop PATCH_STR (meta_key_s key) (field @ bs '':'' @ ts_str now)] = Some e2"
      "patch_task e2 (apply_patch_str X (e_store e2) key field val)
         (\<lambda>st. apply_patch_str X st (meta_key_s key) field (ts_str now)) = (o', e')"
    by (auto simp: patch_str_def bind_eq_Some_conv Let_def)
  then have "o' = Inr ()"
    using assms(4) by (auto simp: patch_task_def split: option.splits)
  with s patch_replays [OF assms(1) s(1,2) refl e(2,3)] recover_patch_str [OF e(2)] assms(5) show ?thesis
    by blast
qed

text \<open>The log only grows, so a bound on the final log bounds every log before it.\<close>

definition log_ready :: "engine \<Rightarrow> bool" where
  "log_ready e \<longleftrightarrow> at_end (e_wal e) \<and> no_error (e_io e)"

definition log_le :: "engine \<Rightarrow> engine \<Rightarrow> bool" where
  "log_le e e' \<longleftrightarrow> log_ready e' \<and> length (w_file (e_wal e)) \<le> length (w_file (e_wal e'))"

lemma log_le_refl [simp]: "log_ready e \<Longrightarrow> log_le e e"
  by (simp add: log_le_def)

lemma log_le_store [simp]: "log_le e (e'\<lparr>e_store := st\<rparr>) = log_le e e'"
  by (simp add: log_le_def log_ready_def)

lemma log_le_trans: "log_le e e1 \<Longrightarrow> log_le e1 e2 \<Longrightarrow> log_le e e2"
  by (auto simp: log_le_def)

lemma clock_now_le: "clock_now e = Some (now, e') \<Longrightarrow> log_ready e \<Longrightarrow> log_le e e'"
  by (auto simp: clock_now_def bind_eq_Some_conv log_le_def log_ready_def)

lemma log_batch_le: "log_batch e ops = Some e' \<Longrightarrow> log_ready e \<Longrightarrow> log_le e e'"
proof (cases "ops = []")
  case True
  then show "log_batch e ops = Some e' \<Longrightarrow> log_ready e \<Longrightarrow> log_le e e'"
    by (auto simp: log_batch_def append_batch_def)
next
  case False
  then show "log_batch e ops = Some e' \<Longrightarrow> log_ready e \<Longrightarrow> log_le e e'"
    using log_batch_file [of e ops e'] by (auto simp: log_le_def log_ready_def)
qed

lemma clock_log_le:
  "clock_now e = Some (now, e1) \<Longrightarrow> log_batch e1 ops = Some e2 \<Longrightarrow> log_ready e \<Longrightarrow> log_le e e2"
  using clock_now_le [of e now e1] log_batch_le [of e1 ops e2] log_le_trans by (auto simp: log_le_def)

lemma patch_task_le: "log_le e0 e \<Longrightarrow> patch_task e f g = (o', e') \<Longrightarrow> log_le e0 e'"
  by (auto simp: patch_task_def split: option.splits)

lemma exec_le:
  assumes "log_ready e" and "exec X e r = Some (o', e')"
  shows "log_le e e'"
proof (cases r)
  case (Put key body uid)
  with assms show ?thesis
    by (auto simp: engine_put_def bind_eq_Some_conv Let_def split: if_splits option.splits)
       (metis clock_now_le clock_log_le)+
next
  case (Del key uid)
  with assms show ?thesis
    by (auto simp: engine_del_def bind_eq_Some_conv Let_def split_def split: if_splits option.splits)
       (metis clock_now_le clock_log_le)+
next
  case (Mutate m)
  with assms show ?thesis
    by (auto simp: apply_mutation_def bind_eq_Some_conv Let_def split: if_splits option.splits
        intro: log_batch_le)
next
  case (Patch_Int key field val)
  with assms show ?thesis
    by (auto simp: patch_int_def bind_eq_Some_conv Let_def) (metis patch_task_le clock_log_le)
next
  case (Patch_Str key field val)
  with assms show ?thesis
    by (auto simp: patch_str_def bind_eq_Some_conv Let_def) (metis patch_task_le clock_log_le)
qed

lemma run_le: "log_ready e \<Longrightarrow> run X e rs = Some (os, e') \<Longrightarrow> log_le e e'"
proof (induction rs arbitrary: e os)
  case (Cons r rs)
  then obtain o1 e1 os1 where s: "exec X e r = Some (o1, e1)" "run X e1 rs = Some (os1, e')"
    by (auto simp: bind_eq_Some_conv)
  then have "log_le e e1"
    using Cons(2) exec_le by blast
  moreover from this s(2) Cons.IH have "log_le e1 e'"
    by (auto simp: log_le_def)
  ultimately show ?case
    by (rule log_le_trans)
qed simp

lemma run_replays:
  "replays_to X e \<Longrightarrow> run X e rs = Some (os, e') \<Longrightarrow> \<forall>r \<in> set rs. loggable r \<Longrightarrow>
   Inl Lite3_Error \<notin> set os \<Longrightarrow> length (w_file (e_wal e')) < 2 ^ 32 \<Longrightarrow> replays_to X e'"
proof (induction rs arbitrary: e os)
  case (Cons r rs)
  then obtain o1 e1 os1 where s: "exec X e r = Some (o1, e1)" "run X e1 rs = Some (os1, e')" "os = o1 # os1"
    by (auto simp: bind_eq_Some_conv)
  have "log_ready e"
    using Cons(2) by (simp add: replays_to_def log_ready_def)
  then have "log_le e1 e'"
    using exec_le [OF _ s(1)] run_le [OF _ s(2)] by (simp add: log_le_def)
  then have "replays_to X e1"
    using exec_replays [OF Cons(2) s(1)] Cons(4-6) s(3) by (auto simp: log_le_def)
  with Cons s show ?case
    by auto
qed simp

subsection \<open>Recovery restores the store\<close>

lemma open_store:
  "e_store (engine_open X bad file node ph io) = replay X (fst (recover bad (wal_open file)))"
  by (simp add: engine_open_def split_def Let_def)

lemma open_torn:
  assumes "\<forall>en \<in> set es. entry_ok en" and "wl.torn t"
  shows "e_store (engine_open X no_fail (wal_log es @ t) node ph io) = replay X (concat (map entry_ops es))"
  using recover_torn [OF assms] by (auto simp: open_store)

lemma replays_to_open:
  assumes "replays_to X e"
  shows "e_store (engine_open X no_fail (w_file (e_wal e)) node ph io) = e_store e"
proof -
  from assms obtain es where "\<forall>en \<in> set es. entry_ok en" "w_file (e_wal e) = wal_log es"
      "e_store e = replay X (concat (map entry_ops es))"
    by (auto simp: replays_to_def)
  then show ?thesis
    using open_torn [of es "[]"] by (simp add: wl.torn_def)
qed

lemma replays_to_fresh: "no_error io \<Longrightarrow> replays_to X (engine_open X no_fail [] node ph io)"
  by (auto simp: replays_to_def engine_open_def recover_def wal_open_def wal_log_def intro!: exI [of _ "[]"])

text \<open>C1. Recovery rebuilds the store exactly: after any run of puts, patches, deletes and replicated
  mutations on a fresh engine, with no I/O error, reopening the log gives an engine with the very same shards,
  hash tree, compression dictionary and credentials. The code does not check what this
  needs: keys below 64 KiB, field names without a colon, patches that do not throw, a log below 4 GiB.\<close>

theorem recovery_restores_store:
  assumes "run X (engine_open X no_fail [] node ph io) rs = Some (os, e)" and "no_error io"
    and "\<forall>r \<in> set rs. loggable r" and "Inl Lite3_Error \<notin> set os" and "length (w_file (e_wal e)) < 2 ^ 32"
  shows "e_store (engine_open X no_fail (w_file (e_wal e)) node' ph' io') = e_store e"
  using run_replays [OF replays_to_fresh [OF assms(2)] assms(1,3-5)] by (rule replays_to_open)

definition unchanged :: "engine \<Rightarrow> engine \<Rightarrow> bool" where
  "unchanged e e' \<longleftrightarrow> e_wal e' = e_wal e \<and> e_store e' = e_store e"

definition appended_to :: "engine \<Rightarrow> engine \<Rightarrow> bool" where
  "appended_to e e' \<longleftrightarrow> (\<exists>ops. ops \<noteq> [] \<and> w_file (e_wal e') = w_file (e_wal e) @ batch_image ops)"

lemma unchanged_refl [simp]: "unchanged e e"
  by (simp add: unchanged_def)

lemma appended_to_store [simp]: "appended_to e (e'\<lparr>e_store := st\<rparr>) = appended_to e e'"
  by (simp add: appended_to_def)

lemma clock_unchanged: "clock_now e = Some (now, e') \<Longrightarrow> unchanged e e'"
  by (auto simp: clock_now_def bind_eq_Some_conv unchanged_def)

lemma log_appended: "log_batch e (o' # ops) = Some e' \<Longrightarrow> log_ready e \<Longrightarrow> appended_to e e'"
  using log_batch_file [of e "o' # ops" e'] by (auto simp: appended_to_def log_ready_def)

lemma clock_log_appended:
  "clock_now e = Some (now, e1) \<Longrightarrow> log_batch e1 (o' # ops) = Some e2 \<Longrightarrow> log_ready e \<Longrightarrow> appended_to e e2"
  using log_appended [of e1 o' ops e2] clock_now_le [of e now e1] clock_unchanged [of e now e1]
  by (auto simp: appended_to_def log_le_def unchanged_def)

lemma patch_task_appended: "appended_to e0 e \<Longrightarrow> patch_task e f g = (o', e') \<Longrightarrow> appended_to e0 e'"
  by (auto simp: patch_task_def split: option.splits)

lemma exec_appends:
  assumes "log_ready e" and "exec X e r = Some (o', e')"
  shows "unchanged e e' \<or> appended_to e e'"
proof (cases r)
  case (Put key body uid)
  with assms show ?thesis
    by (auto simp: engine_put_def bind_eq_Some_conv Let_def split: if_splits option.splits)
       (metis clock_unchanged clock_log_appended)+
next
  case (Del key uid)
  with assms show ?thesis
    by (auto simp: engine_del_def bind_eq_Some_conv Let_def split_def split: if_splits option.splits)
       (metis clock_unchanged clock_log_appended)+
next
  case (Mutate m)
  with assms show ?thesis
    by (auto simp: apply_mutation_def bind_eq_Some_conv Let_def split: if_splits option.splits)
       (metis log_appended)+
next
  case (Patch_Int key field val)
  with assms show ?thesis
    by (auto simp: patch_int_def bind_eq_Some_conv Let_def) (metis patch_task_appended clock_log_appended)
next
  case (Patch_Str key field val)
  with assms show ?thesis
    by (auto simp: patch_str_def bind_eq_Some_conv Let_def) (metis patch_task_appended clock_log_appended)
qed

text \<open>C3. A request is atomic with respect to crashes: if the process dies while the record of a request is being
  written, at whatever byte, the reopened engine has either the store from before the request or the store
  after it; a value and its metadata never come apart.\<close>

theorem request_crash_atomic:
  assumes "run X (engine_open X no_fail [] node ph io) rs = Some (os, e)" and "no_error io"
    and "\<forall>r \<in> set (rs @ [r]). loggable r" and "Inl Lite3_Error \<notin> set (os @ [o'])"
    and "exec X e r = Some (o', e')" and "length (w_file (e_wal e')) < 2 ^ 32"
    and "length (w_file (e_wal e)) \<le> n"
  shows "e_store (engine_open X no_fail (take n (w_file (e_wal e'))) node' ph' io') \<in> {e_store e, e_store e'}"
proof -
  have ready: "log_ready e"
    using run_le [OF _ assms(1)] replays_to_fresh [OF assms(2), of X node ph]
    by (auto simp: log_le_def log_ready_def replays_to_def)
  then have le: "length (w_file (e_wal e)) < 2 ^ 32"
    using exec_le [OF ready assms(5)] assms(6) by (simp add: log_le_def)
  have re: "replays_to X e"
    using run_replays [OF replays_to_fresh [OF assms(2)] assms(1) _ _ le] assms(3,4) by simp
  have re': "replays_to X e'"
    using exec_replays [OF re assms(5) _ _ assms(6)] assms(3,4) by auto
  show ?thesis
  proof (cases "length (w_file (e_wal e')) \<le> n")
    case True
    then show ?thesis
      using replays_to_open [OF re'] by simp
  next
    case False
    with exec_appends [OF ready assms(5)] assms(7) obtain ops where
      ops: "ops \<noteq> []" "w_file (e_wal e') = w_file (e_wal e) @ batch_image ops"
      by (auto simp: unchanged_def appended_to_def)
    let ?k = "n - length (w_file (e_wal e))"
    have k: "?k < length (batch_image ops)"
      using False ops(2) assms(7) by auto
    have "batch_payload_size ops < 2 ^ 32"
      using assms(6) ops(2) by (simp add: length_batch_image)
    then have ok: "entry_ok (Batched ops)"
      using ops(1) by simp
    have "strict_prefix (take ?k (entry_image (Batched ops))) (entry_image (Batched ops))"
      using k by (auto simp: strict_prefix_def take_is_prefix)
    then have torn: "wl.torn (take ?k (batch_image ops))"
      using ok by (auto simp: wl.torn_def simp del: entry_ok.simps)
    from re obtain es where es: "\<forall>en \<in> set es. entry_ok en" "w_file (e_wal e) = wal_log es"
        "e_store e = replay X (concat (map entry_ops es))"
      by (auto simp: replays_to_def)
    have "take n (w_file (e_wal e')) = wal_log es @ take ?k (batch_image ops)"
      using assms(7) by (simp add: ops(2) es(2) [symmetric])
    with open_torn [OF es(1) torn] es(3) show ?thesis
      by simp
  qed
qed

subsection \<open>A small run\<close>

definition sample_engine :: engine where
  "sample_engine = engine_open demo no_fail [] 1 [5, 6] [Wrote 1000, Wrote 1000]"

definition sample_meta :: bytes where
  "sample_meta = the (meta_val demo (Timestamp 5 0 1) False)"

lemma demo_setters: "set_i64 demo = (\<lambda>b k v. demo_set 0 b k (enc_u64 (word_of_int v)))"
  "set_bool demo = (\<lambda>b k t. demo_set 2 b k (if t then [1] else [0]))" "init_object demo = [6]"
  "set_str demo = demo_set 1"
  by (simp_all add: demo_def)

lemma sample_meta_eval:
  "meta_val demo (Timestamp 5 0 1) False = Some sample_meta" "length sample_meta < 100"
proof -
  have "\<exists>b. meta_val demo (Timestamp 5 0 1) False = Some b \<and> length b < 100"
    by (simp add: meta_val_def demo_setters demo_set_def put_field_def put_string_def codec_simps)
  then show "meta_val demo (Timestamp 5 0 1) False = Some sample_meta" "length sample_meta < 100"
    by (auto simp: sample_meta_def)
qed

lemma sample_clock:
  "clock_now sample_engine = Some (Timestamp 5 0 1, sample_engine\<lparr>e_clock := (e_clock sample_engine)\<lparr>max_wall_time := 5\<rparr>, e_phys := [6]\<rparr>)"
  by (simp add: clock_now_def sample_engine_def engine_open_def recover_def wal_open_def hlc_now_def hlc_init_def hlc_ts_def)

lemma log_batch_returns:
  assumes "e_io e = Wrote n # io" and "length (batch_image ops) \<le> n" and "at_end (e_wal e)" and "ops \<noteq> []"
  shows "\<exists>e'. log_batch e ops = Some e' \<and> w_file (e_wal e') = w_file (e_wal e) @ batch_image ops \<and>
    at_end (e_wal e') \<and> e_io e' = io \<and> e_store e' = e_store e \<and> e_clock e' = e_clock e \<and> e_phys e' = e_phys e"
proof -
  obtain d ds where d: "batch_image ops = d # ds"
    using length_batch_image [of ops] by (cases "batch_image ops") auto
  then show ?thesis
    using assms sys_put_end [of "e_wal e" "batch_image ops"]
    by (auto simp: log_batch_def append_batch_def write_raw_def)
qed

lemma admin_can_write [simp]: "can_write c ADMIN_UID k"
  by (simp add: can_write_def check_permission_def perm_and_def ADMIN_def)

definition sample_store :: store where
  "sample_store = apply_put demo (apply_put demo (store_init demo) (bs ''k'') (bs ''v'')) (meta_key_s (bs ''k'')) sample_meta"

lemma sample_put_full:
  "\<exists>e. run demo sample_engine [Put (bs ''k'') (bs ''v'') ADMIN_UID] = Some ([Inr ()], e) \<and>
     length (w_file (e_wal e)) < 1000 \<and> at_end (e_wal e) \<and> e_store e = sample_store \<and>
     e_io e = [Wrote 1000] \<and> e_phys e = [6] \<and> max_wall_time (e_clock e) = 5 \<and> hlc_node (e_clock e) = 1"
proof -
  let ?e = "sample_engine\<lparr>e_clock := (e_clock sample_engine)\<lparr>max_wall_time := 5\<rparr>, e_phys := [6]\<rparr>"
  let ?ops = "[bop PUT (bs ''k'') (bs ''v''), bop PUT (meta_key_s (bs ''k'')) sample_meta]"
  have s: "batch_payload_size ?ops < 900"
    using sample_meta_eval(2)
    by (simp add: batch_payload_size_def meta_key_s_def meta_text_def c_str_def MAX_KEY_SIZE_def)
  have i: "e_io ?e = Wrote 1000 # [Wrote 1000]" "at_end (e_wal ?e)" "w_file (e_wal ?e) = []"
    "e_store ?e = store_init demo" "e_phys ?e = [6]" "max_wall_time (e_clock ?e) = 5" "hlc_node (e_clock ?e) = 1"
    by (simp_all add: sample_engine_def engine_open_def recover_def wal_open_def replay_def hlc_init_def)
  obtain e' where e': "log_batch ?e ?ops = Some e'" "w_file (e_wal e') = batch_image ?ops" "at_end (e_wal e')"
      "e_io e' = [Wrote 1000]" "e_store e' = e_store ?e" "e_clock e' = e_clock ?e" "e_phys e' = e_phys ?e"
    using log_batch_returns [OF i(1) _ i(2), of ?ops] s i(3) by (auto simp: length_batch_image)
  from i(4-7) e'(5-7) have "e_store e' = store_init demo" "e_phys e' = [6]" "max_wall_time (e_clock e') = 5"
      "hlc_node (e_clock e') = 1"
    by simp_all
  then show ?thesis
    using e'(1-4) s by (simp add: engine_put_def sample_clock sample_meta_eval length_batch_image sample_store_def)
qed

lemma sample_put:
  "\<exists>e. run demo sample_engine [Put (bs ''k'') (bs ''v'') ADMIN_UID] = Some ([Inr ()], e) \<and>
     length (w_file (e_wal e)) < 1000"
  using sample_put_full by blast

theorem recovery_restores_store_witness:
  "\<exists>e. run demo sample_engine [Put (bs ''k'') (bs ''v'') ADMIN_UID] = Some ([Inr ()], e) \<and>
     e_store (engine_open demo no_fail (w_file (e_wal e)) 2 [] []) = e_store e"
proof -
  obtain e where e: "run demo sample_engine [Put (bs ''k'') (bs ''v'') ADMIN_UID] = Some ([Inr ()], e)"
      "length (w_file (e_wal e)) < 1000"
    using sample_put by blast
  then have "length (w_file (e_wal e)) < 2 ^ 32"
    by simp
  from recovery_restores_store [OF e(1) [unfolded sample_engine_def] _ _ _ this] e(1) show ?thesis
    by auto
qed

theorem request_crash_atomic_witness:
  "\<exists>e'. exec demo sample_engine (Put (bs ''k'') (bs ''v'') ADMIN_UID) = Some (Inr (), e') \<and>
     e_store (engine_open demo no_fail (take 3 (w_file (e_wal e'))) 1 [] []) \<in> {e_store sample_engine, e_store e'}"
proof -
  let ?r = "Put (bs ''k'') (bs ''v'') ADMIN_UID"
  obtain e' where e': "exec demo sample_engine ?r = Some (Inr (), e')" "length (w_file (e_wal e')) < 1000"
    using sample_put by (auto simp: bind_eq_Some_conv simp del: exec.simps)
  have r: "run demo (engine_open demo no_fail [] 1 [5, 6] [Wrote 1000, Wrote 1000]) [] = Some ([], sample_engine)"
    by (simp add: sample_engine_def)
  have "length (w_file (e_wal sample_engine)) \<le> 3" "length (w_file (e_wal e')) < 2 ^ 32"
    using e'(2) by (simp_all add: sample_engine_def engine_open_def recover_def wal_open_def)
  from request_crash_atomic [OF r _ _ _ e'(1) this(2,1)] e'(1) show ?thesis
    by auto
qed

subsection \<open>Where replay and memory part\<close>

lemma log_batch_open:
  assumes "replays_to X e" and "log_batch e ops = Some e'" and "ops \<noteq> []"
    and "\<forall>o' \<in> set ops. length (b_key o') < 2 ^ 16" and "length (w_file (e_wal e')) < 2 ^ 32"
  shows "e_store (engine_open X no_fail (w_file (e_wal e')) node ph io) = fold (recover_op X) (op_ops ops) (e_store e)"
  using replays_to_open [OF replays_to_batch [OF assms refl]] by simp

text \<open>A patch that throws is not undone in the log: when the value of the key is not an object, so that
  setting the field throws, the live store is left as it was, but the record is already written, and
  recovery skips the failed half and applies the other one, the patch of the metadata.\<close>

theorem failed_patch_replayed:
  assumes "run X (engine_open X no_fail [] node ph io) rs = Some (os, e)" and "no_error io"
    and "\<forall>r \<in> set rs. loggable r" and "Inl Lite3_Error \<notin> set os"
    and "loggable (Patch_Int key field val)" and "clock_now e = Some (now, e1)"
    and "apply_patch_int X (e_store e) key field val = None"
    and "apply_patch_str X (e_store e) (meta_key_s key) field (ts_str now) = Some st"
    and "patch_int X e key field val = Some (o', e')" and "length (w_file (e_wal e')) < 2 ^ 32"
  shows "o' = Inl Lite3_Error \<and> e_store e' = e_store e \<and>
    e_store (engine_open X no_fail (w_file (e_wal e')) node' ph' io') = st"
proof -
  let ?ops = "[bop PATCH_I64 key (field @ bs '':'' @ to_string val),
    bop PATCH_STR (meta_key_s key) (field @ bs '':'' @ ts_str now)]"
  have f: "0x3A \<notin> set field" "int64 val" "length key < 2 ^ 16"
    using assms(5) by simp_all
  have c: "replays_to X e1 = replays_to X e" "e_store e1 = e_store e" "e_wal e1 = e_wal e"
    using replays_to_clock [OF assms(6), of X] by simp_all
  from assms(9,6) obtain e2 where e2: "log_batch e1 ?ops = Some e2"
      "patch_task e2 (apply_patch_int X (e_store e2) key field val)
         (\<lambda>st. apply_patch_str X st (meta_key_s key) field (ts_str now)) = (o', e')"
    by (auto simp: patch_int_def bind_eq_Some_conv Let_def)
  have e': "o' = Inl Lite3_Error" "e' = e2"
    using e2 assms(7) log_batch_store [OF e2(1)] c(2) by (auto simp: patch_task_def)
  have "log_ready e"
    using run_le [OF _ assms(1)] replays_to_fresh [OF assms(2), of X node ph]
    by (auto simp: log_le_def log_ready_def replays_to_def)
  then have "log_le e e2"
    using clock_log_le [OF assms(6) e2(1)] by blast
  then have "replays_to X e1"
    unfolding c(1) using run_replays [OF replays_to_fresh [OF assms(2)] assms(1,3,4)] assms(10) e'(2)
    by (simp add: log_le_def)
  then have "e_store (engine_open X no_fail (w_file (e_wal e2)) node' ph' io') = fold (recover_op X) (op_ops ?ops) (e_store e1)"
    using f(3) assms(10) e'(2)
    by (intro log_batch_open [OF _ e2(1)]) (simp_all add: length_meta_key_s [simplified])
  moreover have "recover_op X (op_code PATCH_I64, key, field @ bs '':'' @ to_string val) (e_store e) = e_store e"
    using f assms(7) unfolding colon by (simp add: recover_op_def stoll_to_string int64_def)
  moreover note recover_patch_str [OF f(1) assms(8)]
  ultimately show ?thesis
    using e' c(2) log_batch_store [OF e2(1)] by (simp add: op_ops_def)
qed

lemma patch_throws:
  assumes "ext_laws X" and "store_inv X st"
  shows "apply_patch_int X st key field val = None \<longleftrightarrow> set_i64 X (patch_input X st key) field val = None"
    and "apply_patch_str X st key field s = None \<longleftrightarrow> set_str X (patch_input X st key) field s = None"
  using assms
  by (simp_all add: apply_patch_int_def apply_patch_str_def blob_set_alt patch_base_value ext_laws_def store_inv_def)

lemma sample_meta_object: "lite3_object demo sample_meta"
  using sample_meta_eval(1) by (rule meta_val_object)

lemma sample_meta_head: "hd sample_meta = 6" "sample_meta \<noteq> []"
  using sample_meta_object demo_lite3_laws by (simp_all add: lite3_laws_def)

lemma demo_set_object: "lite3_object demo b \<Longrightarrow> demo_set t b k v \<noteq> None"
  by (drule demo_object) (auto simp: demo_set_def)

lemma stored_form_binary: "b \<noteq> [] \<Longrightarrow> hd b \<notin> set [0x20, 9, 13, 10, 0x7B, 0x5B] \<Longrightarrow> stored_form X b = b"
  by (cases b) (auto simp: stored_form_def is_json_payload_def)

lemma sample_store_values:
  "store_inv demo sample_store" "value_at demo sample_store (bs ''k'') = Some (bs ''v'')"
  "value_at demo sample_store (meta_key_s (bs ''k'')) = Some sample_meta"
proof -
  note demo_ext_laws [simp]
  have v: "stored_form demo (bs ''v'') = bs ''v''" "stored_form demo sample_meta = sample_meta"
    using sample_meta_head by (simp_all add: stored_form_binary bs_def byte_of_char_def)
  then have f: "fits demo (bs ''v'')" "fits demo sample_meta"
    using sample_meta_eval(2) by (simp_all add: fits_def)
  have i0: "store_inv demo (store_init demo)"
    using demo_ext_laws by (intro store_inv_init) (simp add: ext_laws_def)
  note i1 = store_inv_put [OF demo_ext_laws i0 f(1), of "bs ''k''"]
  show "store_inv demo sample_store"
    unfolding sample_store_def by (rule store_inv_put [OF demo_ext_laws i1 f(2)])
  show "value_at demo sample_store (bs ''k'') = Some (bs ''v'')"
    "value_at demo sample_store (meta_key_s (bs ''k'')) = Some sample_meta"
    unfolding sample_store_def value_at_put [OF demo_ext_laws i1 f(2)] value_at_put [OF demo_ext_laws i0 f(1)]
    using meta_key_s_neq [of "bs ''k''"] v by auto
qed

theorem failed_patch_replayed_witness:
  "\<exists>e e' st. run demo sample_engine [Put (bs ''k'') (bs ''v'') ADMIN_UID] = Some ([Inr ()], e) \<and>
     patch_int demo e (bs ''k'') (bs ''f'') 1 = Some (Inl Lite3_Error, e') \<and> e_store e' = e_store e \<and>
     e_store (engine_open demo no_fail (w_file (e_wal e')) 1 [] []) = st \<and>
     apply_patch_str demo (e_store e) (meta_key_s (bs ''k'')) (bs ''f'') (ts_str (Timestamp 6 0 1)) = Some st"
proof -
  obtain e where e: "run demo sample_engine [Put (bs ''k'') (bs ''v'') ADMIN_UID] = Some ([Inr ()], e)"
     "length (w_file (e_wal e)) < 1000" "at_end (e_wal e)" "e_store e = sample_store"
     "e_io e = [Wrote 1000]" "e_phys e = [6]" "max_wall_time (e_clock e) = 5" "hlc_node (e_clock e) = 1"
    using sample_put_full by blast
  obtain e1 where c: "clock_now e = Some (Timestamp 6 0 1, e1)" "e_wal e1 = e_wal e" "e_io e1 = e_io e" "e_store e1 = e_store e"
    using e(6-8) by (simp add: clock_now_def hlc_now_def hlc_ts_def)
  note laws = demo_ext_laws sample_store_values(1)
  have n: "apply_patch_int demo (e_store e) (bs ''k'') (bs ''f'') 1 = None"
    unfolding e(4) patch_throws(1) [OF laws] patch_input_def sample_store_values
    by (simp add: patch_start_def demo_setters demo_set_def bs_def byte_of_char_def)
  have "apply_patch_str demo (e_store e) (meta_key_s (bs ''k'')) (bs ''f'') (ts_str (Timestamp 6 0 1)) \<noteq> None"
    unfolding e(4) patch_throws(2) [OF laws] patch_input_def sample_store_values
    using demo_set_object [OF sample_meta_object] sample_meta_head(2) by (simp add: patch_start_def demo_setters)
  then obtain st where st: "apply_patch_str demo (e_store e) (meta_key_s (bs ''k'')) (bs ''f'') (ts_str (Timestamp 6 0 1)) = Some st"
    by auto
  let ?ops = "[bop PATCH_I64 (bs ''k'') (bs ''f'' @ bs '':'' @ to_string 1),
    bop PATCH_STR (meta_key_s (bs ''k'')) (bs ''f'' @ bs '':'' @ ts_str (Timestamp 6 0 1))]"
  have s: "batch_payload_size ?ops < 900"
    by (simp add: batch_payload_size_def meta_key_s_def meta_text_def c_str_def MAX_KEY_SIZE_def ts_str_def
        to_string_def dec_nat.simps)
  obtain e2 where e2: "log_batch e1 ?ops = Some e2" "w_file (e_wal e2) = w_file (e_wal e) @ batch_image ?ops"
    using log_batch_returns [of e1 1000 "[]" ?ops] s e(3,5) c by (auto simp: length_batch_image)
  have l: "length (w_file (e_wal e2)) < 2 ^ 32"
    using e(2) s by (simp add: e2(2) length_batch_image)
  have p: "patch_int demo e (bs ''k'') (bs ''f'') 1 = Some (Inl Lite3_Error, e2)"
    using e2(1) n c log_batch_store [OF e2(1)] by (simp add: patch_int_def patch_task_def)
  have "loggable (Patch_Int (bs ''k'') (bs ''f'') 1)"
    by (simp add: int64_def bs_def byte_of_char_def)
  from failed_patch_replayed [OF e(1) [unfolded sample_engine_def] _ _ _ this c(1) n st p l] e(1) p st
  show ?thesis
    by auto
qed

end
