(* ===== verification/Engine_Concurrency.thy ===== *)
theory Engine_Concurrency
  imports Engine_Recovery
begin

text \<open>
  Puts from several threads. A put logs its record and then submits its two map writes to a core thread; between the
  two, and between the two writes, other threads run. The steps of this theory are those of \<open>put\<close>, cut
  where the source releases its locks; the permission check, the timestamp and the log write before the
  first cut are taken as one step.
\<close>

subsection \<open>A put in two parts\<close>

definition put_begin ::
    "ext \<Rightarrow> engine \<Rightarrow> bytes \<Rightarrow> bytes \<Rightarrow> u32 \<Rightarrow> ((engine_error + (bytes \<times> bytes) list) \<times> engine) option" where
  "put_begin X e key json_body principal_id =
     (if \<not> can_write (s_creds (e_store e)) principal_id key then Some (Inl (Unauthorized key), e)
      else do {
        (now, e) \<leftarrow> clock_now e;
        let mkey_s = meta_key_s key;
        (case meta_val X now False of
           None \<Rightarrow> Some (Inl Lite3_Error, e)
         | Some mv \<Rightarrow> do {
             e \<leftarrow> log_batch e [bop PUT key json_body, bop PUT mkey_s mv];
             Some (Inr [(key, json_body), (mkey_s, mv)], e)
           })
      })"

definition apply_write :: "ext \<Rightarrow> bytes \<times> bytes \<Rightarrow> engine \<Rightarrow> engine" where
  "apply_write X w e = e\<lparr>e_store := apply_put X (e_store e) (fst w) (snd w)\<rparr>"

lemma engine_put_parts:
  "engine_put X e key body uid =
     do {
       (r, e) \<leftarrow> put_begin X e key body uid;
       Some (case r of Inl err \<Rightarrow> (Inl err, e) | Inr ws \<Rightarrow> (Inr (), fold (apply_write X) ws e))
     }"
  by (simp add: engine_put_def put_begin_def apply_write_def Let_def bind_eq_Some_conv split: option.splits)
     (auto simp: Let_def apply_write_def split: option.splits intro!: Option.bind_cong)

subsection \<open>Interleavings\<close>

text \<open>
  The state is the engine and the map writes of the puts in flight, one list per put. With the flag \<open>excl\<close> a put
  starts only when no write to its two keys is in flight.
\<close>

type_synonym flight = "engine \<times> (bytes \<times> bytes) list list"

inductive conc_step :: "ext \<Rightarrow> bool \<Rightarrow> flight \<Rightarrow> flight \<Rightarrow> bool" for X excl where
  Begin: "put_begin X e key body uid = Some (Inr ws, e') \<Longrightarrow> length key < 2 ^ 16 \<Longrightarrow>
    \<forall>w \<in> set ws. fits X (snd w) \<Longrightarrow>
    excl \<longrightarrow> fst ` set ws \<inter> fst ` set (concat ts) = {} \<Longrightarrow>
    conc_step X excl (e, ts) (e', ws # ts)"
| Apply: "conc_step X excl (e, ts @ (w # ws) # us) (apply_write X w e, ts @ ws # us)"

inductive conc_reachable :: "ext \<Rightarrow> bool \<Rightarrow> engine \<Rightarrow> flight \<Rightarrow> bool" for X excl e0 where
  Start: "conc_reachable X excl e0 (e0, [])"
| Step: "conc_reachable X excl e0 s \<Longrightarrow> conc_step X excl s s' \<Longrightarrow> conc_reachable X excl e0 s'"

definition covers :: "ext \<Rightarrow> engine \<Rightarrow> (bytes \<times> bytes) list \<Rightarrow> store \<Rightarrow> bool" where
  "covers X e ws st \<longleftrightarrow>
     store_inv X st \<and>
     (\<forall>k. value_at X st k =
        (case map_of ws k of None \<Rightarrow> value_at X (e_store e) k | Some v \<Rightarrow> Some (stored_form X v)))"

definition conc_inv :: "ext \<Rightarrow> flight \<Rightarrow> bool" where
  "conc_inv X s \<longleftrightarrow>
     (case s of (e, ts) \<Rightarrow>
        log_ready e \<and> store_inv X (e_store e) \<and> distinct (map fst (concat ts)) \<and>
        (\<forall>w \<in> set (concat ts). fits X (snd w)) \<and>
        (length (w_file (e_wal e)) < 2 ^ 32 \<longrightarrow>
           (\<exists>es. (\<forall>en \<in> set es. entry_ok en) \<and> w_file (e_wal e) = wal_log es \<and>
                 covers X e (concat ts) (replay X (concat (map entry_ops es))))))"

lemma put_begin_logs:
  assumes "put_begin X e key body uid = Some (Inr ws, e')"
  obtains now e1 mv where "clock_now e = Some (now, e1)" "ws = [(key, body), (meta_key_s key, mv)]"
    "log_batch e1 [bop PUT key body, bop PUT (meta_key_s key) mv] = Some e'"
  using assms by (auto simp: put_begin_def bind_eq_Some_conv Let_def split: if_splits option.splits)

lemma covers_put:
  assumes "ext_laws X" and "covers X e ws st" and "fits X v" and "k \<notin> fst ` set ws"
  shows "covers X e ((k, v) # ws) (apply_put X st k v)"
  using assms by (auto simp: covers_def store_inv_put value_at_put)

lemma covers_store:
  assumes "e_store e' = e_store e"
  shows "covers X e' ws st = covers X e ws st"
  unfolding covers_def assms ..

lemma covers_swap:
  assumes "covers X e (a # b # ws) st" and "fst a \<noteq> fst b"
  shows "covers X e (b # a # ws) st"
proof -
  have "map_of (b # a # ws) = map_of (a # b # ws)"
    using assms(2) by (cases a; cases b) (auto simp: fun_upd_twist)
  with assms(1) show ?thesis
    unfolding covers_def by simp
qed

lemma map_of_insert: "fst w \<notin> fst ` set a \<Longrightarrow> map_of (a @ w # b) = (map_of (a @ b))(fst w \<mapsto> snd w)"
  by (induction a) (auto simp: fun_upd_twist)

lemma covers_apply:
  assumes "ext_laws X" and "covers X e (a @ w # b) st" and "store_inv X (e_store e)" and "fits X (snd w)"
    and "distinct (map fst (a @ w # b))"
  shows "covers X (apply_write X w e) (a @ b) st"
proof -
  have n: "fst w \<notin> fst ` set a" "fst w \<notin> fst ` set b"
    using assms(5) by auto
  note map_of_insert [OF n(1), of b]
  moreover have "map_of (a @ b) (fst w) = None"
    using n by (simp add: map_of_eq_None_iff)
  ultimately show ?thesis
    using assms(2) value_at_put [OF assms(1,3,4), of "fst w"]
    by (auto simp: covers_def apply_write_def split: option.splits)
qed

lemma conc_inv_begin:
  assumes "ext_laws X" and "conc_inv X (e, ts)" and "put_begin X e key body uid = Some (Inr ws, e')"
    and key: "length key < 2 ^ 16" and fit: "\<forall>w \<in> set ws. fits X (snd w)"
    and "fst ` set ws \<inter> fst ` set (concat ts) = {}"
  shows "conc_inv X (e', ws # ts)"
proof -
  obtain now e1 mv where b: "clock_now e = Some (now, e1)" "ws = [(key, body), (meta_key_s key, mv)]"
      "log_batch e1 [bop PUT key body, bop PUT (meta_key_s key) mv] = Some e'"
    using put_begin_logs [OF assms(3)] .
  let ?ops = "[bop PUT key body, bop PUT (meta_key_s key) mv]"
  have ready: "log_ready e1" and c: "e_store e1 = e_store e" "e_wal e1 = e_wal e"
    using assms(2) clock_now_le [OF b(1)] replays_to_clock [OF b(1)] by (auto simp: conc_inv_def log_le_def)
  have f: "w_file (e_wal e') = w_file (e_wal e) @ batch_image ?ops" "log_ready e'" "e_store e' = e_store e"
    using log_batch_file [OF b(3)] ready c by (auto simp: log_ready_def)
  have "\<exists>es. (\<forall>en \<in> set es. entry_ok en) \<and> w_file (e_wal e') = wal_log es \<and>
      covers X e' (concat (ws # ts)) (replay X (concat (map entry_ops es)))"
    if small: "length (w_file (e_wal e')) < 2 ^ 32"
  proof -
    have sz: "batch_payload_size ?ops < 2 ^ 32" "length (w_file (e_wal e)) < 2 ^ 32"
      using small f(1) by (simp_all add: length_batch_image)
    then obtain es where es: "\<forall>en \<in> set es. entry_ok en" "w_file (e_wal e) = wal_log es"
        "covers X e (concat ts) (replay X (concat (map entry_ops es)))"
      using assms(2) by (auto simp: conc_inv_def)
    let ?st = "replay X (concat (map entry_ops es))"
    have "entry_ops (Batched ?ops) = op_ops ?ops"
      using key sz(1) by (intro entry_ops_batched) (auto simp: length_meta_key_s [simplified])
    then have "replay X (concat (map entry_ops (es @ [Batched ?ops]))) =
        apply_put X (apply_put X ?st key body) (meta_key_s key) mv"
      by (simp add: replay_def op_ops_def recover_op_def del: entry_ops.simps)
    moreover have "covers X e ((meta_key_s key, mv) # (key, body) # concat ts)
        (apply_put X (apply_put X ?st key body) (meta_key_s key) mv)"
      using es(3) fit b(2) assms(6) meta_key_s_neq [of key]
      by (intro covers_put [OF assms(1)] covers_put [OF assms(1)]) auto
    then have "covers X e' (concat (ws # ts)) (apply_put X (apply_put X ?st key body) (meta_key_s key) mv)"
      using covers_swap b(2) meta_key_s_neq [of key] by (simp add: covers_store [OF f(3)])
    moreover have "\<forall>en \<in> set (es @ [Batched ?ops]). entry_ok en"
      using es(1) sz(1) by simp
    moreover have "w_file (e_wal e') = wal_log (es @ [Batched ?ops])"
      using f(1) es(2) by (simp add: wal_log_def)
    ultimately show ?thesis
      by metis
  qed
  moreover have "distinct (map fst (concat (ws # ts)))"
    using assms(2,6) b(2) meta_key_s_neq [of key] by (auto simp: conc_inv_def)
  ultimately show ?thesis
    using assms(2) f(2,3) fit by (auto simp: conc_inv_def)
qed

lemma conc_inv_apply:
  assumes "ext_laws X" and "conc_inv X (e, ts @ (w # ws) # us)"
  shows "conc_inv X (apply_write X w e, ts @ ws # us)"
proof -
  let ?a = "concat ts" and ?b = "ws @ concat us"
  have i: "store_inv X (e_store e)" "fits X (snd w)" "distinct (map fst (?a @ w # ?b))" "log_ready e"
    using assms(2) by (auto simp: conc_inv_def)
  have "covers X (apply_write X w e) (?a @ ?b) st" if "covers X e (?a @ w # ?b) st" for st
    using covers_apply [OF assms(1) that i(1-3)] .
  with assms(2) store_inv_put [OF assms(1) i(1,2), of "fst w"] i(3,4) show ?thesis
    by (auto simp: conc_inv_def apply_write_def log_ready_def)
qed

lemma conc_reachable_inv:
  assumes "conc_reachable X True e0 s" and "ext_laws X" and "conc_inv X (e0, [])"
  shows "conc_inv X s"
  using assms(1)
proof (induction rule: conc_reachable.induct)
  case Start
  show ?case by (rule assms(3))
next
  case (Step s s')
  from Step(2) show ?case
  proof cases
    case (Begin e key body uid ws e' ts)
    with Step(3) assms(2) conc_inv_begin [of X e ts key body uid ws e'] show ?thesis
      by simp
  next
    case (Apply e ts w ws us)
    with Step(3) assms(2) conc_inv_apply show ?thesis
      by simp
  qed
qed

lemma conc_inv_fresh: "ext_laws X \<Longrightarrow> no_error io \<Longrightarrow> conc_inv X (engine_open X no_fail [] node ph io, [])"
  using store_inv_init [of X]
  by (auto simp: conc_inv_def log_ready_def engine_open_def recover_def wal_open_def wal_log_def replay_def covers_def
      ext_laws_def intro!: exI [of _ "[]"])

text \<open>C33. Puts to different keys may interleave freely: as long as no two puts to the same key are in flight
  together, then whatever the order in which their log records and map writes happen, the log recovers to
  the values of the live store for every key once all writes are done.\<close>

theorem disjoint_puts_recover:
  assumes "ext_laws X" and "no_error io"
    and "conc_reachable X True (engine_open X no_fail [] node ph io) (e, ts)" and "concat ts = []"
    and "length (w_file (e_wal e)) < 2 ^ 32"
  shows "value_at X (e_store (engine_open X no_fail (w_file (e_wal e)) node' ph' io')) k = value_at X (e_store e) k"
proof -
  have "conc_inv X (e, ts)"
    using conc_reachable_inv [OF assms(3,1) conc_inv_fresh [OF assms(1,2)]] .
  then have "\<exists>es. (\<forall>en \<in> set es. entry_ok en) \<and> w_file (e_wal e) = wal_log es \<and>
      covers X e (concat ts) (replay X (concat (map entry_ops es)))"
    using assms(5) by (simp add: conc_inv_def)
  then obtain es where es: "\<forall>en \<in> set es. entry_ok en" "w_file (e_wal e) = wal_log es"
      "covers X e [] (replay X (concat (map entry_ops es)))"
    unfolding assms(4) by blast
  with open_torn [OF es(1), of "[]"] show ?thesis
    by (simp add: wl.torn_def covers_def)
qed

lemma log_batch_frame: "log_batch e ops = Some e' \<Longrightarrow> log_batch (e\<lparr>e_store := st\<rparr>) ops = Some (e'\<lparr>e_store := st\<rparr>)"
  by (auto simp: log_batch_def bind_eq_Some_conv)

text \<open>The store two logged records replay to, whatever has been done to the map in between.\<close>

lemma two_records_open:
  assumes "replays_to X e" and "log_batch e ops = Some e1" and "clock_now e1 = Some (now, c)" and "log_batch c ops' = Some e2"
    and "ops \<noteq> []" "ops' \<noteq> []" and "\<forall>o' \<in> set (ops @ ops'). length (b_key o') < 2 ^ 16"
    and "length (w_file (e_wal e2)) < 2 ^ 32"
  shows "e_store (engine_open X no_fail (w_file (e_wal e2)) node ph io) =
    fold (recover_op X) (op_ops (ops @ ops')) (e_store e)"
proof -
  let ?st = "fold (recover_op X) (op_ops ops) (e_store e)"
  have "log_ready e"
    using assms(1) by (simp add: replays_to_def log_ready_def)
  then have "log_le e1 e2"
    using log_batch_le [OF assms(2)] clock_log_le [OF assms(3,4)] by (simp add: log_le_def)
  then have r: "replays_to X (e1\<lparr>e_store := ?st\<rparr>)"
    using assms by (intro replays_to_batch [OF assms(1,2)]) (auto simp: log_le_def)
  have c: "clock_now (e1\<lparr>e_store := ?st\<rparr>) = Some (now, c\<lparr>e_store := ?st\<rparr>)"
    using assms(3) by (auto simp: clock_now_def bind_eq_Some_conv)
  have "replays_to X (c\<lparr>e_store := ?st\<rparr>)"
    using r replays_to_clock [OF c, of X] by simp
  from log_batch_open [OF this log_batch_frame [OF assms(4)] assms(6)] assms(7,8) show ?thesis
    by (simp add: op_ops_def)
qed

text \<open>Two puts that have logged, and then write the map in the opposite order.\<close>

lemma swapped_writes_reachable:
  assumes "conc_step X False (e0, []) (e1, [[w1, m1]])" and "conc_step X False (e1, [[w1, m1]]) (e2, [[w2, m2], [w1, m1]])"
  shows "conc_reachable X False e0 (fold (apply_write X) [w2, m2, w1, m1] e2, [[], []])"
proof -
  have "conc_step X False (e2, [[w2, m2], [w1, m1]]) (apply_write X w2 e2, [[m2], [w1, m1]])"
    using conc_step.Apply [of X False e2 "[]"] by simp
  moreover have "conc_step X False (e, [[m2], [w1, m1]]) (apply_write X m2 e, [[], [w1, m1]])" for e
    using conc_step.Apply [of X False e "[]"] by simp
  moreover have "conc_step X False (e, [[], [w1, m1]]) (apply_write X w1 e, [[], [m1]])" for e
    using conc_step.Apply [of X False e "[[]]"] by simp
  moreover have "conc_step X False (e, [[], [m1]]) (apply_write X m1 e, [[], []])" for e
    using conc_step.Apply [of X False e "[[]]"] by simp
  ultimately show ?thesis
    using assms by (auto intro!: conc_reachable.Step [OF conc_reachable.Step [OF conc_reachable.Step [OF conc_reachable.Step
          [OF conc_reachable.Step [OF conc_reachable.Step [OF conc_reachable.Start]]]]]])
qed

lemma put_pair_value:
  assumes "ext_laws X" and "store_inv X st" and "fits X v" and "fits X mv"
  shows "store_inv X (apply_put X (apply_put X st key v) (meta_key_s key) mv) \<and>
    value_at X (apply_put X (apply_put X st key v) (meta_key_s key) mv) key = Some (stored_form X v)"
  using store_inv_put [OF assms(1) store_inv_put [OF assms(1-3)] assms(4)]
    value_at_put [OF assms(1) store_inv_put [OF assms(1-3)] assms(4)]
    value_at_put [OF assms(1-3)] meta_key_s_neq [of key]
  by simp

text \<open>Concurrent puts to one key can recover to a different value: two puts log in one order and write the map in the
  other, because the log lock is released before the write is submitted. Both callers are told that
  their put succeeded, the live store holds the first value, and recovery brings back the second.\<close>

theorem same_key_puts_diverge:
  assumes "ext_laws X" and "no_error io"
    and "put_begin X (engine_open X no_fail [] node ph io) key v1 uid1 = Some (Inr [w1, m1], e1)"
    and "put_begin X e1 key v2 uid2 = Some (Inr [w2, m2], e2)"
    and "length key < 2 ^ 16" and "fits X v1" "fits X v2" "fits X (snd m1)" "fits X (snd m2)"
    and "length (w_file (e_wal e2)) < 2 ^ 32"
  shows "conc_reachable X False (engine_open X no_fail [] node ph io)
      (fold (apply_write X) [w2, m2, w1, m1] e2, [[], []]) \<and>
    value_at X (e_store (fold (apply_write X) [w2, m2, w1, m1] e2)) key = Some (stored_form X v1) \<and>
    value_at X (e_store (engine_open X no_fail (w_file (e_wal e2)) node' ph' io')) key = Some (stored_form X v2)"
proof -
  let ?e0 = "engine_open X no_fail [] node ph io" and ?mk = "meta_key_s key"
  obtain n1 c1 mv1 where b1: "clock_now ?e0 = Some (n1, c1)" "[w1, m1] = [(key, v1), (?mk, mv1)]"
      "log_batch c1 [bop PUT key v1, bop PUT ?mk mv1] = Some e1"
    using put_begin_logs [OF assms(3)] .
  obtain n2 c2 mv2 where b2: "clock_now e1 = Some (n2, c2)" "[w2, m2] = [(key, v2), (?mk, mv2)]"
      "log_batch c2 [bop PUT key v2, bop PUT ?mk mv2] = Some e2"
    using put_begin_logs [OF assms(4)] .
  have ws: "w1 = (key, v1)" "m1 = (?mk, mv1)" "w2 = (key, v2)" "m2 = (?mk, mv2)"
    using b1(2) b2(2) by simp_all
  have "conc_step X False (?e0, []) (e1, [[w1, m1]])"
    using assms(3,5,6,8) by (intro conc_step.Begin) (auto simp: ws)
  moreover have "conc_step X False (e1, [[w1, m1]]) (e2, [[w2, m2], [w1, m1]])"
    using assms(4,5,7,9) by (intro conc_step.Begin) (auto simp: ws)
  ultimately have reach: "conc_reachable X False ?e0 (fold (apply_write X) [w2, m2, w1, m1] e2, [[], []])"
    by (rule swapped_writes_reachable)
  let ?s0 = "store_init X"
  have st: "e_store e2 = ?s0" "e_store ?e0 = ?s0"
    using log_batch_store b1(3) b2(3) replays_to_clock b1(1) b2(1)
    by (auto simp: engine_open_def recover_def wal_open_def replay_def)
  have i0: "store_inv X ?s0"
    using assms(1) by (simp add: store_inv_init ext_laws_def)
  note vals = put_pair_value [OF assms(1)]
  have live: "value_at X (e_store (fold (apply_write X) [w2, m2, w1, m1] e2)) key = Some (stored_form X v1)"
    using vals [OF i0 assms(7), of mv2 key] vals [of _ v1 mv1 key] assms(6,8,9) by (simp add: apply_write_def ws st)
  have "replays_to X ?e0"
    using assms(2) by (rule replays_to_fresh)
  then have "replays_to X c1" "e_store c1 = ?s0"
    using replays_to_clock [OF b1(1), of X] st(2) by simp_all
  from two_records_open [OF this(1) b1(3) b2(1,3)] assms(5,10)
  have "e_store (engine_open X no_fail (w_file (e_wal e2)) node' ph' io') =
      apply_put X (apply_put X (apply_put X (apply_put X ?s0 key v1) ?mk mv1) key v2) ?mk mv2"
    by (simp add: op_ops_def recover_op_def length_meta_key_s [simplified] \<open>e_store c1 = ?s0\<close>)
  then have "value_at X (e_store (engine_open X no_fail (w_file (e_wal e2)) node' ph' io')) key = Some (stored_form X v2)"
    using vals [OF i0 assms(6), of mv1 key] vals [of _ v2 mv2 key] assms(7-9) by (simp add: ws)
  with reach live show ?thesis
    by blast
qed

subsection \<open>Examples\<close>

lemma demo_put_begin:
  assumes "e_phys e = t # ph" and "max_wall_time (e_clock e) < t" and "hlc_node (e_clock e) = 1"
    and "e_io e = Wrote 1000 # io" and "at_end (e_wal e)"
    and "meta_val demo (Timestamp t 0 1) False = Some mv" and "length mv < 100"
    and "length key < 100" and "length body < 100" and "length (meta_key_s key) < 110"
  shows "\<exists>e'. put_begin demo e key body ADMIN_UID = Some (Inr [(key, body), (meta_key_s key, mv)], e') \<and>
    e_phys e' = ph \<and> max_wall_time (e_clock e') = t \<and> hlc_node (e_clock e') = 1 \<and> e_io e' = io \<and>
    at_end (e_wal e') \<and> length (w_file (e_wal e')) < length (w_file (e_wal e)) + 1000"
proof -
  let ?ops = "[bop PUT key body, bop PUT (meta_key_s key) mv]"
  obtain e1 where c: "clock_now e = Some (Timestamp t 0 1, e1)" "e_wal e1 = e_wal e" "e_io e1 = e_io e"
      "e_phys e1 = ph" "max_wall_time (e_clock e1) = t" "hlc_node (e_clock e1) = 1"
    using assms(1-3) by (simp add: clock_now_def hlc_now_def hlc_ts_def)
  have "batch_payload_size ?ops < 900"
    using assms(7-10) by (simp add: batch_payload_size_def)
  with log_batch_returns [of e1 1000 io ?ops] assms(4,5) c obtain e2 where
    "log_batch e1 ?ops = Some e2" "w_file (e_wal e2) = w_file (e_wal e) @ batch_image ?ops" "at_end (e_wal e2)"
    "e_io e2 = io" "e_clock e2 = e_clock e1" "e_phys e2 = e_phys e1" "length (batch_image ?ops) < 1000"
    by (auto simp: length_batch_image)
  with c assms(6) show ?thesis
    by (simp add: put_begin_def)
qed

lemma sample_engine_start:
  "e_phys sample_engine = [5, 6]" "max_wall_time (e_clock sample_engine) = 0" "hlc_node (e_clock sample_engine) = 1"
  "e_io sample_engine = [Wrote 1000, Wrote 1000]" "at_end (e_wal sample_engine)" "w_file (e_wal sample_engine) = []"
  by (simp_all add: sample_engine_def engine_open_def recover_def wal_open_def hlc_init_def)

lemma sample_meta_key: "length (meta_key_s (bs ''k'')) < 110"
  by (simp add: meta_key_s_def meta_text_def c_str_def MAX_KEY_SIZE_def)

lemma sample_meta_6: "\<exists>mv. meta_val demo (Timestamp 6 0 1) False = Some mv \<and> length mv < 100"
  by (simp add: meta_val_def demo_setters demo_set_def put_field_def put_string_def codec_simps)

lemma fits_binary: "b \<noteq> [] \<Longrightarrow> hd b \<notin> set [0x20, 9, 13, 10, 0x7B, 0x5B] \<Longrightarrow> length b < 100 \<Longrightarrow> fits X b"
  by (simp add: fits_def stored_form_binary)

lemma fits_meta: "meta_val demo now t = Some mv \<Longrightarrow> length mv < 100 \<Longrightarrow> fits demo mv"
  using meta_val_object demo_lite3_laws by (intro fits_binary) (fastforce simp: lite3_laws_def)+

theorem disjoint_puts_recover_witness:
  "\<exists>e. conc_reachable demo True sample_engine (e, [[]]) \<and>
     value_at demo (e_store (engine_open demo no_fail (w_file (e_wal e)) 1 [] [])) (bs ''k'') = value_at demo (e_store e) (bs ''k'')"
proof -
  let ?k = "bs ''k''" and ?v = "bs ''v''"
  obtain e1 where e1: "put_begin demo sample_engine ?k ?v ADMIN_UID = Some (Inr [(?k, ?v), (meta_key_s ?k, sample_meta)], e1)"
      "length (w_file (e_wal e1)) < 1000"
    using demo_put_begin [of sample_engine 5 "[6]" "[Wrote 1000]" sample_meta ?k ?v] sample_engine_start sample_meta_eval
      sample_meta_key by auto
  let ?e2 = "apply_write demo (?k, ?v) e1" and ?e3 = "apply_write demo (meta_key_s ?k, sample_meta) (apply_write demo (?k, ?v) e1)"
  have "fits demo ?v" "fits demo sample_meta"
    using fits_meta [OF sample_meta_eval] by (simp_all add: fits_binary bs_def byte_of_char_def)
  then have "conc_step demo True (sample_engine, []) (e1, [[(?k, ?v), (meta_key_s ?k, sample_meta)]])"
    using e1(1) by (intro conc_step.Begin) auto
  moreover have "conc_step demo True (e1, [[(?k, ?v), (meta_key_s ?k, sample_meta)]]) (?e2, [[(meta_key_s ?k, sample_meta)]])"
    "conc_step demo True (?e2, [[(meta_key_s ?k, sample_meta)]]) (?e3, [[]])"
    using conc_step.Apply [of demo True _ "[]" _ _ "[]"] by simp_all
  ultimately have r: "conc_reachable demo True sample_engine (?e3, [[]])"
    by (meson conc_reachable.intros)
  have "length (w_file (e_wal ?e3)) < 2 ^ 32"
    using e1(2) by (simp add: apply_write_def)
  from disjoint_puts_recover [OF demo_ext_laws _ r [unfolded sample_engine_def] _ this] r show ?thesis
    by (auto simp del: demo_def)
qed

theorem same_key_puts_diverge_witness:
  "\<exists>(e :: engine) live. conc_reachable demo False sample_engine (live, [[], []]) \<and> w_file (e_wal live) = w_file (e_wal e) \<and>
     value_at demo (e_store live) (bs ''k'') = Some (bs ''v'') \<and>
     value_at demo (e_store (engine_open demo no_fail (w_file (e_wal e)) 1 [] [])) (bs ''k'') = Some (bs ''w'')"
proof -
  let ?k = "bs ''k''" and ?v = "bs ''v''" and ?w = "bs ''w''"
  obtain mv where mv: "meta_val demo (Timestamp 6 0 1) False = Some mv" "length mv < 100"
    using sample_meta_6 by blast
  obtain e1 where e1: "put_begin demo sample_engine ?k ?v ADMIN_UID = Some (Inr [(?k, ?v), (meta_key_s ?k, sample_meta)], e1)"
      "e_phys e1 = [6]" "max_wall_time (e_clock e1) = 5" "hlc_node (e_clock e1) = 1" "e_io e1 = [Wrote 1000]" "at_end (e_wal e1)"
      "length (w_file (e_wal e1)) < 1000"
    using demo_put_begin [of sample_engine 5 "[6]" "[Wrote 1000]" sample_meta ?k ?v] sample_engine_start sample_meta_eval
      sample_meta_key by auto
  obtain e2 where e2: "put_begin demo e1 ?k ?w ADMIN_UID = Some (Inr [(?k, ?w), (meta_key_s ?k, mv)], e2)"
      "length (w_file (e_wal e2)) < 2 ^ 32"
    using demo_put_begin [of e1 6 "[]" "[]" mv ?k ?w] e1(2-7) mv sample_meta_key by auto
  have f: "fits demo ?v" "fits demo ?w" "fits demo (snd (meta_key_s ?k, sample_meta))" "fits demo (snd (meta_key_s ?k, mv))"
    using fits_meta [OF sample_meta_eval] fits_meta [OF mv] by (simp_all add: fits_binary bs_def byte_of_char_def)
  have s: "stored_form demo ?v = ?v" "stored_form demo ?w = ?w"
    by (simp_all add: stored_form_binary bs_def byte_of_char_def)
  have l: "length ?k < 2 ^ 16" "no_error [Wrote 1000, Wrote 1000]"
    by simp_all
  note d = same_key_puts_diverge [OF demo_ext_laws l(2) e1(1) [unfolded sample_engine_def] e2(1) l(1) f e2(2)]
  have wf: "w_file (e_wal (fold (apply_write demo) ws e2)) = w_file (e_wal e2)" for ws
    by (induction ws arbitrary: e2) (simp_all add: apply_write_def)
  let ?live = "fold (apply_write demo) [(?k, ?w), (meta_key_s ?k, mv), (?k, ?v), (meta_key_s ?k, sample_meta)] e2"
  show ?thesis
  proof (rule exI [of _ e2], rule exI [of _ ?live], intro conjI)
    show "conc_reachable demo False sample_engine (?live, [[], []])"
      unfolding sample_engine_def using d by blast
    show "w_file (e_wal ?live) = w_file (e_wal e2)"
      by (rule wf)
    show "value_at demo (e_store ?live) ?k = Some ?v"
      using d unfolding s by blast
    show "value_at demo (e_store (engine_open demo no_fail (w_file (e_wal e2)) 1 [] [])) ?k = Some ?w"
      using d unfolding s by blast
  qed
qed

end
