(* ===== verification/Engine_Values.thy ===== *)
theory Engine_Values
  imports Engine_Concurrency
begin

text \<open>
  What the operations of the engine mean for its readers: a value put is the value got, a deleted key
  reads as empty, and a batch is accepted as a whole or not at all.
\<close>

subsection \<open>Metadata values\<close>

text \<open>The metadata object of a write has a handful of fixed-size fields; its size is bounded.\<close>

definition meta_small :: "ext \<Rightarrow> bool" where
  "meta_small X \<longleftrightarrow> (\<forall>now t mv. meta_val X now t = Some mv \<longrightarrow> length mv < 2 ^ 32)"

lemma demo_meta_small: "meta_small demo"
  by (auto simp: meta_small_def meta_val_def demo_setters demo_set_def put_field_def put_string_def codec_simps
      split: if_splits)

lemma meta_val_stored:
  assumes "ext_laws X" and "meta_small X" and "meta_val X now t = Some mv"
  shows "fits X mv" "stored_form X mv = mv" "mv \<noteq> []"
proof -
  have "mv \<noteq> []" "hd mv = 6"
    using meta_val_object [OF assms(3)] assms(1) by (auto simp: ext_laws_def lite3_laws_def)
  then show "stored_form X mv = mv" "mv \<noteq> []"
    by (simp_all add: stored_form_binary)
  then show "fits X mv"
    using assms(2,3) by (simp add: fits_def meta_small_def)
qed

subsection \<open>Reading\<close>

lemma engine_get_value:
  "engine_get X e key uid =
     (if can_read (s_creds (e_store e)) uid key
      then (case value_at X (e_store e) key of None \<Rightarrow> [] | Some v \<Rightarrow> v) else [])"
  by (auto simp: engine_get_def value_at_def blob_value_def split: option.splits)

lemma admin_can_read [simp]: "can_read c ADMIN_UID k"
  by (simp add: can_read_def check_permission_def perm_and_def ADMIN_def)

lemma engine_get_admin: "engine_get X e key ADMIN_UID = (case value_at X (e_store e) key of None \<Rightarrow> [] | Some v \<Rightarrow> v)"
  by (simp add: engine_get_value)

subsection \<open>Writing\<close>

text \<open>A put or delete that returns normally has written the key and its metadata, and nothing else.\<close>

lemma engine_put_store:
  assumes "engine_put X e key body uid = Some (Inr (), e')"
  obtains now mv where "meta_val X now False = Some mv"
    "e_store e' = apply_put X (apply_put X (e_store e) key body) (meta_key_s key) mv"
proof -
  from assms obtain now e1 mv e2 where
    s: "clock_now e = Some (now, e1)" "meta_val X now False = Some mv"
      "log_batch e1 [bop PUT key body, bop PUT (meta_key_s key) mv] = Some e2"
      "e' = e2\<lparr>e_store := apply_put X (apply_put X (e_store e2) key body) (meta_key_s key) mv\<rparr>"
    by (auto simp: engine_put_def bind_eq_Some_conv Let_def split: if_splits option.splits)
  have "e_store e2 = e_store e"
    using log_batch_store [OF s(3)] replays_to_clock [OF s(1)] by simp
  with s that show thesis
    by simp
qed

lemma engine_del_store:
  assumes "engine_del X e key uid = Some (Inr b, e')" and "can_write (s_creds (e_store e)) uid key"
  obtains now mv where "meta_val X now True = Some mv" "b"
    "e_store e' = apply_put X (snd (apply_del X (e_store e) key)) (meta_key_s key) mv"
proof -
  from assms obtain now e1 mv e2 where
    s: "clock_now e = Some (now, e1)" "meta_val X now True = Some mv"
      "log_batch e1 [bop DELETE key [], bop PUT (meta_key_s key) mv] = Some e2"
      "e' = e2\<lparr>e_store := apply_put X (snd (apply_del X (e_store e2) key)) (meta_key_s key) mv\<rparr>" "b"
    by (auto simp: engine_del_def bind_eq_Some_conv Let_def split_def apply_del_def split: if_splits option.splits)
  have "e_store e2 = e_store e"
    using log_batch_store [OF s(3)] replays_to_clock [OF s(1)] by simp
  with s that show thesis
    by simp
qed

text \<open>C18. A value put is the value got: after a put that returns normally, every reader allowed to read the key gets
  the body (its binary object form if the body is JSON text that parses), compressed in memory or not; all
  other keys except the key's metadata read as before, and the store invariant is kept.\<close>

theorem put_then_get:
  assumes "ext_laws X" and "meta_small X" and "store_inv X (e_store e)" and "fits X body"
    and "engine_put X e key body uid = Some (Inr (), e')"
  shows "store_inv X (e_store e') \<and>
    (\<forall>reader. can_read (s_creds (e_store e')) reader key \<longrightarrow> engine_get X e' key reader = stored_form X body) \<and>
    (\<forall>k. k \<noteq> key \<longrightarrow> k \<noteq> meta_key_s key \<longrightarrow> engine_get X e' k ADMIN_UID = engine_get X e k ADMIN_UID)"
proof -
  obtain now mv where mv: "meta_val X now False = Some mv"
      "e_store e' = apply_put X (apply_put X (e_store e) key body) (meta_key_s key) mv"
    using engine_put_store [OF assms(5)] .
  note fit = meta_val_stored(1) [OF assms(1,2) mv(1)]
  note i1 = store_inv_put [OF assms(1,3,4), of key]
  have "value_at X (e_store e') k =
      (if k = meta_key_s key then Some (stored_form X mv) else if k = key then Some (stored_form X body)
       else value_at X (e_store e) k)" for k
    by (simp add: mv(2) value_at_put [OF assms(1) i1 fit] value_at_put [OF assms(1,3,4)])
  with store_inv_put [OF assms(1) i1 fit, of "meta_key_s key"] mv(2) meta_key_s_neq [of key] show ?thesis
    by (auto simp: engine_get_value)
qed

text \<open>C21. A deleted key reads as empty: after a delete that is allowed and returns normally, the key reads as the
  empty buffer for every reader, other keys are unchanged; the result is \<open>true\<close> whether or not the key existed.\<close>

theorem del_then_get:
  assumes "ext_laws X" and "meta_small X" and "store_inv X (e_store e)"
    and "can_write (s_creds (e_store e)) uid key" and "engine_del X e key uid = Some (Inr b, e')"
  shows "b \<and> store_inv X (e_store e') \<and> (\<forall>reader. engine_get X e' key reader = []) \<and>
    (\<forall>k. k \<noteq> key \<longrightarrow> k \<noteq> meta_key_s key \<longrightarrow> engine_get X e' k ADMIN_UID = engine_get X e k ADMIN_UID)"
proof -
  obtain now mv where mv: "meta_val X now True = Some mv" "b"
      "e_store e' = apply_put X (snd (apply_del X (e_store e) key)) (meta_key_s key) mv"
    using engine_del_store [OF assms(5,4)] .
  note fit = meta_val_stored(1) [OF assms(1,2) mv(1)]
  note i1 = store_inv_del [OF assms(3), of key]
  have "value_at X (e_store e') k =
      (if k = meta_key_s key then Some (stored_form X mv) else if k = key then Some [] else value_at X (e_store e) k)" for k
    by (simp add: mv(3) value_at_put [OF assms(1) i1 fit] value_at_del)
  with store_inv_put [OF assms(1) i1 fit, of "meta_key_s key"] mv(2,3) meta_key_s_neq [of key] show ?thesis
    by (auto simp: engine_get_value)
qed

lemma sample_store_init: "e_store sample_engine = store_init demo" "store_inv demo (store_init demo)"
  using demo_ext_laws
  by (simp_all add: sample_engine_def engine_open_def recover_def wal_open_def replay_def store_inv_init ext_laws_def)

lemma sample_fits: "fits demo (bs ''v'')" "stored_form demo (bs ''v'') = bs ''v''"
  by (simp_all add: fits_binary stored_form_binary bs_def byte_of_char_def)

theorem put_then_get_witness:
  "\<exists>e'. engine_put demo sample_engine (bs ''k'') (bs ''v'') ADMIN_UID = Some (Inr (), e') \<and>
     engine_get demo e' (bs ''k'') ADMIN_UID = bs ''v''"
proof -
  obtain e' where "engine_put demo sample_engine (bs ''k'') (bs ''v'') ADMIN_UID = Some (Inr (), e')"
    using sample_put by (auto simp: bind_eq_Some_conv)
  with put_then_get [OF demo_ext_laws demo_meta_small _ sample_fits(1) this] sample_store_init sample_fits(2) show ?thesis
    by simp
qed

lemma sample_del:
  assumes "length key < 100"
  shows "\<exists>e'. engine_del demo (sample_engine\<lparr>e_store := st\<rparr>) key ADMIN_UID = Some (Inr True, e')"
proof -
  obtain mv where mv: "meta_val demo (Timestamp 5 0 1) True = Some mv" "length mv < 200"
    by (simp add: meta_val_def demo_setters demo_set_def put_field_def put_string_def codec_simps)
  let ?e = "sample_engine\<lparr>e_store := st, e_clock := (e_clock sample_engine)\<lparr>max_wall_time := 5\<rparr>, e_phys := [6]\<rparr>"
  let ?ops = "[bop DELETE key [], bop PUT (meta_key_s key) mv]"
  have "length (c_str key) < 100"
    using assms length_takeWhile_le [of _ key] by (metis c_str_def order_le_less_trans)
  then have "length (meta_key_s key) < 110"
    by (simp add: meta_key_s_short)
  then have "batch_payload_size ?ops < 900"
    using assms mv(2) by (simp add: batch_payload_size_def)
  then obtain e2 where "log_batch ?e ?ops = Some e2"
    using log_batch_returns [of ?e 1000 "[Wrote 1000]" ?ops] sample_engine_start by (auto simp: length_batch_image)
  moreover have "clock_now (sample_engine\<lparr>e_store := st\<rparr>) = Some (Timestamp 5 0 1, ?e)"
    by (simp add: clock_now_def sample_engine_def engine_open_def recover_def wal_open_def hlc_now_def hlc_init_def hlc_ts_def)
  ultimately show ?thesis
    using mv(1) by (simp add: engine_del_def apply_del_def)
qed

theorem del_then_get_witness:
  "\<exists>e'. engine_del demo sample_engine (bs ''k'') ADMIN_UID = Some (Inr True, e') \<and>
     engine_get demo e' (bs ''k'') 7 = []"
proof -
  have "sample_engine\<lparr>e_store := store_init demo\<rparr> = sample_engine"
    using sample_store_init(1) by (metis engine.surjective engine.update_convs(1))
  then obtain e' where e': "engine_del demo sample_engine (bs ''k'') ADMIN_UID = Some (Inr True, e')"
    using sample_del [of "bs ''k''" "store_init demo"] by auto
  from del_then_get [OF demo_ext_laws demo_meta_small _ admin_can_write e'] e' sample_store_init show ?thesis
    by simp
qed

subsection \<open>Refused and failed batches\<close>

text \<open>Collecting a batch touches the clock only.\<close>

definition only_clock :: "engine \<Rightarrow> engine \<Rightarrow> bool" where
  "only_clock e e' \<longleftrightarrow>
     e_store e' = e_store e \<and> e_wal e' = e_wal e \<and> e_pending e' = e_pending e \<and> e_io e' = e_io e"

lemma only_clock_refl [simp]: "only_clock e e"
  by (simp add: only_clock_def)

lemma clock_now_only: "clock_now e = Some (now, e') \<Longrightarrow> only_clock e e'"
  by (auto simp: clock_now_def bind_eq_Some_conv only_clock_def)

lemma batch_put_item_only: "batch_put_item X b uid k e bw = Some (r, e') \<Longrightarrow> only_clock e e'"
  by (auto simp: batch_put_item_def bind_eq_Some_conv Let_def split: if_splits option.splits intro: clock_now_only)

lemma batch_put_item_denied:
  "batch_put_item X b uid k e bw = Some (Inr bw', e') \<Longrightarrow> can_write (s_creds (e_store e)) uid k"
  by (auto simp: batch_put_item_def split: if_splits)

text \<open>What one key of a batch adds to the work: nothing, or its update and that of its metadata, each on its shard.\<close>

lemma batch_put_item_cases:
  assumes "batch_put_item X batch uid k e bw = Some (Inr bw', e')"
  shows "can_write (s_creds (e_store e)) uid k \<and>
    (batch_value X batch k = Some None \<and> bw' = bw \<or>
     (\<exists>v now mv w. batch_value X batch k = Some (Some v) \<and> meta_val X now False = Some mv \<and>
        bw' = add_update (get_routing_shard X (meta_key_s k)) (meta_key_s k, mv)
          (add_update (get_routing_shard X k) (k, v) (bw\<lparr>bw_wal := w\<rparr>))))"
proof (cases "batch_value X batch k")
  case (Some ov)
  then show ?thesis
    using assms by (cases ov) (auto simp: batch_put_item_def bind_eq_Some_conv Let_def split: if_splits option.split_asm)
qed (use assms in \<open>auto simp: batch_put_item_def split: if_splits\<close>)

lemma batch_put_loop_only:
  "batch_put_loop X b uid ks e bw = Some (r, e') \<Longrightarrow> only_clock e e' \<and>
     (\<forall>bw'. r = Inr bw' \<longrightarrow> (\<forall>k \<in> set ks. can_write (s_creds (e_store e)) uid k))"
proof (induction ks arbitrary: e bw)
  case (Cons k ks)
  then obtain r1 e1 where i: "batch_put_item X b uid k e bw = Some (r1, e1)"
      "(case r1 of Inl err \<Rightarrow> Some (Inl err, e1) | Inr bw \<Rightarrow> batch_put_loop X b uid ks e1 bw) = Some (r, e')"
    by (auto simp: bind_eq_Some_conv)
  note o1 = batch_put_item_only [OF i(1)]
  show ?case
  proof (cases r1)
    case (Inl err)
    with i(2) o1 show ?thesis by auto
  next
    case (Inr bw1)
    with i(2) Cons.IH [of e1 bw1] o1 batch_put_item_denied [OF i(1) [unfolded Inr]] show ?thesis
      by (auto simp: only_clock_def)
  qed
qed auto

text \<open>C24. A batch is all or nothing: if \<open>batch_put\<close> throws, neither the log nor the store nor the queues have
  changed; and it does throw when the caller may not write one of the keys, even after other keys of the
  batch have been accepted.\<close>

theorem batch_put_all_or_nothing:
  assumes "batch_put X mem e batch uid = Some (r, e')"
  shows "(r \<noteq> Inr () \<longrightarrow> e_store e' = e_store e \<and> e_wal e' = e_wal e \<and> e_pending e' = e_pending e) \<and>
    (\<forall>k \<in> set (object_keys X batch). \<not> can_write (s_creds (e_store e)) uid k \<longrightarrow> r \<noteq> Inr ())"
proof -
  obtain r1 e1 where l: "batch_put_loop X batch uid (object_keys X batch) e \<lparr>bw_wal = [], bw_works = (\<lambda>_. [])\<rparr> = Some (r1, e1)"
    using assms by (auto simp: batch_put_def bind_eq_Some_conv)
  note o1 = batch_put_loop_only [OF l]
  show ?thesis
  proof (cases r1)
    case (Inl err)
    with assms l o1 show ?thesis
      by (auto simp: batch_put_def only_clock_def)
  next
    case (Inr bw)
    with assms l have "r = Inr ()"
      by (auto simp: batch_put_def bind_eq_Some_conv split: if_splits)
    with Inr o1 show ?thesis
      by auto
  qed
qed

definition sample_batch :: bytes where
  "sample_batch = 6 # put_field 1 (bs ''k'') (bs ''v'')"

lemma sample_batch_keys: "object_keys demo sample_batch = [bs ''k'']"
proof -
  have "take_field (put_field 1 (bs ''k'') (bs ''v'')) = Some ((1, bs ''k'', bs ''v''), [])"
    using take_field_put [of 1 "bs ''k''" "bs ''v''" "[]"] by simp
  then have "demo_keys (Suc (Suc n)) (put_field 1 (bs ''k'') (bs ''v'')) = [bs ''k'']" for n
    by (simp add: take_field_def [of "[]"])
  moreover obtain n where "length sample_batch = Suc (Suc n)"
    by (simp add: sample_batch_def put_field_def)
  ultimately show ?thesis
    by (simp add: demo_def sample_batch_def)
qed

lemma stranger_cannot_write: "\<not> can_write (creds_init X) 7 k"
  by (simp add: can_write_def check_permission_def creds_init_def Let_def set_acl_def register_user_def cm_init_def
      INTERNAL_UID_def ADMIN_UID_def perm_and_def NONE_def)

theorem batch_put_all_or_nothing_witness:
  "\<exists>r e'. batch_put demo (\<lambda>_ _. 0) sample_engine sample_batch 7 = Some (r, e') \<and> r \<noteq> Inr () \<and>
     e_wal e' = e_wal sample_engine"
proof -
  have n: "\<not> can_write (s_creds (e_store sample_engine)) 7 (bs ''k'')"
    using stranger_cannot_write [of demo] by (simp add: sample_store_init store_init_def)
  then have "\<exists>r e'. batch_put demo (\<lambda>_ _. 0) sample_engine sample_batch 7 = Some (r, e')"
    by (simp add: batch_put_def sample_batch_keys batch_put_item_def del: bs_Cons)
  then obtain r e' where b: "batch_put demo (\<lambda>_ _. 0) sample_engine sample_batch 7 = Some (r, e')"
    by blast
  have "bs ''k'' \<in> set (object_keys demo sample_batch)"
    unfolding sample_batch_keys by simp
  with batch_put_all_or_nothing [OF b] b n show ?thesis
    by blast
qed

end
