(* ===== verification/Engine_Invariant.thy ===== *)
theory Engine_Invariant
  imports Engine_Values
begin

text \<open>
  The invariant of the store over whole runs of the engine, and what follows from it: the root hash is a function
  of the content, and the access rules follow the system keys.
\<close>

subsection \<open>Reachable engines\<close>

text \<open>Requests whose results stay below the 4 GiB a blob can record.\<close>

fun sized_request :: "ext \<Rightarrow> store \<Rightarrow> request \<Rightarrow> bool" where
  "sized_request X st (Put key body uid) \<longleftrightarrow> fits X body"
| "sized_request X st (Patch_Int key field val) \<longleftrightarrow>
     (\<forall>r. set_i64 X (patch_input X st key) field val = Some r \<longrightarrow> length r < 2 ^ 32) \<and>
     (\<forall>ts r. set_str X (patch_input X st (meta_key_s key)) field (ts_str ts) = Some r \<longrightarrow> length r < 2 ^ 32)"
| "sized_request X st (Patch_Str key field val) \<longleftrightarrow>
     (\<forall>r. set_str X (patch_input X st key) field val = Some r \<longrightarrow> length r < 2 ^ 32) \<and>
     (\<forall>ts r. set_str X (patch_input X st (meta_key_s key)) field (ts_str ts) = Some r \<longrightarrow> length r < 2 ^ 32)"
| "sized_request X st (Del key uid) \<longleftrightarrow> True"
| "sized_request X st (Mutate m) \<longleftrightarrow> fits X (m_value m)"

text \<open>The states of an engine: requests, queued updates running on core threads, and root hashes being taken.\<close>

inductive reachable :: "ext \<Rightarrow> engine \<Rightarrow> bool" for X where
  Open: "reachable X (engine_open X no_fail [] node ph io)"
| Request: "reachable X e \<Longrightarrow> exec X e r = Some (o', e') \<Longrightarrow> sized_request X (e_store e) r \<Longrightarrow> reachable X e'"
| Batch: "reachable X e \<Longrightarrow> batch_put X mem e batch uid = Some (r', e') \<Longrightarrow> reachable X e'"
| Shards: "reachable X e \<Longrightarrow> apply_batch_mutations X order e ops muts = Some e' \<Longrightarrow>
    \<forall>i mut. muts i = Some mut \<longrightarrow> (\<forall>kv \<in> set (sm_puts mut). fits X (snd kv)) \<Longrightarrow> reachable X e'"
| Core: "reachable X e \<Longrightarrow> \<forall>w \<in> set (e_pending e i). fits X (snd w) \<Longrightarrow> reachable X (core_step X i e)"
| Root: "reachable X e \<Longrightarrow> reachable X (snd (get_merkle_root_hash X e))"

lemma patch_task_inv:
  assumes "ext_laws X" and "store_inv X (e_store e)" and key: "mk \<noteq> key"
    and task: "patch_task e first (\<lambda>st. apply_patch_str X st mk field s) = (o', e')"
    and first: "\<And>st. first = Some st \<Longrightarrow> store_inv X st \<and> value_at X st mk = value_at X (e_store e) mk"
    and size: "\<And>r. set_str X (patch_input X (e_store e) mk) field s = Some r \<Longrightarrow> length r < 2 ^ 32"
  shows "store_inv X (e_store e')"
proof (cases first)
  case None
  with task assms(2) show ?thesis by (auto simp: patch_task_def)
next
  case (Some st)
  note st = first [OF Some]
  have "patch_input X st mk = patch_input X (e_store e) mk"
    using st by (simp add: patch_input_def)
  with apply_patch_str_value [OF assms(1), of st mk field s] st size Some task show ?thesis
    by (auto simp: patch_task_def split: option.splits)
qed

lemma clock_now_store: "clock_now e = Some (now, e') \<Longrightarrow> e_store e' = e_store e"
  using clock_now_only by (auto simp: only_clock_def)

lemma engine_put_outcome:
  "engine_put X e key body uid = Some (r, e') \<Longrightarrow> r = Inr () \<or> e_store e' = e_store e"
  by (auto simp: engine_put_def bind_eq_Some_conv Let_def dest!: clock_now_store split: if_splits option.splits)

lemma engine_del_outcome:
  "engine_del X e key uid = Some (r, e') \<Longrightarrow>
     can_write (s_creds (e_store e)) uid key \<and> (\<exists>b. r = Inr b) \<or> e_store e' = e_store e"
  by (auto simp: engine_del_def bind_eq_Some_conv Let_def split_def dest!: clock_now_store split: if_splits option.splits)

lemma put_store_inv:
  assumes "ext_laws X" and "meta_small X" and "store_inv X (e_store e)" and "fits X body"
    and "engine_put X e key body uid = Some (r, e')"
  shows "store_inv X (e_store e')"
proof (cases "e_store e' = e_store e")
  case False
  then have "engine_put X e key body uid = Some (Inr (), e')"
    using assms(5) engine_put_outcome [OF assms(5)] by auto
  then obtain now mv where "meta_val X now False = Some mv"
      "e_store e' = apply_put X (apply_put X (e_store e) key body) (meta_key_s key) mv"
    by (rule engine_put_store)
  then show ?thesis
    using store_inv_put [OF assms(1)] assms(3,4) meta_val_stored(1) [OF assms(1,2)] by metis
qed (simp add: assms)

lemma del_store_inv:
  assumes "ext_laws X" and "meta_small X" and "store_inv X (e_store e)" and "engine_del X e key uid = Some (r, e')"
  shows "store_inv X (e_store e')"
proof (cases "e_store e' = e_store e")
  case False
  then obtain b where "can_write (s_creds (e_store e)) uid key" "engine_del X e key uid = Some (Inr b, e')"
    using assms(4) engine_del_outcome by blast
  then obtain now mv where "meta_val X now True = Some mv"
      "e_store e' = apply_put X (snd (apply_del X (e_store e) key)) (meta_key_s key) mv"
    using engine_del_store by metis
  then show ?thesis
    using store_inv_put [OF assms(1)] store_inv_del [OF assms(3)] meta_val_stored(1) [OF assms(1,2)] by metis
qed (simp add: assms)

text \<open>The update a received mutation makes, when it is newer than what is stored.\<close>

definition mutate_store :: "ext \<Rightarrow> mutation \<Rightarrow> bytes \<Rightarrow> store \<Rightarrow> store" where
  "mutate_store X m mv st =
     apply_put X (if m_is_delete m then snd (apply_del X st (m_key m)) else apply_put X st (m_key m) (m_value m))
       (meta_key_s (m_key m)) mv"

lemma apply_mutation_outcome:
  assumes "apply_mutation X e m = Some (r, e')"
  shows "e_store e' = e_store e \<or>
    (\<exists>mv. meta_val X (m_timestamp m) (m_is_delete m) = Some mv \<and> e_store e' = mutate_store X m mv (e_store e))"
  using assms
  by (auto simp: apply_mutation_def mutate_store_def Let_def bind_eq_Some_conv dest!: log_batch_store
      split: option.splits if_splits)

lemma mutate_store_inv:
  assumes "ext_laws X" and "store_inv X st" and "fits X (m_value m)" and "fits X mv"
  shows "store_inv X (mutate_store X m mv st)"
  using assms by (simp add: mutate_store_def store_inv_put store_inv_del)

lemma patch_int_task:
  assumes "patch_int X e key field val = Some (o', e')"
  obtains now e2 where "e_store e2 = e_store e" "patch_task e2 (apply_patch_int X (e_store e) key field val)
      (\<lambda>st. apply_patch_str X st (meta_key_s key) field (ts_str now)) = (o', e')"
proof -
  from assms obtain now e1 ops e2 where s: "clock_now e = Some (now, e1)" "log_batch e1 ops = Some e2"
      "patch_task e2 (apply_patch_int X (e_store e2) key field val)
         (\<lambda>st. apply_patch_str X st (meta_key_s key) field (ts_str now)) = (o', e')"
    by (auto simp: patch_int_def bind_eq_Some_conv Let_def)
  then show thesis
    using that clock_now_store log_batch_store by metis
qed

lemma patch_str_task:
  assumes "patch_str X e key field val = Some (o', e')"
  obtains now e2 where "e_store e2 = e_store e" "patch_task e2 (apply_patch_str X (e_store e) key field val)
      (\<lambda>st. apply_patch_str X st (meta_key_s key) field (ts_str now)) = (o', e')"
proof -
  from assms obtain now e1 ops e2 where s: "clock_now e = Some (now, e1)" "log_batch e1 ops = Some e2"
      "patch_task e2 (apply_patch_str X (e_store e2) key field val)
         (\<lambda>st. apply_patch_str X st (meta_key_s key) field (ts_str now)) = (o', e')"
    by (auto simp: patch_str_def bind_eq_Some_conv Let_def)
  then show thesis
    using that clock_now_store log_batch_store by metis
qed

lemma exec_store_inv:
  assumes "ext_laws X" and "meta_small X" and "store_inv X (e_store e)"
    and "exec X e r = Some (o', e')" and "sized_request X (e_store e) r"
  shows "store_inv X (e_store e')"
proof (cases r)
  case (Put key body uid)
  with assms put_store_inv [OF assms(1-3)] show ?thesis by auto
next
  case (Del key uid)
  with assms del_store_inv [OF assms(1-3)] show ?thesis by auto
next
  case (Mutate m)
  with apply_mutation_outcome [of X e m o' e'] mutate_store_inv [OF assms(1,3)] meta_val_stored(1) [OF assms(1,2)] assms(3-5)
  show ?thesis by auto
next
  case (Patch_Int key field val)
  with assms(4) obtain now e2 where t: "e_store e2 = e_store e" "patch_task e2 (apply_patch_int X (e_store e) key field val)
      (\<lambda>st. apply_patch_str X st (meta_key_s key) field (ts_str now)) = (o', e')"
    by (auto elim: patch_int_task)
  show ?thesis
    using t(1) assms(3,5) Patch_Int apply_patch_int_value [OF assms(1,3)] meta_key_s_neq [of key]
    by (intro patch_task_inv [OF assms(1) _ meta_key_s_neq t(2)]) auto
next
  case (Patch_Str key field val)
  with assms(4) obtain now e2 where t: "e_store e2 = e_store e" "patch_task e2 (apply_patch_str X (e_store e) key field val)
      (\<lambda>st. apply_patch_str X st (meta_key_s key) field (ts_str now)) = (o', e')"
    by (auto elim: patch_str_task)
  show ?thesis
    using t(1) assms(3,5) Patch_Str apply_patch_str_value [OF assms(1,3)] meta_key_s_neq [of key]
    by (intro patch_task_inv [OF assms(1) _ meta_key_s_neq t(2)]) auto
qed

lemma batch_put_store:
  assumes "batch_put X mem e batch uid = Some (r, e')"
  shows "e_store e' = e_store e"
proof -
  obtain r1 e1 where l: "batch_put_loop X batch uid (object_keys X batch) e \<lparr>bw_wal = [], bw_works = (\<lambda>_. [])\<rparr> = Some (r1, e1)"
    using assms by (auto simp: batch_put_def bind_eq_Some_conv)
  then have "e_store e1 = e_store e"
    using batch_put_loop_only by (simp add: only_clock_def)
  with l assms show ?thesis
    by (cases r1) (auto simp: batch_put_def bind_eq_Some_conv split: if_splits dest!: log_batch_store)
qed

lemma fold_store_inv: "(\<And>x s. x \<in> set xs \<Longrightarrow> store_inv X s \<Longrightarrow> store_inv X (f x s)) \<Longrightarrow> store_inv X s \<Longrightarrow> store_inv X (fold f xs s)"
  by (induction xs arbitrary: s) auto

lemma apply_shard_mutation_inv:
  assumes "ext_laws X" and "store_inv X st" and "\<forall>kv \<in> set (sm_puts mut). fits X (snd kv)"
  shows "store_inv X (apply_shard_mutation X mut st)"
  unfolding apply_shard_mutation_def Let_def
  using assms by (intro fold_store_inv) (fastforce intro: store_inv_put store_inv_del split: prod.splits)+

lemma apply_batch_mutations_inv:
  assumes "ext_laws X" and "store_inv X (e_store e)" and "apply_batch_mutations X order e ops muts = Some e'"
    and "\<forall>i mut. muts i = Some mut \<longrightarrow> (\<forall>kv \<in> set (sm_puts mut). fits X (snd kv))"
  shows "store_inv X (e_store e')"
proof (cases "ops = [] \<and> muts = Map.empty")
  case False
  then obtain e1 :: engine where e1: "(if ops \<noteq> [] then log_batch e ops else Some e) = Some e1"
      "e_store e' = fold (\<lambda>i st. case muts i of None \<Rightarrow> st | Some mut \<Rightarrow> apply_shard_mutation X mut st) order (e_store e1)"
    using assms(3) unfolding apply_batch_mutations_def by (auto simp: bind_eq_Some_conv)
  have "e_store e1 = e_store e"
    using e1(1) log_batch_store [of e ops e1] by (cases "ops = []") auto
  moreover have "store_inv X (case muts i of None \<Rightarrow> st | Some mut \<Rightarrow> apply_shard_mutation X mut st)" if "store_inv X st" for i st
    using apply_shard_mutation_inv [OF assms(1) that] assms(4) that by (cases "muts i") auto
  ultimately show ?thesis
    unfolding e1(2) using assms(2) by (intro fold_store_inv) simp_all
next
  case True
  with assms(2,3) show ?thesis
    by (simp add: apply_batch_mutations_def)
qed

lemma fold_merkle_reachable:
  "(\<And>x m. x \<in> set xs \<Longrightarrow> merkle_reachable h m \<Longrightarrow> merkle_reachable h (f x m)) \<Longrightarrow> merkle_reachable h m \<Longrightarrow> merkle_reachable h (fold f xs m)"
  by (induction xs arbitrary: m) auto

lemma recompute_reachable:
  assumes "merkle_reachable h m"
  shows "merkle_reachable h (recompute_dirty h m)"
  unfolding recompute_folds
  by (intro merkle_reachable.Step [OF _ merkle_step.L0] fold_merkle_reachable assms)
    (auto intro: merkle_reachable.Step merkle_step.intros)

lemma root_store_inv: "store_inv X (e_store e) \<Longrightarrow> store_inv X (e_store (snd (get_merkle_root_hash X e)))"
  by (auto simp: store_inv_def get_merkle_root_hash_def get_root_hash_def Let_def shards_inv_def blobs_inv_def
      leaves_inv_def creds_inv_def get_view_def recompute_reachable recompute_leaves)

lemma open_empty_store: "e_store (engine_open X no_fail [] node ph io) = store_init X"
  by (simp add: engine_open_def recover_def wal_open_def replay_def)

lemma reachable_inv: "reachable X e \<Longrightarrow> ext_laws X \<Longrightarrow> meta_small X \<Longrightarrow> store_inv X (e_store e)"
proof (induction rule: reachable.induct)
  case (Core e i)
  then show ?case
    by (auto simp: core_step_def store_inv_put split: list.splits)
qed (auto simp: open_empty_store store_inv_init ext_laws_def batch_put_store root_store_inv
    intro: exec_store_inv apply_batch_mutations_inv)

subsection \<open>The root hash is a function of the content\<close>

lemma shards_ext:
  assumes "shards_inv X st" and "shards_inv X st'" and "\<And>k. get_view X st k = get_view X st' k"
  shows "shards st = shards st'"
proof (rule ext, rule om_ext)
  fix i k
  show "om_inv (shards st i)" "om_inv (shards st' i)"
    using assms(1,2) by (simp_all add: shards_inv_def)
  show "om_find (shards st i) k = om_find (shards st' i) k"
  proof (cases "get_routing_shard X k = i")
    case True
    with assms(3) [of k] show ?thesis by (simp add: get_view_def)
  next
    case False
    then have "om_find (shards st i) k = None" "om_find (shards st' i) k = None"
      using assms(1,2) by (auto simp: om_find_None shards_inv_def)
    then show ?thesis by simp
  qed
qed

lemma root_of_content:
  assumes "store_inv X (e_store e)"
  shows "fst (get_merkle_root_hash X e) = ref_root (xxh3 X) (leaf_content X (shards (e_store e)))"
proof -
  have "merkle_inv (xxh3 X) (s_merkle (e_store e))" and l: "leaves (s_merkle (e_store e)) = leaf_content X (shards (e_store e))"
    using assms merkle_reachable_inv by (auto simp: store_inv_def leaves_inv_def)
  from recompute_reference(4) [OF this(1)] l show ?thesis
    by (simp add: get_merkle_root_hash_def get_root_hash_def Let_def)
qed

text \<open>C26. Replicas holding the same blobs agree on the root hash: for two engines reached by any histories of requests,
  batches, core-thread updates and root computations, if every key has the same blob in both then the root
  hashes exchanged by the sync protocol are equal, and each is the hash tree over the XOR, per bucket, of
  the hashes of the blobs stored there.\<close>

theorem content_determines_root:
  assumes "ext_laws X" and "meta_small X" and "reachable X e" and "reachable X e'"
    and "\<forall>k. get_view X (e_store e) k = get_view X (e_store e') k"
  shows "fst (get_merkle_root_hash X e) = fst (get_merkle_root_hash X e') \<and>
    fst (get_merkle_root_hash X e) = ref_root (xxh3 X) (leaf_content X (shards (e_store e)))"
proof -
  have i: "store_inv X (e_store e)" "store_inv X (e_store e')"
    using assms reachable_inv by auto
  then have "shards (e_store e) = shards (e_store e')"
    using assms(5) by (intro shards_ext) (auto simp: store_inv_def)
  with root_of_content [OF i(1)] root_of_content [OF i(2)] show ?thesis
    by simp
qed

lemma sample_reachable: "reachable demo sample_engine"
  unfolding sample_engine_def by (rule reachable.Open)

theorem content_determines_root_witness:
  "\<exists>e e'. engine_put demo sample_engine (bs ''k'') (bs ''v'') ADMIN_UID = Some (Inr (), e) \<and>
     e' = snd (get_merkle_root_hash demo e) \<and>
     fst (get_merkle_root_hash demo e) = fst (get_merkle_root_hash demo e')"
proof -
  obtain e where e: "engine_put demo sample_engine (bs ''k'') (bs ''v'') ADMIN_UID = Some (Inr (), e)"
    using sample_put by (auto simp: bind_eq_Some_conv)
  then have "exec demo sample_engine (Put (bs ''k'') (bs ''v'') ADMIN_UID) = Some (Inr (), e)"
    unfolding exec.simps .
  then have r: "reachable demo e"
    using reachable.Request [OF sample_reachable] sample_fits(1) by (metis sized_request.simps(1))
  have "\<forall>k. get_view demo (e_store e) k = get_view demo (e_store (snd (get_merkle_root_hash demo e))) k"
    by (simp add: get_merkle_root_hash_def Let_def split_def get_view_def)
  from content_determines_root [OF demo_ext_laws demo_meta_small r reachable.Root [OF r] this] e show ?thesis
    by blast
qed

subsection \<open>Access rules and deletes\<close>

lemma suffix_behind: "suffix (c # n) (a @ c # b) \<Longrightarrow> c \<notin> set n \<Longrightarrow> suffix n b"
  by (fastforce simp: suffix_def append_eq_append_conv2 append_eq_Cons_conv Cons_eq_append_conv)

lemma hook_user_rules: "acl_table (hook_user X cm key body) = acl_table cm"
  by (auto simp: hook_user_def Let_def register_user_def acl_table_def acls_of_def fun_eq_iff split: option.splits)

lemma meta_hook_rules:
  assumes "sort_spec (std_sort X)" and "acl_inv cm" and "\<not> suffix (bs ''meta'') p"
  shows "acl_table (cred_hook X cm (meta_key_s key) body) u p = acl_table cm u p"
proof -
  have "q \<noteq> p" if "split_at 0x3A (drop 8 (meta_key_s key)) = Some (w, q)" for w q
  proof -
    have d: "drop 8 (meta_key_s key) = w @ 0x3A # q"
      using split_at_Some [OF that] by simp
    have "suffix (0x3A # bs ''meta'') (meta_key_s key)"
      using meta_key_s_suffix [of key] d by (auto simp: byte_of_char_def)
    moreover have "suffix (drop 8 (meta_key_s key)) (meta_key_s key)"
      by (rule suffix_drop)
    ultimately have "suffix (0x3A # bs ''meta'') (w @ 0x3A # q) \<or> suffix (w @ 0x3A # q) (0x3A # bs ''meta'')"
      unfolding d using suffix_same_cases by blast
    then have "suffix (bs ''meta'') q"
    proof
      assume "suffix (0x3A # bs ''meta'') (w @ 0x3A # q)"
      then show ?thesis
        by (rule suffix_behind) (simp add: byte_of_char_def)
    next
      assume "suffix (w @ 0x3A # q) (0x3A # bs ''meta'')"
      then obtain zs where "0x3A # bs ''meta'' = (zs @ w) @ 0x3A # q"
        by (auto simp: suffix_def)
      then show ?thesis
        by (cases "zs @ w") (auto simp: byte_of_char_def Cons_eq_append_conv)
    qed
    with assms(3) show ?thesis by blast
  qed
  then show ?thesis
    using acl_table_set_acl [OF assms(1,2)]
    by (auto simp: cred_hook_def hook_user_rules hook_acl_def split: option.splits)
qed

text \<open>Deleting a \<open>sys:acl:\<close> key does not revoke the rule it granted: after any delete, every access rule stands as
  before, for every user and every prefix (only a rule for a prefix ending in \<open>meta\<close> can change, because the
  write of the tombstone's metadata passes through the same hook). A rule goes away only by being overwritten.\<close>

theorem delete_keeps_rules:
  assumes "ext_laws X" and "acl_inv (s_creds (e_store e))"
    and "engine_del X e key uid = Some (r, e')" and "\<not> suffix (bs ''meta'') p"
  shows "acl_table (s_creds (e_store e')) u p = acl_table (s_creds (e_store e)) u p"
proof (cases "e_store e' = e_store e")
  case False
  then obtain b where "can_write (s_creds (e_store e)) uid key" "engine_del X e key uid = Some (Inr b, e')"
    using assms(3) engine_del_outcome by blast
  then obtain mv where "e_store e' = apply_put X (snd (apply_del X (e_store e) key)) (meta_key_s key) mv"
    using engine_del_store by metis
  then have "s_creds (e_store e') = cred_hook X (s_creds (e_store e)) (meta_key_s key) mv"
    by (simp add: apply_put_parts apply_del_def)
  then show ?thesis
    using assms by (simp add: meta_hook_rules ext_laws_def)
qed simp

definition granted_store :: store where
  "granted_store = apply_put demo (store_init demo) (bs ''sys:acl:7:k'') (bs ''READ'')"

lemma granted_rule:
  "acl_inv (s_creds granted_store)" "acl_table (s_creds granted_store) 7 (bs ''k'') = Some READ"
proof -
  have i: "creds_inv (store_init demo)" "creds_inv granted_store"
    using demo_ext_laws sample_store_init(2) store_inv_put [of demo _ "bs ''READ''"]
    by (auto simp: granted_store_def store_inv_def fits_binary byte_of_char_def)
  have "s_creds granted_store = hook_acl demo (s_creds (store_init demo)) (bs ''sys:acl:7:k'') (bs ''READ'')"
    by (simp add: granted_store_def apply_put_parts cred_hook_def starts_with_def byte_of_char_def)
  also have "\<dots> = set_acl (std_sort demo) (s_creds (store_init demo)) 7 (bs ''k'') READ"
    by (simp add: hook_acl_def split_at_def byte_of_char_def stoul_def parse_num_def is_space_def is_digit_def
        digits_val_def acl_perm_def contains_def starts_with_def perm_or_def NONE_def READ_def)
  finally show "acl_table (s_creds granted_store) 7 (bs ''k'') = Some READ"
    using i demo_ext_laws by (simp add: acl_table_set_acl creds_inv_def ext_laws_def)
  show "acl_inv (s_creds granted_store)"
    using i by (simp add: creds_inv_def)
qed

theorem delete_keeps_rules_witness:
  "\<exists>r e'. engine_del demo (sample_engine\<lparr>e_store := granted_store\<rparr>) (bs ''sys:acl:7:k'') ADMIN_UID = Some (r, e') \<and>
     acl_table (s_creds (e_store e')) 7 (bs ''k'') = Some READ"
proof -
  obtain e' where e': "engine_del demo (sample_engine\<lparr>e_store := granted_store\<rparr>) (bs ''sys:acl:7:k'') ADMIN_UID = Some (Inr True, e')"
    using sample_del [of "bs ''sys:acl:7:k''" granted_store] by auto
  have "\<not> suffix (bs ''meta'') (bs ''k'')"
    by (auto simp: suffix_def append_eq_Cons_conv)
  from delete_keeps_rules [OF demo_ext_laws _ e' this, of 7] granted_rule e' show ?thesis
    by auto
qed

end
