(* ===== verification/Engine_Lww.thy ===== *)
theory Engine_Lww
  imports Engine_Invariant
begin

text \<open>
  Last writer wins. \<open>Engine::apply_mutation\<close> keeps a received mutation when its timestamp is above the one recorded in
  the key's metadata. The locale states what replicas need of that step; its consequence is that two
  replicas that received the same mutations, in whatever order and with whatever repetitions, agree.
\<close>

subsection \<open>The contract\<close>

primrec deliver_all :: "('m \<Rightarrow> 's \<Rightarrow> 's option) \<Rightarrow> 'm list \<Rightarrow> 's \<Rightarrow> 's option" where
  "deliver_all step [] s = Some s"
| "deliver_all step (m # ms) s = Option.bind (step m s) (deliver_all step ms)"

lemma Max_insert_max: "finite A \<Longrightarrow> Max (insert (max a b) A) = Max (insert a (insert b A))"
  by (cases "A = {}") (simp_all add: max.assoc)

locale lww_replica =
  fixes inv :: "'s \<Rightarrow> bool"
    and ok :: "'s \<Rightarrow> 'm \<Rightarrow> bool"
    and watched :: "'s \<Rightarrow> 'k \<Rightarrow> bool"
    and stamp :: "'s \<Rightarrow> 'k \<Rightarrow> 't :: linorder"
    and content :: "'s \<Rightarrow> 'k \<Rightarrow> 'v"
    and step :: "'m \<Rightarrow> 's \<Rightarrow> 's option"
    and m_key :: "'m \<Rightarrow> 'k"
    and m_stamp :: "'m \<Rightarrow> 't"
    and m_content :: "'s \<Rightarrow> 'm \<Rightarrow> 'v"
  assumes step_inv: "inv s \<Longrightarrow> ok s m \<Longrightarrow> step m s = Some s' \<Longrightarrow> inv s'"
    and step_frame: "inv s \<Longrightarrow> ok s m \<Longrightarrow> step m s = Some s' \<Longrightarrow>
      ok s' = ok s \<and> watched s' = watched s \<and> m_content s' = m_content s"
    and step_stamp: "inv s \<Longrightarrow> ok s m \<Longrightarrow> step m s = Some s' \<Longrightarrow> watched s k \<Longrightarrow>
      stamp s' k = (if k = m_key m then max (stamp s k) (m_stamp m) else stamp s k)"
    and step_content: "inv s \<Longrightarrow> ok s m \<Longrightarrow> step m s = Some s' \<Longrightarrow> watched s k \<Longrightarrow>
      content s' k = (if k = m_key m \<and> stamp s k < m_stamp m then m_content s m else content s k)"
begin

lemma deliver_frame:
  assumes "inv s" and "\<forall>m \<in> set ms. ok s m" and "deliver_all step ms s = Some s'"
  shows "inv s' \<and> ok s' = ok s \<and> watched s' = watched s \<and> m_content s' = m_content s"
  using assms
proof (induction ms arbitrary: s)
  case (Cons m ms)
  then obtain s1 where s1: "step m s = Some s1" "deliver_all step ms s1 = Some s'"
    by (auto simp: bind_eq_Some_conv)
  with Cons.prems step_inv [of s m s1] step_frame [of s m s1]
  have "inv s1" "ok s1 = ok s" "watched s1 = watched s" "m_content s1 = m_content s"
    by simp_all
  with Cons.IH [of s1] Cons.prems s1 show ?case
    by simp
qed simp

text \<open>After a delivery a key carries the highest timestamp seen, and the content that came with it.\<close>

lemma deliver_stamp:
  assumes "inv s" and "\<forall>m \<in> set ms. ok s m" and "deliver_all step ms s = Some s'" and "watched s k"
  shows "stamp s' k = Max (insert (stamp s k) (m_stamp ` {m \<in> set ms. m_key m = k}))"
  using assms
proof (induction ms arbitrary: s)
  case (Cons m ms)
  then obtain s1 where s1: "step m s = Some s1" "deliver_all step ms s1 = Some s'"
    by (auto simp: bind_eq_Some_conv)
  have f: "inv s1" "ok s1 = ok s" "watched s1 = watched s"
    using Cons.prems step_inv [of s m s1] step_frame [of s m s1] s1 by simp_all
  let ?A = "m_stamp ` {m \<in> set ms. m_key m = k}"
  have "stamp s' k = Max (insert (stamp s1 k) ?A)"
    using Cons.IH [of s1] Cons.prems s1 f by simp
  also have "\<dots> = Max (insert (stamp s k) (m_stamp ` {m' \<in> set (m # ms). m_key m' = k}))"
  proof (cases "m_key m = k")
    case True
    then have "m_stamp ` {m' \<in> set (m # ms). m_key m' = k} = insert (m_stamp m) ?A"
      by auto
    moreover have "stamp s1 k = max (stamp s k) (m_stamp m)"
      using True step_stamp [of s m s1 k] Cons.prems s1 by simp
    ultimately show ?thesis
      by (simp add: Max_insert_max)
  next
    case False
    then have "{m' \<in> set (m # ms). m_key m' = k} = {m \<in> set ms. m_key m = k}"
      by auto
    with False step_stamp [of s m s1 k] Cons.prems s1 show ?thesis
      by simp
  qed
  finally show ?case .
qed simp

lemma deliver_content:
  assumes "inv s" and "\<forall>m \<in> set ms. ok s m" and "deliver_all step ms s = Some s'" and "watched s k"
  shows "stamp s' k = stamp s k \<and> content s' k = content s k \<or>
    (\<exists>m \<in> set ms. m_key m = k \<and> m_stamp m = stamp s' k \<and> stamp s k < m_stamp m \<and> content s' k = m_content s m)"
  using assms
proof (induction ms arbitrary: s)
  case (Cons m ms)
  then obtain s1 where s1: "step m s = Some s1" "deliver_all step ms s1 = Some s'"
    by (auto simp: bind_eq_Some_conv)
  have f: "inv s1" "ok s1 = ok s" "watched s1 = watched s" "m_content s1 = m_content s"
    using Cons.prems step_inv [of s m s1] step_frame [of s m s1] s1 by simp_all
  have one: "stamp s1 k = (if k = m_key m then max (stamp s k) (m_stamp m) else stamp s k)"
      "content s1 k = (if k = m_key m \<and> stamp s k < m_stamp m then m_content s m else content s k)"
    using step_stamp [of s m s1 k] step_content [of s m s1 k] Cons.prems s1 by simp_all
  have "stamp s' k = stamp s1 k \<and> content s' k = content s1 k \<or>
    (\<exists>m \<in> set ms. m_key m = k \<and> m_stamp m = stamp s' k \<and> stamp s1 k < m_stamp m \<and> content s' k = m_content s m)"
    using Cons.IH [of s1] Cons.prems s1 f by simp
  then show ?case
  proof
    assume "stamp s' k = stamp s1 k \<and> content s' k = content s1 k"
    with one show ?thesis
      by (cases "k = m_key m \<and> stamp s k < m_stamp m") (auto simp: max_def)
  next
    assume "\<exists>m \<in> set ms. m_key m = k \<and> m_stamp m = stamp s' k \<and> stamp s1 k < m_stamp m \<and> content s' k = m_content s m"
    moreover have "stamp s k \<le> stamp s1 k"
      using one by simp
    ultimately show ?thesis
      by (meson list.set_intros(2) order_le_less_trans)
  qed
qed simp

text \<open>Strong convergence. Timestamps identify the mutations of a key.\<close>

lemma deliver_converges:
  assumes "inv s" "inv t" and "set ms = set ns" and "\<forall>m \<in> set ms. ok s m \<and> ok t m"
    and "deliver_all step ms s = Some s'" "deliver_all step ns t = Some t'" and "watched s k" "watched t k"
    and "stamp s k = stamp t k" "content s k = content t k" "m_content s = m_content t"
    and uniq: "\<forall>m \<in> set ms. \<forall>n \<in> set ms. m_key m = m_key n \<longrightarrow> m_stamp m = m_stamp n \<longrightarrow> m_content s m = m_content s n"
  shows "stamp s' k = stamp t' k \<and> content s' k = content t' k"
proof -
  have st: "stamp s' k = stamp t' k"
    using deliver_stamp [of s ms s' k] deliver_stamp [of t ns t' k] assms by simp
  have a: "stamp s' k = stamp s k \<and> content s' k = content s k \<or>
      (\<exists>m \<in> set ms. m_key m = k \<and> m_stamp m = stamp s' k \<and> stamp s k < m_stamp m \<and> content s' k = m_content s m)"
    using deliver_content [of s ms s' k] assms by blast
  have b: "stamp t' k = stamp t k \<and> content t' k = content t k \<or>
      (\<exists>m \<in> set ms. m_key m = k \<and> m_stamp m = stamp t' k \<and> stamp t k < m_stamp m \<and> content t' k = m_content t m)"
    using deliver_content [of t ns t' k] assms(2,4,6,8) unfolding assms(3) by blast
  have "content s' k = content t' k"
  proof (cases "stamp s' k = stamp s k")
    case True
    with a b st assms(9,10) show ?thesis by auto
  next
    case False
    then have "stamp t' k \<noteq> stamp t k"
      using st assms(9) by simp
    with False a b obtain m n where "m \<in> set ms" "n \<in> set ms" "m_key m = k" "m_key n = k" "m_stamp m = stamp s' k"
        "m_stamp n = stamp t' k" and c: "content s' k = m_content s m" "content t' k = m_content t n"
      by auto
    then have "m_content s m = m_content s n"
      using st uniq by metis
    then show ?thesis
      unfolding c assms(11) .
  qed
  with st show ?thesis ..
qed

end

subsection \<open>The engine meets it\<close>

text \<open>
  The observed keys \<open>K\<close> must be separate: no key of \<open>K\<close> is the metadata key of another, and no two share a metadata key.
  A replica is the engine together with the third-party code it is linked with and the observed keys.
\<close>

definition separate :: "bytes set \<Rightarrow> bool" where
  "separate K \<longleftrightarrow> (\<forall>k \<in> K. \<forall>k' \<in> K. meta_key_s k \<noteq> k' \<and> (k \<noteq> k' \<longrightarrow> meta_key_s k \<noteq> meta_key_s k'))"

type_synonym replica = "ext \<times> bytes set \<times> engine"

definition key_stamp :: "ext \<Rightarrow> engine \<Rightarrow> bytes \<Rightarrow> timestamp option" where
  "key_stamp X e k = stored_ts X (engine_get X e (meta_key_s k) ADMIN_UID)"

fun replica_inv :: "replica \<Rightarrow> bool" where
  "replica_inv (X, K, e) \<longleftrightarrow>
     ext_laws X \<and> meta_small X \<and> separate K \<and> store_inv X (e_store e) \<and> (\<forall>k \<in> K. key_stamp X e k \<noteq> None)"

fun replica_ok :: "replica \<Rightarrow> mutation \<Rightarrow> bool" where
  "replica_ok (X, K, e) m \<longleftrightarrow> m_key m \<in> K \<and> fits X (m_value m) \<and> int64 (wall_time (m_timestamp m))"

fun replica_watched :: "replica \<Rightarrow> bytes \<Rightarrow> bool" where
  "replica_watched (X, K, e) k \<longleftrightarrow> k \<in> K"

fun replica_stamp :: "replica \<Rightarrow> bytes \<Rightarrow> timestamp" where
  "replica_stamp (X, K, e) k = the (key_stamp X e k)"

fun replica_content :: "replica \<Rightarrow> bytes \<Rightarrow> bytes option" where
  "replica_content (X, K, e) k = value_at X (e_store e) k"

fun replica_step :: "mutation \<Rightarrow> replica \<Rightarrow> replica option" where
  "replica_step m (X, K, e) =
     (case apply_mutation X e m of Some (Inr _, e') \<Rightarrow> Some (X, K, e') | _ \<Rightarrow> None)"

fun mutation_content :: "replica \<Rightarrow> mutation \<Rightarrow> bytes option" where
  "mutation_content (X, K, e) m = Some (if m_is_delete m then [] else stored_form X (m_value m))"

lemma key_stamp_value: "key_stamp X e k =
    stored_ts X (case value_at X (e_store e) (meta_key_s k) of None \<Rightarrow> [] | Some v \<Rightarrow> v)"
  by (simp add: key_stamp_def engine_get_admin)

lemma mutate_values:
  assumes "ext_laws X" and "meta_small X" and "store_inv X st" and "fits X (m_value m)"
    and "meta_val X (m_timestamp m) (m_is_delete m) = Some mv"
  shows "value_at X (mutate_store X m mv st) k =
    (if k = meta_key_s (m_key m) then Some mv
     else if k = m_key m then Some (if m_is_delete m then [] else stored_form X (m_value m)) else value_at X st k)"
proof -
  have i: "store_inv X (if m_is_delete m then snd (apply_del X st (m_key m)) else apply_put X st (m_key m) (m_value m))"
    using assms by (simp add: store_inv_put store_inv_del)
  note mv = meta_val_stored [OF assms(1,2,5)]
  show ?thesis
    unfolding mutate_store_def value_at_put [OF assms(1) i mv(1)]
    using mv(2) value_at_put [OF assms(1,3,4)] by (simp add: value_at_del)
qed

lemma apply_mutation_stale:
  assumes "key_stamp X e (m_key m) = Some ts" and "m_timestamp m \<le> ts"
  shows "apply_mutation X e m = Some (Inr (), e)"
  using assms by (simp add: apply_mutation_def key_stamp_def)

lemma apply_mutation_fresh:
  assumes "key_stamp X e (m_key m) = Some ts" and "ts < m_timestamp m" and "apply_mutation X e m = Some (Inr (), e')"
  shows "\<exists>mv. meta_val X (m_timestamp m) (m_is_delete m) = Some mv \<and> e_store e' = mutate_store X m mv (e_store e)"
proof -
  have "\<not> m_timestamp m \<le> ts"
    using assms(2) by simp
  with assms(1,3) show ?thesis
    by (auto simp: apply_mutation_def key_stamp_def mutate_store_def Let_def bind_eq_Some_conv dest!: log_batch_store
        split: option.splits if_splits)
qed

declare replica_step.simps [simp del]

lemma replica_step_Some:
  "replica_step m (X, K, e) = Some s' \<longleftrightarrow> (\<exists>e'. apply_mutation X e m = Some (Inr (), e') \<and> s' = (X, K, e'))"
proof (cases "apply_mutation X e m")
  case (Some p)
  obtain r e1 where "p = (r, e1)"
    by (rule prod.exhaust)
  with Some show ?thesis
    by (cases r) (auto simp: replica_step.simps)
qed (simp add: replica_step.simps)

lemma replica_stepD:
  assumes "replica_inv (X, K, e)" and "replica_ok (X, K, e) m" and "replica_step m (X, K, e) = Some s'"
  obtains e' where "s' = (X, K, e')" "store_inv X (e_store e')"
    "\<And>k. k \<in> K \<Longrightarrow> value_at X (e_store e') k =
       (if k = m_key m \<and> the (key_stamp X e k) < m_timestamp m then mutation_content (X, K, e) m else value_at X (e_store e) k)"
    "\<And>k. k \<in> K \<Longrightarrow> key_stamp X e' k =
       Some (if k = m_key m then max (the (key_stamp X e k)) (m_timestamp m) else the (key_stamp X e k))"
proof -
  from assms(3) obtain e' where e': "apply_mutation X e m = Some (Inr (), e')" "s' = (X, K, e')"
    unfolding replica_step_Some by blast
  obtain ts where ts: "key_stamp X e (m_key m) = Some ts"
    using assms(1,2) by auto
  have known: "key_stamp X e k = Some (the (key_stamp X e k))" if "k \<in> K" for k
    using assms(1) that by auto
  show thesis
  proof (cases "m_timestamp m \<le> ts")
    case True
    then have "e' = e"
      using apply_mutation_stale [of X e m] ts e'(1) by simp
    show thesis
      using known True ts assms(1) by (intro that [of e']) (auto simp: \<open>e' = e\<close> e'(2) max_def)
  next
    case False
    then have new: "ts < m_timestamp m" by simp
    then obtain mv where mv: "meta_val X (m_timestamp m) (m_is_delete m) = Some mv"
        "e_store e' = mutate_store X m mv (e_store e)"
      using apply_mutation_fresh [of X e m] ts e'(1) by blast
    have laws: "ext_laws X" "meta_small X" "store_inv X (e_store e)" "fits X (m_value m)" "separate K" "m_key m \<in> K"
      using assms(1,2) by simp_all
    have val: "value_at X (e_store e') k = (if k = meta_key_s (m_key m) then Some mv
        else if k = m_key m then mutation_content (X, K, e) m else value_at X (e_store e) k)" for k
      unfolding mv(2) by (simp add: mutate_values [OF laws(1-4) mv(1)])
    have "store_inv X (e_store e')"
      unfolding mv(2) using laws meta_val_stored(1) [OF laws(1,2) mv(1)] by (intro mutate_store_inv)
    moreover have "stored_ts X mv = Some (m_timestamp m)"
      using meta_val_reads [of X "m_timestamp m" "m_is_delete m"] laws(1) assms(2) mv(1) by (auto simp: ext_laws_def)
    ultimately show thesis
      using e'(2) val laws(5,6) new ts known meta_key_s_neq [of "m_key m"] meta_key_s_neq [of "m_key m", symmetric]
      by (intro that [of e']) (auto simp: key_stamp_value separate_def max_def)
  qed
qed

interpretation lwr: lww_replica replica_inv replica_ok replica_watched replica_stamp replica_content replica_step
  m_key m_timestamp mutation_content
proof unfold_locales
  fix s m s' k assume s: "replica_inv s" "replica_ok s m" "replica_step m s = Some s'"
  obtain X K e where x: "s = (X, K, e)"
    by (cases s) auto
  obtain e' where e': "s' = (X, K, e')" "store_inv X (e_store e')"
      "\<And>k. k \<in> K \<Longrightarrow> value_at X (e_store e') k =
         (if k = m_key m \<and> the (key_stamp X e k) < m_timestamp m then mutation_content (X, K, e) m else value_at X (e_store e) k)"
      "\<And>k. k \<in> K \<Longrightarrow> key_stamp X e' k =
         Some (if k = m_key m then max (the (key_stamp X e k)) (m_timestamp m) else the (key_stamp X e k))"
    using replica_stepD s unfolding x by blast
  show "replica_inv s'" using s(1) e' x by simp
  show "replica_ok s' = replica_ok s \<and> replica_watched s' = replica_watched s \<and> mutation_content s' = mutation_content s"
    by (simp add: e'(1) x fun_eq_iff)
  show "replica_watched s k \<Longrightarrow>
      replica_stamp s' k = (if k = m_key m then max (replica_stamp s k) (m_timestamp m) else replica_stamp s k)"
    using e'(4) [of k] by (simp add: e'(1) x)
  show "replica_watched s k \<Longrightarrow> replica_content s' k =
      (if k = m_key m \<and> replica_stamp s k < m_timestamp m then mutation_content s m else replica_content s k)"
    using e'(3) [of k] by (auto simp: e'(1) x)
qed

subsection \<open>Convergence of engines\<close>

lemma run_deliver:
  assumes "run X e (map Mutate ms) = Some (os, e')" and "\<forall>o' \<in> set os. o' = Inr ()"
  shows "deliver_all replica_step ms (X, K, e) = Some (X, K, e')"
  using assms
proof (induction ms arbitrary: e os)
  case (Cons m ms)
  then obtain o1 e1 os1 where s: "apply_mutation X e m = Some (o1, e1)" "run X e1 (map Mutate ms) = Some (os1, e')" "os = o1 # os1"
    by (auto simp: bind_eq_Some_conv)
  with Cons.prems have "replica_step m (X, K, e) = Some (X, K, e1)"
    by (auto simp: replica_step_Some)
  with Cons.IH [OF s(2)] Cons.prems s(3) show ?case
    by simp
qed simp

lemma open_replica:
  assumes "ext_laws X" and "meta_small X" and "separate K"
  shows "replica_inv (X, K, engine_open X no_fail [] node ph io)"
    "key_stamp X (engine_open X no_fail [] node ph io) k = Some (Timestamp 0 0 0)"
    "value_at X (e_store (engine_open X no_fail [] node ph io)) k = None"
proof -
  show v: "value_at X (e_store (engine_open X no_fail [] node ph io)) k = None" for k
    by (simp add: open_empty_store store_init_def value_at_def get_view_def)
  show t: "key_stamp X (engine_open X no_fail [] node ph io) k = Some (Timestamp 0 0 0)" for k
    by (simp add: key_stamp_value v stored_ts_def)
  show "replica_inv (X, K, engine_open X no_fail [] node ph io)"
    using assms by (simp add: t open_empty_store store_inv_init ext_laws_def)
qed

definition same_mutation :: "mutation \<Rightarrow> mutation \<Rightarrow> bool" where
  "same_mutation m n \<longleftrightarrow> m_is_delete m = m_is_delete n \<and> m_value m = m_value n"

text \<open>C4. Replicas converge, last writer wins: two fresh nodes that received the same set of mutations, in any orders and with any
  repetitions, all applied without an error, hold the same value for every key, provided the timestamps of
  a key identify its mutations and the keys are separate from each other's metadata keys; and the value of
  a key is the one of its latest mutation, a delete reading as empty.\<close>

theorem lww_convergence:
  assumes "ext_laws X" and "meta_small X" and "separate (m_key ` set ms)" and "set ms = set ns"
    and "run X (engine_open X no_fail [] node ph io) (map Mutate ms) = Some (os, e)" and "\<forall>r \<in> set os. r = Inr ()"
    and "run X (engine_open X no_fail [] node' ph' io') (map Mutate ns) = Some (os', f)" and "\<forall>r \<in> set os'. r = Inr ()"
    and "\<forall>m \<in> set ms. fits X (m_value m) \<and> int64 (wall_time (m_timestamp m)) \<and> Timestamp 0 0 0 < m_timestamp m"
    and "\<forall>m \<in> set ms. \<forall>n \<in> set ms. m_key m = m_key n \<longrightarrow> m_timestamp m = m_timestamp n \<longrightarrow> same_mutation m n"
  shows "\<forall>m \<in> set ms. engine_get X e (m_key m) ADMIN_UID = engine_get X f (m_key m) ADMIN_UID \<and>
    ((\<forall>n \<in> set ms. m_key n = m_key m \<longrightarrow> m_timestamp n \<le> m_timestamp m) \<longrightarrow>
      engine_get X e (m_key m) ADMIN_UID = (if m_is_delete m then [] else stored_form X (m_value m)))"
proof
  fix m assume m: "m \<in> set ms"
  let ?K = "m_key ` set ms"
  let ?s = "(X, ?K, engine_open X no_fail [] node ph io)" and ?t = "(X, ?K, engine_open X no_fail [] node' ph' io')"
  note d = run_deliver [OF assms(5,6), of ?K] and d' = run_deliver [OF assms(7,8), of ?K]
  note opn = open_replica [OF assms(1-3)]
  have ok: "\<forall>m \<in> set ms. replica_ok ?s m" "\<forall>m \<in> set ms. replica_ok ?s m \<and> replica_ok ?t m"
    using assms(9) by auto
  have "replica_stamp (X, ?K, e) (m_key m) = replica_stamp (X, ?K, f) (m_key m) \<and>
      replica_content (X, ?K, e) (m_key m) = replica_content (X, ?K, f) (m_key m)"
  proof (rule lwr.deliver_converges [OF opn(1) opn(1) assms(4) ok(2) d d'])
    show "\<forall>m \<in> set ms. \<forall>n \<in> set ms. m_key m = m_key n \<longrightarrow> m_timestamp m = m_timestamp n \<longrightarrow>
        mutation_content ?s m = mutation_content ?s n"
      using assms(10) unfolding same_mutation_def mutation_content.simps by metis
    show "mutation_content ?s = mutation_content ?t"
      by (simp add: fun_eq_iff)
  qed (use m in \<open>simp_all add: opn(2,3)\<close>)
  moreover have "value_at X (e_store e) (m_key m) = mutation_content ?s m"
    if top: "\<forall>n \<in> set ms. m_key n = m_key m \<longrightarrow> m_timestamp n \<le> m_timestamp m"
  proof -
    have "replica_watched ?s (m_key m)"
      using m by simp
    note stamp = lwr.deliver_stamp [OF opn(1) ok(1) d this]
    have st: "replica_stamp (X, ?K, e) (m_key m) = m_timestamp m"
      unfolding stamp using top m assms(9) opn(2) by (intro Max_eqI) (auto simp: less_imp_le)
    have "Timestamp 0 0 0 < m_timestamp m"
      using assms(9) m by blast
    moreover have "replica_stamp ?s (m_key m) = Timestamp 0 0 0"
      by (simp add: opn(2))
    moreover have "replica_watched ?s (m_key m)"
      using m by simp
    ultimately obtain n where n: "n \<in> set ms" "m_key n = m_key m" "m_timestamp n = m_timestamp m"
        "replica_content (X, ?K, e) (m_key m) = mutation_content ?s n"
      using lwr.deliver_content [OF opn(1) ok(1) d, of "m_key m"] st by force
    then have "same_mutation n m"
      using assms(10) m by blast
    with n(4) show ?thesis
      by (simp add: same_mutation_def)
  qed
  ultimately show "engine_get X e (m_key m) ADMIN_UID = engine_get X f (m_key m) ADMIN_UID \<and>
    ((\<forall>n \<in> set ms. m_key n = m_key m \<longrightarrow> m_timestamp n \<le> m_timestamp m) \<longrightarrow>
      engine_get X e (m_key m) ADMIN_UID = (if m_is_delete m then [] else stored_form X (m_value m)))"
    by (auto simp: engine_get_admin)
qed

definition sample_mutation :: "int \<Rightarrow> bytes \<Rightarrow> bool \<Rightarrow> mutation" where
  "sample_mutation w v d = \<lparr>m_timestamp = Timestamp w 0 1, m_key = bs ''k'', m_value = v, m_is_delete = d\<rparr>"

definition writes_left :: "nat \<Rightarrow> engine \<Rightarrow> bool" where
  "writes_left n e \<longleftrightarrow> at_end (e_wal e) \<and> (\<exists>j \<ge> n. e_io e = replicate j (Wrote 1000))"

lemma demo_meta_length: "meta_val demo now t = Some mv \<Longrightarrow> length mv < 200"
  by (auto simp: meta_val_def demo_setters demo_set_def put_field_def put_string_def codec_simps split: if_splits)

lemma demo_mutate:
  assumes "replica_inv (demo, {bs ''k''}, e)" and "replica_ok (demo, {bs ''k''}, e) m" and "length (m_value m) < 100"
    and "writes_left (Suc n) e"
  shows "\<exists>e'. apply_mutation demo e m = Some (Inr (), e') \<and> replica_inv (demo, {bs ''k''}, e') \<and> writes_left n e'"
proof -
  have k: "m_key m = bs ''k''"
    using assms(2) by simp
  obtain ts where ts: "key_stamp demo e (m_key m) = Some ts"
    using assms(1,2) by (auto simp: k)
  have "\<exists>e'. apply_mutation demo e m = Some (Inr (), e') \<and> writes_left n e'"
  proof (cases "m_timestamp m \<le> ts")
    case True
    with apply_mutation_stale [OF ts] assms(4) show ?thesis
      by (auto simp: writes_left_def dest: Suc_leD)
  next
    case False
    obtain mv where mv: "meta_val demo (m_timestamp m) (m_is_delete m) = Some mv"
      using meta_val_reads [of demo "m_timestamp m" "m_is_delete m"] demo_ext_laws assms(2) by (auto simp: ext_laws_def)
    let ?ops = "[if m_is_delete m then bop DELETE (m_key m) [] else bop PUT (m_key m) (m_value m), bop PUT (meta_key_s (m_key m)) mv]"
    have sz: "batch_payload_size ?ops < 900"
      using demo_meta_length [OF mv] assms(3) sample_meta_key by (auto simp: batch_payload_size_def k)
    obtain j where j: "n \<le> j" "e_io e = Wrote 1000 # replicate j (Wrote 1000)" "at_end (e_wal e)"
      using assms(4) by (auto simp: writes_left_def Suc_le_eq gr0_conv_Suc dest!: less_imp_Suc_add)
    obtain e2 where e2: "log_batch e ?ops = Some e2" "at_end (e_wal e2)" "e_io e2 = replicate j (Wrote 1000)"
      using log_batch_returns [OF j(2) _ j(3), of ?ops] sz by (auto simp: length_batch_image)
    show ?thesis
      using ts False mv e2 j(1) by (auto simp: apply_mutation_def key_stamp_def Let_def writes_left_def)
  qed
  then obtain e' where e': "apply_mutation demo e m = Some (Inr (), e')" "writes_left n e'"
    by blast
  then have "replica_step m (demo, {bs ''k''}, e) = Some (demo, {bs ''k''}, e')"
    by (simp add: replica_step_Some)
  with e' lwr.step_inv [OF assms(1,2)] show ?thesis
    by blast
qed

lemma demo_run:
  assumes "replica_inv (demo, {bs ''k''}, e)" and "\<forall>m \<in> set ms. replica_ok (demo, {bs ''k''}, e) m \<and> length (m_value m) < 100"
    and "writes_left (length ms) e"
  shows "\<exists>os e'. run demo e (map Mutate ms) = Some (os, e') \<and> (\<forall>r \<in> set os. r = Inr ())"
  using assms
proof (induction ms arbitrary: e)
  case (Cons m ms)
  then obtain e1 where e1: "apply_mutation demo e m = Some (Inr (), e1)" "replica_inv (demo, {bs ''k''}, e1)"
      "writes_left (length ms) e1"
    using demo_mutate [of e m "length ms"] by auto
  moreover have "\<forall>m \<in> set ms. replica_ok (demo, {bs ''k''}, e1) m \<and> length (m_value m) < 100"
    using Cons.prems(2) by auto
  ultimately show ?case
    using Cons.IH [of e1] by force
qed simp

definition demo_node :: "u32 \<Rightarrow> engine" where
  "demo_node node = engine_open demo no_fail [] node [] (replicate 2 (Wrote 1000))"

definition early :: mutation where "early = sample_mutation 2 (bs ''a'') False"

definition late :: mutation where "late = sample_mutation 3 (bs ''v'') False"

theorem lww_convergence_witness:
  "\<exists>os e os' f. run demo (demo_node 1) (map Mutate [early, late]) = Some (os, e) \<and>
     run demo (demo_node 2) (map Mutate [late, early]) = Some (os', f) \<and>
     engine_get demo e (bs ''k'') ADMIN_UID = bs ''v'' \<and> engine_get demo f (bs ''k'') ADMIN_UID = bs ''v''"
proof -
  have sep: "separate (m_key ` set [early, late])" "m_key ` set [early, late] = {bs ''k''}"
    using meta_key_s_neq [of "bs ''k''"] by (auto simp: separate_def early_def late_def sample_mutation_def)
  have i: "replica_inv (demo, {bs ''k''}, demo_node n)" "writes_left 2 (demo_node n)" for n
    using open_replica(1) [OF demo_ext_laws demo_meta_small sep(1)]
    by (simp_all only: sep demo_node_def) (auto simp: writes_left_def engine_open_def recover_def wal_open_def)
  have m: "fits demo (m_value m) \<and> int64 (wall_time (m_timestamp m)) \<and> Timestamp 0 0 0 < m_timestamp m \<and>
      m_key m = bs ''k'' \<and> length (m_value m) < 100" if "m \<in> {early, late}" for m
    using that by (auto simp: early_def late_def sample_mutation_def fits_binary byte_of_char_def int64_def ts_less_def less_timestamp_def)
  have ex: "\<exists>os e. run demo (demo_node n) (map Mutate ms) = Some (os, e) \<and> (\<forall>r \<in> set os. r = Inr ())"
    if "length ms = 2" "set ms = {early, late}" for n ms
    using that i m by (intro demo_run) auto
  obtain os e where r: "run demo (demo_node 1) (map Mutate [early, late]) = Some (os, e)" "\<forall>r \<in> set os. r = Inr ()"
    using ex [of "[early, late]" 1] by (auto simp del: run.simps list.map)
  obtain os' f where r': "run demo (demo_node 2) (map Mutate [late, early]) = Some (os', f)" "\<forall>r \<in> set os'. r = Inr ()"
    using ex [of "[late, early]" 2] by (auto simp del: run.simps list.map)
  have "\<forall>m \<in> set [early, late]. engine_get demo e (m_key m) ADMIN_UID = engine_get demo f (m_key m) ADMIN_UID \<and>
    ((\<forall>n \<in> set [early, late]. m_key n = m_key m \<longrightarrow> m_timestamp n \<le> m_timestamp m) \<longrightarrow>
      engine_get demo e (m_key m) ADMIN_UID = (if m_is_delete m then [] else stored_form demo (m_value m)))"
  proof (rule lww_convergence [OF demo_ext_laws demo_meta_small sep(1) _ r [unfolded demo_node_def] r' [unfolded demo_node_def]])
    show "\<forall>m \<in> set [early, late]. fits demo (m_value m) \<and> int64 (wall_time (m_timestamp m)) \<and> Timestamp 0 0 0 < m_timestamp m"
      using m by simp
  qed (auto simp: early_def late_def sample_mutation_def same_mutation_def)
  moreover have "\<forall>n \<in> set [early, late]. m_key n = m_key late \<longrightarrow> m_timestamp n \<le> m_timestamp late" "\<not> m_is_delete late"
    by (simp_all add: early_def late_def sample_mutation_def less_eq_timestamp_def ts_leq_def ts_less_def)
  moreover have "late \<in> set [early, late]"
    by simp
  ultimately have "engine_get demo e (m_key late) ADMIN_UID = engine_get demo f (m_key late) ADMIN_UID"
      "engine_get demo e (m_key late) ADMIN_UID = stored_form demo (m_value late)"
    by metis+
  then have "engine_get demo e (bs ''k'') ADMIN_UID = bs ''v''" "engine_get demo f (bs ''k'') ADMIN_UID = bs ''v''"
    using sample_fits(2) by (auto simp: late_def sample_mutation_def)
  with r(1) r'(1) show ?thesis
    by blast
qed

end
