(* ===== verification/Engine_Scan.thy ===== *)
theory Engine_Scan
  imports Engine_Invariant
begin

text \<open>
  Scans of the store (\<open>src/engine/store.hpp\<close>, \<open>get_bucket_keys\<close> to \<open>get_prefix_keys_all_shards\<close>), and what a batch queues.
  A scan runs as one task on the thread of the scanned shard, so it sees one state of that shard's map.
  The loops are recursions over what is left of the map from \<open>lower_bound\<close> on; each carries the chunk
  collected so far.
\<close>

subsection \<open>Buckets\<close>

definition bucket_scan :: "ext \<Rightarrow> int \<Rightarrow> blob omap \<Rightarrow> (bytes \<times> u64) list" where
  "bucket_scan X bucket_idx m =
     map (\<lambda>(k, v). (k, hash_blob X v)) (filter (\<lambda>(k, v). (of_nat (bucket_of (xxh3 X) k) :: u32) = word_of_int bucket_idx) m)"

definition get_bucket_keys :: "ext \<Rightarrow> store \<Rightarrow> int \<Rightarrow> (bytes \<times> u64) list" where
  "get_bucket_keys X st bucket_idx = concat (map (\<lambda>i. bucket_scan X bucket_idx (shards st i)) [0..<SHARDS])"

subsection \<open>Prefixes\<close>

definition eff_start :: "bytes \<Rightarrow> bytes \<Rightarrow> bytes" where
  "eff_start pfx start_key = (if start_key < pfx then pfx else start_key)"

primrec chunk_loop ::
    "ext \<Rightarrow> zstd_manager \<Rightarrow> bytes \<Rightarrow> bytes \<Rightarrow> nat \<Rightarrow> blob omap \<Rightarrow> (bytes \<times> bytes) list \<Rightarrow> (bytes \<times> bytes) list" where
  "chunk_loop X z pfx start_key limit [] chunk = chunk"
| "chunk_loop X z pfx start_key limit (kv # m) chunk =
     (if \<not> starts_with pfx (fst kv) then chunk
      else if ends_with (bs '':meta'') (fst kv) then chunk_loop X z pfx start_key limit m chunk
      else if fst kv > start_key \<or> chunk = [] \<and> fst kv \<ge> start_key
      then (if length (buf (snd kv)) > 0
            then (let vstr = (if compressed (snd kv) then zm_decompress X z (buf (snd kv)) (unat (original_size (snd kv)))
                              else buf (snd kv));
                      chunk = chunk @ [(fst kv, vstr)]
                  in if length chunk \<ge> limit then chunk else chunk_loop X z pfx start_key limit m chunk)
            else chunk_loop X z pfx start_key limit m chunk)
      else chunk_loop X z pfx start_key limit m chunk)"

definition get_prefix_chunk :: "ext \<Rightarrow> store \<Rightarrow> bytes \<Rightarrow> nat \<Rightarrow> bytes \<Rightarrow> nat \<Rightarrow> (bytes \<times> bytes) list" where
  "get_prefix_chunk X st pfx shard_idx start_key limit =
     (if shard_idx \<ge> SHARDS then []
      else chunk_loop X (s_zstd st) pfx start_key limit (om_lower_bound (shards st shard_idx) (eff_start pfx start_key)) [])"

definition get_prefix_entries_all_shards :: "ext \<Rightarrow> store \<Rightarrow> bytes \<Rightarrow> bytes \<Rightarrow> nat \<Rightarrow> (bytes \<times> bytes) list" where
  "get_prefix_entries_all_shards X st pfx start_key limit_per_shard =
     concat (map (\<lambda>i. get_prefix_chunk X st pfx i start_key limit_per_shard) [0..<SHARDS])"

primrec keys_loop :: "bytes \<Rightarrow> bytes \<Rightarrow> nat \<Rightarrow> blob omap \<Rightarrow> bytes list \<Rightarrow> bytes list" where
  "keys_loop pfx start_key limit [] chunk = chunk"
| "keys_loop pfx start_key limit (kv # m) chunk =
     (if \<not> starts_with pfx (fst kv) then chunk
      else if length (buf (snd kv)) = 0 \<or> ends_with (bs '':meta'') (fst kv) then keys_loop pfx start_key limit m chunk
      else if fst kv > start_key \<or> chunk = [] \<and> fst kv \<ge> start_key
      then (let chunk = chunk @ [fst kv]
            in if length chunk \<ge> limit then chunk else keys_loop pfx start_key limit m chunk)
      else keys_loop pfx start_key limit m chunk)"

definition get_prefix_keys :: "store \<Rightarrow> bytes \<Rightarrow> nat \<Rightarrow> bytes \<Rightarrow> nat \<Rightarrow> bytes list" where
  "get_prefix_keys st pfx shard_idx start_key limit =
     (if shard_idx \<ge> SHARDS then []
      else keys_loop pfx start_key limit (om_lower_bound (shards st shard_idx) (eff_start pfx start_key)) [])"

primrec all_keys_loop :: "bytes \<Rightarrow> nat \<Rightarrow> blob omap \<Rightarrow> bytes list \<Rightarrow> bytes list" where
  "all_keys_loop pfx limit_per_shard [] chunk = chunk"
| "all_keys_loop pfx limit_per_shard (kv # m) chunk =
     (if \<not> starts_with pfx (fst kv) then chunk
      else if length (buf (snd kv)) = 0 \<or> ends_with (bs '':meta'') (fst kv) then all_keys_loop pfx limit_per_shard m chunk
      else (let chunk = chunk @ [fst kv]
            in if length chunk \<ge> limit_per_shard then chunk else all_keys_loop pfx limit_per_shard m chunk))"

definition get_prefix_keys_all_shards :: "store \<Rightarrow> bytes \<Rightarrow> bytes \<Rightarrow> nat \<Rightarrow> bytes list" where
  "get_prefix_keys_all_shards st pfx start_key limit_per_shard =
     concat (map (\<lambda>i. all_keys_loop pfx limit_per_shard (om_lower_bound (shards st i) (eff_start pfx start_key)) []) [0..<SHARDS])"

subsection \<open>What a prefix scan returns\<close>

lemma starts_with_prefix: "starts_with p s \<longleftrightarrow> Sublist.prefix p s"
  by (auto simp: starts_with_def Sublist.prefix_def) (metis append_take_drop_id)

text \<open>Strings with a common prefix are an interval of the order.\<close>

lemma prefix_interval: "p \<le> k \<Longrightarrow> k \<le> k' \<Longrightarrow> Sublist.prefix p (k' :: bytes) \<Longrightarrow> Sublist.prefix p k"
proof (induction p arbitrary: k k')
  case (Cons a p)
  then obtain k1' where k': "k' = a # k1'" "Sublist.prefix p k1'"
    by (cases k') simp_all
  from Cons.prems(1) obtain b k1 where k: "k = b # k1"
    by (cases k) auto
  from Cons.prems k k' have "a = b" "p \<le> k1" "k1 \<le> k1'"
    by (auto simp: Cons_le_Cons)
  with Cons.IH k k' show ?case
    by simp
qed simp

text \<open>The entries a scan is meant to return, in key order: live values, no metadata.\<close>

definition listed :: "bytes \<Rightarrow> bytes \<Rightarrow> bytes \<times> blob \<Rightarrow> bool" where
  "listed pfx start kv \<longleftrightarrow>
     Sublist.prefix pfx (fst kv) \<and> start \<le> fst kv \<and> \<not> ends_with (bs '':meta'') (fst kv) \<and> buf (snd kv) \<noteq> []"

definition entry_value :: "ext \<Rightarrow> zstd_manager \<Rightarrow> bytes \<times> blob \<Rightarrow> bytes \<times> bytes" where
  "entry_value X z kv = (fst kv, blob_value X z (snd kv))"

lemma no_more_listed:
  assumes "om_inv (kv # m)" and "pfx \<le> fst kv" and "\<not> Sublist.prefix pfx (fst kv)"
  shows "filter (listed pfx start) m = []"
proof -
  have "\<not> listed pfx start e" if "e \<in> set m" for e
  proof -
    have "fst kv < fst e"
      using assms(1) that by (cases kv) (simp add: om_inv_Cons)
    then have "fst kv \<le> fst e"
      by simp
    with assms(2,3) prefix_interval [of pfx "fst kv" "fst e"] show ?thesis
      by (auto simp: listed_def)
  qed
  then show ?thesis
    by (simp add: filter_empty_conv)
qed

lemma chunk_loop_listed:
  assumes "om_inv m" and "\<forall>e \<in> set m. pfx \<le> fst e \<and> start \<le> fst e" and "chunk \<noteq> [] \<longrightarrow> (\<forall>e \<in> set m. start < fst e)"
    and "length chunk < max 1 limit"
  shows "chunk_loop X z pfx start limit m chunk =
    chunk @ take (max 1 limit - length chunk) (map (entry_value X z) (filter (listed pfx start) m))"
  using assms
proof (induction m arbitrary: chunk)
  case (Cons kv m)
  have inv: "om_inv m" "\<forall>e \<in> set m. fst kv < fst e"
    using Cons.prems(1) by (cases kv; simp add: om_inv_Cons)+
  then have above: "\<forall>e \<in> set m. start < fst e"
    using Cons.prems(2) by (meson list.set_intros(1) order_le_less_trans)
  note IH = Cons.IH [OF inv(1)]
  show ?case
  proof (cases "Sublist.prefix pfx (fst kv)")
    case False
    then have "\<not> listed pfx start kv"
      by (simp add: listed_def)
    with no_more_listed [OF Cons.prems(1) _ False, of start] Cons.prems(2) False show ?thesis
      by (simp add: starts_with_prefix)
  next
    case pf: True
    show ?thesis
    proof (cases "listed pfx start kv")
      case False
      have skip: "chunk_loop X z pfx start limit (kv # m) chunk = chunk_loop X z pfx start limit m chunk"
        using False Cons.prems(2) pf by (auto simp: starts_with_prefix listed_def)
      show ?thesis
        unfolding skip using IH [of chunk] Cons.prems False by simp
    next
      case True
      have c: "start < fst kv \<or> chunk = [] \<and> start \<le> fst kv"
        using Cons.prems(2,3) by auto
      let ?v = "entry_value X z kv"
      have "chunk_loop X z pfx start limit (kv # m) chunk =
          (if length chunk + 1 \<ge> limit then chunk @ [?v] else chunk_loop X z pfx start limit m (chunk @ [?v]))"
        using True c by (simp add: listed_def starts_with_prefix entry_value_def blob_value_def Let_def)
      moreover have "max 1 limit - length chunk = Suc (max 1 limit - Suc (length chunk))"
        using Cons.prems(4) by simp
      ultimately show ?thesis
        using IH [of "chunk @ [?v]"] True Cons.prems(2,4) above by (auto simp: max_def split: if_splits)
    qed
  qed
qed simp

lemma filter_lower_bound:
  assumes "om_inv m" and "\<And>e. fst e < k \<Longrightarrow> \<not> P e"
  shows "filter P (om_lower_bound m k) = filter P m"
  unfolding om_lower_bound_def using assms(2) by (induction m) auto

lemma prefix_le: "Sublist.prefix p (k :: bytes) \<Longrightarrow> p \<le> k"
  by (induction p k rule: list_induct2') auto

lemma listed_from_start: "fst kv < eff_start pfx start \<Longrightarrow> \<not> listed pfx start kv"
  using prefix_le [of pfx "fst kv"] by (auto simp: eff_start_def listed_def split: if_splits)

lemma get_prefix_chunk_listed:
  assumes "shards_inv X st" and "i < SHARDS"
  shows "get_prefix_chunk X st pfx i start limit =
    take (max 1 limit) (map (entry_value X (s_zstd st)) (filter (listed pfx start) (shards st i)))"
proof -
  let ?m = "om_lower_bound (shards st i) (eff_start pfx start)"
  have inv: "om_inv (shards st i)"
    using assms(1) by (simp add: shards_inv_def)
  have "\<forall>e \<in> set ?m. pfx \<le> fst e \<and> start \<le> fst e"
    by (auto simp: set_om_lower_bound [OF inv] eff_start_def split: if_splits)
  then have "chunk_loop X (s_zstd st) pfx start limit ?m [] =
      take (max 1 limit) (map (entry_value X (s_zstd st)) (filter (listed pfx start) ?m))"
    using chunk_loop_listed [OF om_inv_lower_bound [OF inv], of "eff_start pfx start" pfx start "[]" limit] by simp
  then show ?thesis
    using assms(2) by (simp add: get_prefix_chunk_def filter_lower_bound [OF inv listed_from_start])
qed

lemma value_at_entry:
  assumes "shards_inv X st"
  shows "value_at X st k = Some v \<longleftrightarrow> (\<exists>i < SHARDS. \<exists>b. (k, b) \<in> set (shards st i) \<and> blob_value X (s_zstd st) b = v)"
proof -
  have inv: "om_inv (shards st i)" "\<And>e. e \<in> set (shards st i) \<Longrightarrow> get_routing_shard X (fst e) = i" for i
    using assms by (auto simp: shards_inv_def)
  have "value_at X st k = Some v \<longleftrightarrow> (\<exists>b. (k, b) \<in> set (shards st (get_routing_shard X k)) \<and> blob_value X (s_zstd st) b = v)"
    by (auto simp: value_at_def get_view_def om_find_eq_Some [OF inv(1)])
  with inv(2) get_routing_shard_less [of X k] show ?thesis
    by (metis fst_conv)
qed

text \<open>A prefix scan returns one page of exactly the live entries: the chunk of a shard is the first \<open>limit\<close> (at least one)
  of the shard's entries, in key order, that start with the prefix, are not below \<open>start_key\<close> (which is
  inclusive), are not metadata and are not deleted, each with its uncompressed value.\<close>

theorem prefix_chunk_page:
  assumes "store_inv X st" and "i < SHARDS"
  shows "get_prefix_chunk X st pfx i start limit =
    take (max 1 limit) (map (entry_value X (s_zstd st)) (filter (listed pfx start) (shards st i)))"
  using assms by (simp add: get_prefix_chunk_listed store_inv_def)

text \<open>C25. A scan of all shards with a large enough limit is complete and exact: it returns precisely the keys with the prefix,
  from \<open>start_key\<close> on, that are not metadata and have a value, each with the value a reader gets.\<close>

theorem prefix_scan_complete:
  assumes "ext_laws X" and "store_inv X st" and "\<forall>i < SHARDS. length (shards st i) \<le> limit"
  shows "set (get_prefix_entries_all_shards X st pfx start limit) =
    {(k, v). value_at X st k = Some v \<and> v \<noteq> [] \<and> Sublist.prefix pfx k \<and> start \<le> k \<and> \<not> ends_with (bs '':meta'') k}"
proof -
  have sh: "shards_inv X st" "blobs_inv X st"
    using assms(2) by (simp_all add: store_inv_def)
  have all: "get_prefix_chunk X st pfx i start limit = map (entry_value X (s_zstd st)) (filter (listed pfx start) (shards st i))"
    if "i < SHARDS" for i
  proof -
    have "length (filter (listed pfx start) (shards st i)) \<le> limit"
      using assms(3) that length_filter_le le_trans by blast
    then show ?thesis
      unfolding get_prefix_chunk_listed [OF sh(1) that] by simp
  qed
  have emp: "buf b = [] \<longleftrightarrow> blob_value X (s_zstd st) b = []" if "(k, b) \<in> set (shards st i)" for k b i
  proof -
    have "get_routing_shard X (fst (k, b)) = i" "om_inv (shards st i)"
      using sh(1) that unfolding shards_inv_def by blast+
    then have "get_view X st k = Some b"
      using that by (simp add: get_view_def om_find_eq_Some)
    with sh(2) assms(1) show ?thesis
      by (intro blob_ok_empty) (auto simp: blobs_inv_def ext_laws_def)
  qed
  have "(k, v) \<in> set (get_prefix_entries_all_shards X st pfx start limit) \<longleftrightarrow>
      (\<exists>i < SHARDS. \<exists>b. (k, b) \<in> set (shards st i) \<and> blob_value X (s_zstd st) b = v \<and> listed pfx start (k, b))" for k v
  proof -
    have "(k, v) \<in> set (map (entry_value X (s_zstd st)) (filter (listed pfx start) (shards st i))) \<longleftrightarrow>
        (\<exists>b. (k, b) \<in> set (shards st i) \<and> blob_value X (s_zstd st) b = v \<and> listed pfx start (k, b))" for i
      by (force simp: entry_value_def)
    moreover have "(k, v) \<in> set (get_prefix_entries_all_shards X st pfx start limit) \<longleftrightarrow>
        (\<exists>i < SHARDS. (k, v) \<in> set (get_prefix_chunk X st pfx i start limit))"
      by (auto simp: get_prefix_entries_all_shards_def)
    ultimately show ?thesis
      using all by metis
  qed
  moreover have "(\<exists>i < SHARDS. \<exists>b. (k, b) \<in> set (shards st i) \<and> blob_value X (s_zstd st) b = v \<and> listed pfx start (k, b)) \<longleftrightarrow>
      value_at X st k = Some v \<and> v \<noteq> [] \<and> Sublist.prefix pfx k \<and> start \<le> k \<and> \<not> ends_with (bs '':meta'') k" for k v
    unfolding value_at_entry [OF sh(1)] listed_def fst_conv snd_conv using emp by blast
  ultimately show ?thesis
    by auto
qed

lemma keys_loop_chunk:
  "keys_loop pfx start limit m (map fst chunk) = map fst (chunk_loop X z pfx start limit m chunk)"
proof (induction m arbitrary: chunk)
  case (Cons kv m)
  show ?case
    by (simp add: Let_def Cons [symmetric])
qed simp

lemma all_keys_loop_keys:
  assumes "om_inv m" and "\<forall>e \<in> set m. start \<le> fst e" and "chunk \<noteq> [] \<longrightarrow> (\<forall>e \<in> set m. start < fst e)"
  shows "all_keys_loop pfx limit m chunk = keys_loop pfx start limit m chunk"
  using assms
proof (induction m arbitrary: chunk)
  case (Cons kv m)
  have inv: "om_inv m" "\<forall>e \<in> set m. fst kv < fst e"
    using Cons.prems(1) by (cases kv; simp add: om_inv_Cons)+
  then have above: "\<forall>e \<in> set m. start < fst e"
    using Cons.prems(2) by (meson list.set_intros(1) order_le_less_trans)
  have IH: "all_keys_loop pfx limit m c = keys_loop pfx start limit m c" for c
    using above by (intro Cons.IH inv(1)) (auto simp: less_imp_le)
  have "start < fst kv \<or> chunk = [] \<and> start \<le> fst kv"
    using Cons.prems(2,3) by auto
  then show ?case
    by (auto simp: Let_def IH)
qed simp

text \<open>The three scans agree: the keys listed over all shards are the keys of the entries returned by the entry scan, and the
  concatenation of the single-shard key scans, for every prefix, start key and limit.\<close>

theorem prefix_scans_agree:
  assumes "store_inv X st"
  shows "get_prefix_keys_all_shards st pfx start limit = map fst (get_prefix_entries_all_shards X st pfx start limit) \<and>
    get_prefix_keys_all_shards st pfx start limit =
      concat (map (\<lambda>i. get_prefix_keys st pfx i start limit) [0..<SHARDS])"
proof -
  have one: "all_keys_loop pfx limit (om_lower_bound (shards st i) (eff_start pfx start)) [] =
      get_prefix_keys st pfx i start limit" if "i < SHARDS" for i
  proof -
    have inv: "om_inv (shards st i)"
      using assms by (simp add: store_inv_def shards_inv_def)
    have "\<forall>e \<in> set (om_lower_bound (shards st i) (eff_start pfx start)). start \<le> fst e"
      by (auto simp: set_om_lower_bound [OF inv] eff_start_def split: if_splits)
    with all_keys_loop_keys [OF om_inv_lower_bound [OF inv] this] that show ?thesis
      by (simp add: get_prefix_keys_def)
  qed
  have two: "get_prefix_keys st pfx i start limit = map fst (get_prefix_chunk X st pfx i start limit)" for i
    using keys_loop_chunk [of pfx start limit _ "[]"] by (simp add: get_prefix_keys_def get_prefix_chunk_def)
  have eq: "map (\<lambda>i. all_keys_loop pfx limit (om_lower_bound (shards st i) (eff_start pfx start)) []) [0..<SHARDS] =
      map (\<lambda>i. get_prefix_keys st pfx i start limit) [0..<SHARDS]"
    using one by simp
  show ?thesis
    unfolding get_prefix_keys_all_shards_def eq
    by (simp add: get_prefix_entries_all_shards_def two map_concat comp_def)
qed

subsection \<open>What a bucket lists\<close>

definition xor_all :: "u64 list \<Rightarrow> u64" where
  "xor_all hs = foldr (XOR) hs 0"

lemma xor_all_append: "xor_all (xs @ ys) = xor_all xs XOR xor_all ys"
  by (induction xs) (simp_all add: xor_all_def xor_ac)

lemma bucket_index: "b < 65536 \<Longrightarrow> (of_nat (bucket_of h k) :: u32) = of_nat b \<longleftrightarrow> bucket_of h k = b"
proof -
  assume b: "b < 65536"
  have "bucket_of h k < 65536"
    using bucket_of_less [of h k] by (simp add: L4_SIZE_def)
  with b have "unat (of_nat (bucket_of h k) :: u32) = bucket_of h k" "unat (of_nat b :: u32) = b"
    by (simp_all add: unat_of_nat take_bit_eq_mod)
  then show ?thesis
    by metis
qed

lemma bucket_scan_xor: "b < 65536 \<Longrightarrow> xor_all (map snd (bucket_scan X (int b) m)) = om_xor (leaf_term X b) m"
proof (induction m)
  case (Cons kv m)
  then show ?case
    by (cases kv) (simp add: bucket_scan_def xor_all_def leaf_term_def bucket_index)
qed (simp add: bucket_scan_def xor_all_def)

lemma xor_all_below: "xor_all (map snd (concat (map f [0..<n]))) = xor_below (\<lambda>i. xor_all (map snd (f i))) n"
  by (induction n) (simp_all add: xor_all_append, simp add: xor_all_def)

text \<open>C27. The listing of a bucket explains its leaf: for every bucket, \<open>get_bucket_keys\<close> returns each key of the bucket, deleted
  keys and metadata keys included, with the hash of its blob, and the exclusive-or of these hashes is the
  leaf the Merkle tree keeps for the bucket.\<close>

theorem bucket_keys_explain_leaf:
  assumes "store_inv X st" and "b < 65536"
  shows "set (get_bucket_keys X st (int b)) =
      {(k, hash_blob X v) | k v. get_view X st k = Some v \<and> bucket_of (xxh3 X) k = b} \<and>
    xor_all (map snd (get_bucket_keys X st (int b))) = leaves (s_merkle st) b"
proof
  have sh: "om_inv (shards st i)" "\<And>e. e \<in> set (shards st i) \<Longrightarrow> get_routing_shard X (fst e) = i" for i
    using assms(1) by (auto simp: store_inv_def shards_inv_def)
  have v: "get_view X st k = Some v \<longleftrightarrow> (\<exists>i < SHARDS. (k, v) \<in> set (shards st i))" for k v
    unfolding get_view_def om_find_eq_Some [OF sh(1)] using sh(2) get_routing_shard_less by (metis fst_conv)
  show "set (get_bucket_keys X st (int b)) = {(k, hash_blob X v) | k v. get_view X st k = Some v \<and> bucket_of (xxh3 X) k = b}"
    unfolding v get_bucket_keys_def bucket_scan_def by (force simp: bucket_index [OF assms(2)])
  show "xor_all (map snd (get_bucket_keys X st (int b))) = leaves (s_merkle st) b"
    using assms by (simp add: get_bucket_keys_def xor_all_below bucket_scan_xor store_inv_def leaves_inv_def leaf_content_def)
qed

subsection \<open>Queued updates\<close>

text \<open>Every queued update waits on the shard of its key, so the updates of one key are applied in order.\<close>

definition routed :: "ext \<Rightarrow> engine \<Rightarrow> bool" where
  "routed X e \<longleftrightarrow> (\<forall>i. \<forall>kv \<in> set (e_pending e i). get_routing_shard X (fst kv) = i \<and> fits X (snd kv))"

text \<open>The value a key will have when the queues are worked off.\<close>

definition settled_value :: "ext \<Rightarrow> engine \<Rightarrow> bytes \<Rightarrow> bytes option" where
  "settled_value X e k =
     (case map_of (rev (e_pending e (get_routing_shard X k))) k of
        None \<Rightarrow> value_at X (e_store e) k
      | Some v \<Rightarrow> Some (stored_form X v))"

lemma core_step_settled:
  assumes "ext_laws X" and "store_inv X (e_store e)" and "routed X e"
  shows "store_inv X (e_store (core_step X i e)) \<and> routed X (core_step X i e) \<and>
    settled_value X (core_step X i e) = settled_value X e"
proof (cases "e_pending e i")
  case (Cons kv r)
  obtain k v where kv: "kv = (k, v)"
    by (rule prod.exhaust)
  have f: "get_routing_shard X k = i" "fits X v"
    using assms(3) Cons kv unfolding routed_def by (metis fst_conv list.set_intros(1), metis snd_conv list.set_intros(1))
  have st: "core_step X i e = e\<lparr>e_pending := (e_pending e)(i := r), e_store := apply_put X (e_store e) k v\<rparr>"
    by (simp add: core_step_def Cons kv)
  have "set r \<subseteq> set (e_pending e i)"
    using Cons by auto
  then have "routed X (core_step X i e)"
    using assms(3) unfolding routed_def st by (auto dest!: subsetD)
  moreover have "settled_value X (core_step X i e) k' = settled_value X e k'" for k'
    using f Cons kv value_at_put [OF assms(1,2) f(2), of k k']
    by (auto simp: settled_value_def st map_add_def split: option.splits)
  ultimately show ?thesis
    using store_inv_put [OF assms(1,2) f(2), of k] by (auto simp: st)
qed (simp add: core_step_def assms)

lemma core_steps_settled:
  assumes "ext_laws X" and "store_inv X (e_store e)" and "routed X e"
  shows "store_inv X (e_store (fold (core_step X) sched e)) \<and> routed X (fold (core_step X) sched e) \<and>
    settled_value X (fold (core_step X) sched e) = settled_value X e"
  using assms(2,3)
proof (induction sched arbitrary: e)
  case (Cons i sched)
  with core_step_settled [OF assms(1) Cons.prems, of i] show ?case
    by simp
qed simp

lemma core_step_pending: "e_pending (core_step X i e) j = (if j = i then tl (e_pending e j) else e_pending e j)"
  by (cases "e_pending e i") (auto simp: core_step_def)

lemma core_steps_pending: "e_pending (fold (core_step X) sched e) i = drop (count_list sched i) (e_pending e i)"
  by (induction sched arbitrary: e) (simp_all add: core_step_pending drop_Suc)

text \<open>Once each core thread has had as many turns as its queue was long, in whatever order the threads take turns, every key has the value
  of the last update queued for it, or its old value if there was none.\<close>

lemma queues_settle:
  assumes "ext_laws X" and "store_inv X (e_store e)" and "routed X e"
    and "\<forall>i < SHARDS. length (e_pending e i) \<le> count_list sched i"
  shows "value_at X (e_store (fold (core_step X) sched e)) k = settled_value X e k"
proof -
  let ?e' = "fold (core_step X) sched e"
  have "e_pending ?e' (get_routing_shard X k) = []"
    using assms(4) get_routing_shard_less [of X k] by (simp add: core_steps_pending)
  then have "value_at X (e_store ?e') k = settled_value X ?e' k"
    by (simp add: settled_value_def)
  with core_steps_settled [OF assms(1-3), of sched] show ?thesis
    by simp
qed

subsection \<open>What a batch queues\<close>

text \<open>What the loop of \<open>batch_put\<close> has queued for a key: its value in the batch, on its own shard.\<close>

definition works_ok :: "ext \<Rightarrow> bytes \<Rightarrow> (nat \<Rightarrow> (bytes \<times> bytes) list) \<Rightarrow> bool" where
  "works_ok X batch works \<longleftrightarrow> (\<forall>i. \<forall>kv \<in> set (works i). get_routing_shard X (fst kv) = i \<and> fits X (snd kv) \<and>
     (batch_value X batch (fst kv) = Some (Some (snd kv)) \<or> (\<exists>k \<in> set (object_keys X batch). fst kv = meta_key_s k)))"

lemma batch_put_item_works:
  assumes "ext_laws X" and "meta_small X" and "batch_put_item X batch uid k e bw = Some (Inr bw', e')"
    and "works_ok X batch (bw_works bw)" and "k \<in> set (object_keys X batch)"
    and "\<And>v. batch_value X batch k = Some (Some v) \<Longrightarrow> fits X v"
  shows "works_ok X batch (bw_works bw') \<and> (\<forall>i. set (bw_works bw i) \<subseteq> set (bw_works bw' i)) \<and>
    (\<forall>v. batch_value X batch k = Some (Some v) \<longrightarrow> (k, v) \<in> set (bw_works bw' (get_routing_shard X k)))"
  using batch_put_item_cases [OF assms(3), THEN conjunct2]
proof (elim disjE exE conjE)
  fix v now mv w assume v: "batch_value X batch k = Some (Some v)" and mv: "meta_val X now False = Some mv"
    "bw' = add_update (get_routing_shard X (meta_key_s k)) (meta_key_s k, mv) (add_update (get_routing_shard X k) (k, v) (bw\<lparr>bw_wal := w\<rparr>))"
  have "fits X mv" "fits X v"
    using meta_val_stored(1) [OF assms(1,2) mv(1)] assms(6) v by simp_all
  then show ?thesis
    using assms(4,5) v unfolding mv(2) works_ok_def by (auto simp: add_update_def)
qed (use assms(4) in auto)

lemma batch_put_loop_ConsD:
  assumes "batch_put_loop X batch uid (k # ks) e bw = Some (Inr bw', e')"
  shows "\<exists>bw1 e1. batch_put_item X batch uid k e bw = Some (Inr bw1, e1) \<and> batch_put_loop X batch uid ks e1 bw1 = Some (Inr bw', e')"
proof -
  obtain r e1 where "batch_put_item X batch uid k e bw = Some (r, e1)"
      "(case r of Inl err \<Rightarrow> Some (Inl err, e1) | Inr bw \<Rightarrow> batch_put_loop X batch uid ks e1 bw) = Some (Inr bw', e')"
    using assms by (auto simp: bind_eq_Some_conv)
  then show ?thesis
    by (cases r) auto
qed

lemma batch_put_loop_works:
  assumes "ext_laws X" and "meta_small X" and "batch_put_loop X batch uid ks e bw = Some (Inr bw', e')"
    and "works_ok X batch (bw_works bw)" and "set ks \<subseteq> set (object_keys X batch)"
    and "\<forall>k \<in> set ks. \<forall>v. batch_value X batch k = Some (Some v) \<longrightarrow> fits X v"
  shows "works_ok X batch (bw_works bw') \<and> (\<forall>i. set (bw_works bw i) \<subseteq> set (bw_works bw' i)) \<and>
    (\<forall>k \<in> set ks. \<forall>v. batch_value X batch k = Some (Some v) \<longrightarrow> (k, v) \<in> set (bw_works bw' (get_routing_shard X k)))"
  using assms(3-6)
proof (induction ks arbitrary: e bw)
  case (Cons k ks)
  from Cons.prems(1) obtain bw1 e1 where s: "batch_put_item X batch uid k e bw = Some (Inr bw1, e1)"
      "batch_put_loop X batch uid ks e1 bw1 = Some (Inr bw', e')"
    using batch_put_loop_ConsD by blast
  have k: "k \<in> set (object_keys X batch)" "set ks \<subseteq> set (object_keys X batch)"
    using Cons.prems(3) by auto
  have one: "works_ok X batch (bw_works bw1)" "\<And>i. set (bw_works bw i) \<subseteq> set (bw_works bw1 i)"
      "\<And>v. batch_value X batch k = Some (Some v) \<Longrightarrow> (k, v) \<in> set (bw_works bw1 (get_routing_shard X k))"
    using batch_put_item_works [OF assms(1,2) s(1) Cons.prems(2) k(1)] Cons.prems(4) by auto
  have "\<forall>k \<in> set ks. \<forall>v. batch_value X batch k = Some (Some v) \<longrightarrow> fits X v"
    using Cons.prems(4) by simp
  note rest = Cons.IH [OF s(2) one(1) k(2) this]
  then have "set (bw_works bw i) \<subseteq> set (bw_works bw' i)" for i
    using one(2) [of i] by blast
  moreover have "(k, v) \<in> set (bw_works bw' (get_routing_shard X k))" if "batch_value X batch k = Some (Some v)" for v
    using one(3) [OF that] rest by blast
  ultimately show ?case
    using rest by simp
qed auto

lemma batch_put_loop_empty:
  "batch_put_loop X batch uid ks e bw = Some (Inr bw', e') \<Longrightarrow> bw_wal bw' = [] \<Longrightarrow> bw_works bw' = bw_works bw \<and> bw_wal bw = []"
proof (induction ks arbitrary: e bw)
  case (Cons k ks)
  then obtain bw1 e1 where s: "batch_put_item X batch uid k e bw = Some (Inr bw1, e1)"
      "batch_put_loop X batch uid ks e1 bw1 = Some (Inr bw', e')"
    using batch_put_loop_ConsD by blast
  with Cons have "bw_works bw' = bw_works bw1" "bw_wal bw1 = []"
    by blast+
  with s(1) show ?case
    by (auto simp: batch_put_item_def bind_eq_Some_conv Let_def add_update_def split: if_splits option.split_asm)
qed auto

lemma batch_put_loop_of:
  assumes "batch_put X mem e batch uid = Some (Inr (), e1)"
  shows "\<exists>bw e2. batch_put_loop X batch uid (object_keys X batch) e \<lparr>bw_wal = [], bw_works = (\<lambda>_. [])\<rparr> = Some (Inr bw, e2)"
proof -
  obtain r e2 where l: "batch_put_loop X batch uid (object_keys X batch) e \<lparr>bw_wal = [], bw_works = (\<lambda>_. [])\<rparr> = Some (r, e2)"
    using assms by (auto simp: batch_put_def bind_eq_Some_conv)
  with assms show ?thesis
    by (cases r) (auto simp: batch_put_def)
qed

lemma batch_put_queues:
  assumes "ext_laws X" and "meta_small X" and "batch_put X mem e batch uid = Some (Inr (), e1)" and "\<forall>i. e_pending e i = []"
    and "\<forall>k v. batch_value X batch k = Some (Some v) \<longrightarrow> fits X v"
  shows "works_ok X batch (e_pending e1) \<and> (\<forall>k \<in> set (object_keys X batch). \<forall>v.
    batch_value X batch k = Some (Some v) \<longrightarrow> (k, v) \<in> set (e_pending e1 (get_routing_shard X k)))"
proof -
  obtain bw e2 where l: "batch_put_loop X batch uid (object_keys X batch) e \<lparr>bw_wal = [], bw_works = (\<lambda>_. [])\<rparr> = Some (Inr bw, e2)"
    using assms(3) batch_put_loop_of by blast
  have w: "works_ok X batch (bw_works bw) \<and> (\<forall>k \<in> set (object_keys X batch). \<forall>v.
      batch_value X batch k = Some (Some v) \<longrightarrow> (k, v) \<in> set (bw_works bw (get_routing_shard X k)))"
    using batch_put_loop_works [OF assms(1,2) l] assms(5) by (auto simp: works_ok_def)
  have p: "e_pending e2 = e_pending e"
    using batch_put_loop_only [OF l] by (simp add: only_clock_def)
  show ?thesis
  proof (cases "bw_wal bw = []")
    case True
    have "bw_works bw = (\<lambda>_. [])"
      using batch_put_loop_empty [OF l True] by simp
    with w True l assms(3,4) p show ?thesis
      by (auto simp: batch_put_def works_ok_def)
  next
    case False
    with l assms(3) obtain e3 where "log_batch e2 (stale_ops mem (bw_wal bw)) = Some e3"
        "e_pending e1 = (\<lambda>i. e_pending e3 i @ bw_works bw i)"
      by (auto simp: batch_put_def bind_eq_Some_conv)
    then have "e_pending e1 = bw_works bw"
      using p assms(4) by (auto simp: log_batch_def bind_eq_Some_conv)
    with w show ?thesis by simp
  qed
qed

subsection \<open>Samples\<close>

definition scan_store :: store where
  "scan_store = apply_put demo (store_init demo) (bs ''k'') (bs ''v'')"

lemma scan_store_facts:
  "store_inv demo scan_store" "value_at demo scan_store (bs ''k'') = Some (bs ''v'')" "length (shards scan_store i) \<le> 10"
proof -
  show "store_inv demo scan_store" "value_at demo scan_store (bs ''k'') = Some (bs ''v'')"
    unfolding scan_store_def
    using store_inv_put [OF demo_ext_laws sample_store_init(2) sample_fits(1)]
      value_at_put [OF demo_ext_laws sample_store_init(2) sample_fits(1)] sample_fits(2) by simp_all
  show "length (shards scan_store i) \<le> 10"
    by (simp add: scan_store_def apply_put_parts store_blob_def Let_def store_init_def)
qed

lemma k_not_meta: "\<not> ends_with (bs '':meta'') (bs ''k'')"
  by (simp add: ends_with_def)

theorem prefix_scan_complete_witness:
  "(bs ''k'', bs ''v'') \<in> set (get_prefix_entries_all_shards demo scan_store (bs ''k'') [] 10)"
proof -
  have "value_at demo scan_store (bs ''k'') = Some (bs ''v'')" "bs ''v'' \<noteq> []"
    using scan_store_facts by simp_all
  with prefix_scan_complete [OF demo_ext_laws scan_store_facts(1), of 10 "bs ''k''" "[]"] scan_store_facts(3) k_not_meta
  show ?thesis
    by simp
qed

theorem prefix_chunk_page_witness:
  "get_prefix_chunk demo scan_store (bs ''k'') 3 (bs ''j'') 0 =
     take 1 (map (entry_value demo (s_zstd scan_store)) (filter (listed (bs ''k'') (bs ''j'')) (shards scan_store 3)))"
  using prefix_chunk_page [OF scan_store_facts(1), of 3 "bs ''k''" "bs ''j''" 0] by (simp add: SHARDS_def)

theorem prefix_scans_agree_witness:
  "get_prefix_keys_all_shards scan_store (bs ''k'') [] 1 =
     concat (map (\<lambda>i. get_prefix_keys scan_store (bs ''k'') i [] 1) [0..<SHARDS])"
  using prefix_scans_agree [OF scan_store_facts(1)] by blast

theorem bucket_keys_explain_leaf_witness:
  "xor_all (map snd (get_bucket_keys demo scan_store 5)) = leaves (s_merkle scan_store) 5"
  using bucket_keys_explain_leaf [OF scan_store_facts(1), of 5] by simp

lemma sample_batch_value:
  "batch_value demo sample_batch k = (if k = bs ''k'' then Some (Some (bs ''v'')) else Some None)"
proof -
  have "find_field [] k = None"
    by (subst find_field.simps) (simp add: take_field_def)
  then have "demo_get sample_batch k = (if bs ''k'' = k then Some (1, bs ''v'') else None)"
    using demo_get_put [of 1 "bs ''k''" "bs ''v''" "[]" k] by (simp add: sample_batch_def demo_get_def)
  then show ?thesis
    by (cases "k = bs ''k''") (auto simp: batch_value_def demo_def simp del: bs_Cons)
qed

lemma sample_batch_put: "\<exists>e1. batch_put demo (\<lambda>_ _. 0) sample_engine sample_batch ADMIN_UID = Some (Inr (), e1)"
proof -
  let ?e = "sample_engine\<lparr>e_clock := (e_clock sample_engine)\<lparr>max_wall_time := 5\<rparr>, e_phys := [6]\<rparr>"
  let ?ops = "stale_ops (\<lambda>_ _. 0) [bop PUT (bs ''k'') (bs ''v''), bop PUT (meta_key_s (bs ''k'')) sample_meta]"
  have "batch_payload_size ?ops < 900" "?ops \<noteq> []"
    using sample_meta_eval(2) sample_meta_key
    by (simp_all add: stale_ops_def read_stale_def batch_payload_size_def bop_def)
  then obtain e2 where "log_batch ?e ?ops = Some e2"
    using log_batch_returns [of ?e 1000 "[Wrote 1000]" ?ops] sample_engine_start by (auto simp: length_batch_image)
  then show ?thesis
    by (simp add: batch_put_def sample_batch_keys batch_put_item_def sample_batch_value sample_clock sample_meta_eval
        Let_def add_update_def del: bs_Cons)
qed

end
