(* ===== verification/Mesh.thy ===== *)
theory Mesh
  imports Third_Party "HOL-Library.Monad_Syntax"
begin

text \<open>
  The peer-to-peer transport (\<open>src/engine/mesh.hpp\<close>, \<open>src/engine/mesh.cpp\<close>). Sockets and timers are those of Boost.Asio: an
  asynchronous operation is started by one step and its completion handler is another, and the handlers of a
  connection run one at a time on its strand. What a completed write put on the wire and what bytes have
  arrived are part of the state of a connection; results of system calls are arguments of the steps.
  The traffic counters the code bumps on the side are left out.
\<close>

subsection \<open>Lanes\<close>

datatype lane = Control | Express | Standard | Heavy

fun lane_code :: "lane \<Rightarrow> u32" where
  "lane_code Control = 0"
| "lane_code Express = 1"
| "lane_code Standard = 2"
| "lane_code Heavy = 3"

text \<open>A received lane is any 32-bit number cast to the enumeration.\<close>

definition lane_to_string :: "u32 \<Rightarrow> bytes" where
  "lane_to_string l =
     (if l = lane_code Control then bs ''control'' else if l = lane_code Express then bs ''express''
      else if l = lane_code Standard then bs ''standard'' else if l = lane_code Heavy then bs ''heavy''
      else bs ''unknown'')"

subsection \<open>Connections\<close>

datatype reading = Idle | Reading_Id | Reading_Header | Reading_Body u32 u32

record connection =
  c_peer_id :: u32
  c_outbox :: "bytes list"
  c_writing :: bool
  c_wire :: bytes
  c_in :: bytes
  c_state :: reading

definition conn_init :: connection where
  "conn_init = \<lparr>c_peer_id = 0, c_outbox = [], c_writing = False, c_wire = [], c_in = [], c_state = Idle\<rparr>"

text \<open>How an asynchronous write ended: all of it, or an error after some bytes.\<close>

datatype write_result = Written | Failed nat

definition do_read_header :: "connection \<Rightarrow> connection" where
  "do_read_header c = c\<lparr>c_state := Reading_Header\<rparr>"

definition do_send_id :: "u32 \<Rightarrow> write_result \<Rightarrow> connection \<Rightarrow> connection" where
  "do_send_id my_id r c =
     (case r of
        Written \<Rightarrow> do_read_header (c\<lparr>c_wire := c_wire c @ enc_u32 my_id\<rparr>)
      | Failed n \<Rightarrow> c\<lparr>c_wire := c_wire c @ take n (enc_u32 my_id)\<rparr>)"

definition do_read_id :: "connection \<Rightarrow> connection" where
  "do_read_id c = c\<lparr>c_state := Reading_Id\<rparr>"

definition conn_start :: "bool \<Rightarrow> u32 \<Rightarrow> write_result \<Rightarrow> connection \<Rightarrow> connection" where
  "conn_start is_outbound local_id r c = (if is_outbound then do_send_id local_id r c else do_read_id c)"

definition do_write :: "connection \<Rightarrow> connection" where
  "do_write c = c\<lparr>c_writing := True\<rparr>"

definition conn_send :: "bytes \<Rightarrow> connection \<Rightarrow> connection" where
  "conn_send p c =
     (let write_in_progress = (c_outbox c \<noteq> []);
          c = c\<lparr>c_outbox := c_outbox c @ [p]\<rparr>
      in if write_in_progress then c else do_write c)"

text \<open>The completion handler of \<open>do_write\<close>.\<close>

definition write_done :: "write_result \<Rightarrow> connection \<Rightarrow> connection" where
  "write_done r c =
     (case r of
        Written \<Rightarrow>
          (let c = c\<lparr>c_wire := c_wire c @ hd (c_outbox c), c_outbox := tl (c_outbox c), c_writing := False\<rparr>
           in if c_outbox c \<noteq> [] then do_write c else c)
      | Failed n \<Rightarrow> c\<lparr>c_wire := c_wire c @ take n (hd (c_outbox c)), c_writing := False\<rparr>)"

subsection \<open>Receiving\<close>

text \<open>
  The completion handler of the outstanding read, run when enough bytes have arrived; a completed body is handed to the
  message callback as sender, lane and payload. \<open>None\<close>: the read is still waiting.
\<close>

definition do_read_body :: "u32 \<Rightarrow> u32 \<Rightarrow> connection \<Rightarrow> connection" where
  "do_read_body l sz c = c\<lparr>c_state := Reading_Body l sz\<rparr>"

definition read_done :: "connection \<Rightarrow> (connection \<times> (u32 \<times> u32 \<times> bytes) option) option" where
  "read_done c =
     (case c_state c of
        Idle \<Rightarrow> None
      | Reading_Id \<Rightarrow>
          if length (c_in c) < 4 then None
          else Some (do_read_header (c\<lparr>c_peer_id := dec_u32 (take 4 (c_in c)), c_in := drop 4 (c_in c)\<rparr>), None)
      | Reading_Header \<Rightarrow>
          if length (c_in c) < 8 then None
          else Some (do_read_body (dec_u32 (take 4 (c_in c))) (dec_u32 (take 4 (drop 4 (c_in c)))) (c\<lparr>c_in := drop 8 (c_in c)\<rparr>), None)
      | Reading_Body l sz \<Rightarrow>
          if length (c_in c) < unat sz then None
          else Some (do_read_header (c\<lparr>c_in := drop (unat sz) (c_in c)\<rparr>),
                     Some (c_peer_id c, l, take (unat sz) (c_in c))))"

fun body_pending :: "reading \<Rightarrow> nat" where
  "body_pending (Reading_Body l sz) = 1"
| "body_pending _ = 0"

lemma read_done_shorter:
  "read_done c = Some (c', d) \<Longrightarrow>
     2 * length (c_in c') + body_pending (c_state c') < 2 * length (c_in c) + body_pending (c_state c)"
  by (auto simp: read_done_def do_read_header_def do_read_body_def split: reading.splits if_splits)

text \<open>All handlers that run on what has arrived so far, with the messages handed over.\<close>

function receive :: "connection \<Rightarrow> connection \<times> (u32 \<times> u32 \<times> bytes) list" where
  "receive c =
     (case read_done c of
        None \<Rightarrow> (c, [])
      | Some (c', d) \<Rightarrow> (let (c'', ds) = receive c' in (c'', (case d of None \<Rightarrow> [] | Some m \<Rightarrow> [m]) @ ds)))"
  by pat_completeness auto
termination
  by (relation "measure (\<lambda>c. 2 * length (c_in c) + body_pending (c_state c))") (auto dest: read_done_shorter)

declare receive.simps [simp del]

text \<open>Bytes arrive from the network.\<close>

definition arrive :: "bytes \<Rightarrow> connection \<Rightarrow> connection \<times> (u32 \<times> u32 \<times> bytes) list" where
  "arrive b c = receive (c\<lparr>c_in := c_in c @ b\<rparr>)"

subsection \<open>Peers\<close>

record peer =
  p_id :: u32
  p_host :: bytes
  p_port :: int
  p_conn :: nat

record mesh =
  m_id :: u32
  m_peers :: "(u32 \<times> peer) list"
  m_conns :: "connection list"
  m_delayed :: "(nat \<times> bytes) list"
  m_latency :: int

datatype mesh_error = Connect_Failed | Frame_Failed

fun peer_insert :: "u32 \<Rightarrow> peer \<Rightarrow> (u32 \<times> peer) list \<Rightarrow> (u32 \<times> peer) list" where
  "peer_insert i p [] = [(i, p)]"
| "peer_insert i p ((j, q) # r) =
     (if i < j then (i, p) # (j, q) # r else if i = j then (i, p) # r else (j, q) # peer_insert i p r)"

definition mesh_init :: "u32 \<Rightarrow> mesh" where
  "mesh_init my_id = \<lparr>m_id = my_id, m_peers = [], m_conns = [], m_delayed = [], m_latency = 0\<rparr>"

definition set_simulated_latency :: "int \<Rightarrow> mesh \<Rightarrow> mesh" where
  "set_simulated_latency ms m = m\<lparr>m_latency := ms\<rparr>"

text \<open>The accept handler: the accepted socket goes out of scope, which closes it, and the next accept is started.\<close>

definition do_accept :: "mesh \<Rightarrow> mesh" where
  "do_accept m = m"

text \<open>Resolving and connecting may throw; otherwise the connection is started and replaces that of the peer's entry.\<close>

definition mesh_connect :: "mesh \<Rightarrow> u32 \<Rightarrow> bytes \<Rightarrow> int \<Rightarrow> bool \<Rightarrow> write_result \<Rightarrow> (mesh_error + unit) \<times> mesh" where
  "mesh_connect m peer_id host port connected r =
     (if \<not> connected then (Inl Connect_Failed, m)
      else (let conn = conn_start True (m_id m) r conn_init;
                p = \<lparr>p_id = peer_id, p_host = host, p_port = port, p_conn = length (m_conns m)\<rparr>
            in (Inr (), m\<lparr>m_conns := m_conns m @ [conn], m_peers := peer_insert peer_id p (m_peers m)\<rparr>)))"

definition mesh_frame :: "ext \<Rightarrow> lane \<Rightarrow> bytes \<Rightarrow> bytes option" where
  "mesh_frame X l payload =
     (let header = enc_u32 (lane_code l) @ enc_u32 (of_nat (length payload))
      in do {
        frame \<leftarrow> set_bytes X (init_object X) (bs ''h'') header;
        set_bytes X frame (bs ''b'') payload
      })"

definition conn_update :: "nat \<Rightarrow> (connection \<Rightarrow> connection) \<Rightarrow> mesh \<Rightarrow> mesh" where
  "conn_update i f m = m\<lparr>m_conns := (m_conns m)[i := f (m_conns m ! i)]\<rparr>"

definition mesh_send :: "ext \<Rightarrow> mesh \<Rightarrow> u32 \<Rightarrow> lane \<Rightarrow> bytes \<Rightarrow> (mesh_error + bool) \<times> mesh" where
  "mesh_send X m peer_id l payload =
     (case map_of (m_peers m) peer_id of
        None \<Rightarrow> (Inr False, m)
      | Some p \<Rightarrow>
          (case mesh_frame X l payload of
             None \<Rightarrow> (Inl Frame_Failed, m)
           | Some frame \<Rightarrow>
               if m_latency m > 0 then (Inr True, m\<lparr>m_delayed := m_delayed m @ [(p_conn p, frame)]\<rparr>)
               else (Inr True, conn_update (p_conn p) (conn_send frame) m)))"

text \<open>A latency timer fires: the \<open>n\<close>-th of those outstanding.\<close>

definition timer_fired :: "nat \<Rightarrow> mesh \<Rightarrow> mesh" where
  "timer_fired n m =
     (case m_delayed m ! n of (i, frame) \<Rightarrow>
        conn_update i (conn_send frame) (m\<lparr>m_delayed := take n (m_delayed m) @ drop (Suc n) (m_delayed m)\<rparr>))"

definition get_active_peers :: "mesh \<Rightarrow> u32 list" where
  "get_active_peers m = map fst (m_peers m)"

subsection \<open>What goes out\<close>

text \<open>Any interleaving of sends and write completions on one connection, with the frames handed to it.\<close>

inductive conn_run :: "connection \<Rightarrow> bytes list \<Rightarrow> connection \<Rightarrow> bool" for c0 where
  Start: "conn_run c0 [] c0"
| Send: "conn_run c0 fs c \<Longrightarrow> conn_run c0 (fs @ [p]) (conn_send p c)"
| Done: "conn_run c0 fs c \<Longrightarrow> c_writing c \<Longrightarrow> conn_run c0 fs (write_done r c)"

definition in_order :: "bytes \<Rightarrow> connection \<Rightarrow> bool" where
  "in_order out c \<longleftrightarrow> (c_writing c \<longleftrightarrow> c_outbox c \<noteq> []) \<and> c_wire c @ concat (c_outbox c) = out"

definition wedged :: "bytes \<Rightarrow> connection \<Rightarrow> bool" where
  "wedged out c \<longleftrightarrow> \<not> c_writing c \<and> c_outbox c \<noteq> [] \<and>
     (\<exists>w n. c_wire c = w @ take n (hd (c_outbox c)) \<and> w @ concat (c_outbox c) = out)"

lemma conn_send_order: "in_order out c \<Longrightarrow> in_order (out @ p) (conn_send p c)"
  by (auto simp: in_order_def conn_send_def do_write_def Let_def)

lemma conn_send_wedged: "wedged out c \<Longrightarrow> wedged (out @ p) (conn_send p c)"
  by (auto simp: wedged_def conn_send_def Let_def hd_append)

lemma write_done_order: "in_order out c \<Longrightarrow> c_writing c \<Longrightarrow> in_order out (write_done Written c)"
  by (cases "c_outbox c") (auto simp: in_order_def write_done_def do_write_def Let_def)

lemma write_failed_wedged: "in_order out c \<Longrightarrow> c_writing c \<Longrightarrow> wedged out (write_done (Failed n) c)"
  by (auto simp: in_order_def wedged_def write_done_def)

lemma conn_run_order:
  assumes "conn_run c0 fs c" and "c_outbox c0 = []" and "\<not> c_writing c0"
  shows "in_order (c_wire c0 @ concat fs) c \<or> wedged (c_wire c0 @ concat fs) c"
  using assms(1)
proof (induction rule: conn_run.induct)
  case Start
  with assms show ?case by (simp add: in_order_def)
next
  case (Send fs c p)
  then show ?case
    using conn_send_order [of "c_wire c0 @ concat fs" c p] conn_send_wedged [of "c_wire c0 @ concat fs" c p] by auto
next
  case (Done fs c r)
  then have "in_order (c_wire c0 @ concat fs) c"
    by (auto simp: wedged_def)
  with Done show ?case
    by (cases r) (auto intro: write_done_order write_failed_wedged)
qed

lemma wedged_prefix: "wedged out c \<Longrightarrow> Sublist.prefix (c_wire c) out"
  by (cases "c_outbox c") (auto simp: wedged_def Sublist.prefix_def, metis append.assoc append_take_drop_id)

text \<open>C31. Frames leave a connection in the order they were sent, whole and without gaps: whatever the interleaving of sends and
  write completions, the bytes written so far are an initial piece of the frames sent, one after the other;
  and unless a write has failed, written and queued frames together are all frames sent.\<close>

theorem mesh_writes_in_order:
  assumes "conn_run c0 fs c" and "c_outbox c0 = []" and "\<not> c_writing c0"
  shows "Sublist.prefix (c_wire c) (c_wire c0 @ concat fs) \<and>
    (c_writing c = (c_outbox c \<noteq> []) \<longrightarrow> c_wire c @ concat (c_outbox c) = c_wire c0 @ concat fs)"
  using conn_run_order [OF assms]
proof
  assume "in_order (c_wire c0 @ concat fs) c"
  then show ?thesis
    by (simp add: in_order_def) (metis prefixI)
next
  assume "wedged (c_wire c0 @ concat fs) c"
  with wedged_prefix show ?thesis
    by (auto simp: wedged_def)
qed

theorem mesh_writes_in_order_witness:
  "c_wire (write_done Written (conn_send (bs ''b'') (conn_send (bs ''a'') conn_init))) = bs ''a'' \<and>
   Sublist.prefix (c_wire (write_done Written (conn_send (bs ''b'') (conn_send (bs ''a'') conn_init)))) (bs ''ab'')"
proof -
  have "conn_run conn_init (([] @ [bs ''a'']) @ [bs ''b'']) (write_done Written (conn_send (bs ''b'') (conn_send (bs ''a'') conn_init)))"
    by (intro conn_run.intros) (simp add: conn_send_def conn_init_def do_write_def)
  from mesh_writes_in_order [OF this] show ?thesis
    by (simp add: conn_send_def conn_init_def do_write_def write_done_def)
qed

text \<open>After a failed write the connection is never written to again, though frames go on being queued and \<open>send\<close> goes on reporting success.\<close>

lemma failed_write_wedges:
  assumes "conn_run (write_done (Failed n) c) fs c'" and "c_outbox c \<noteq> []"
  shows "c_wire c' = c_wire (write_done (Failed n) c) \<and> \<not> c_writing c' \<and> c_outbox c' = c_outbox c @ fs"
  using assms by (induction rule: conn_run.induct) (auto simp: write_done_def conn_send_def)

subsection \<open>What comes in\<close>

text \<open>The frame format the reader implements: lane and size as 32-bit numbers, then the body.\<close>

definition raw_frame :: "u32 \<times> bytes \<Rightarrow> bytes" where
  "raw_frame f = enc_u32 (fst f) @ enc_u32 (of_nat (length (snd f))) @ snd f"

text \<open>Handlers do not look past what they consume, so bytes may arrive in any pieces.\<close>

lemma read_done_more:
  "read_done c = Some (c', d) \<Longrightarrow>
     read_done (c\<lparr>c_in := c_in c @ b\<rparr>) = Some (c'\<lparr>c_in := c_in c' @ b\<rparr>, d)"
  by (auto simp: read_done_def do_read_header_def do_read_body_def split: reading.splits if_splits)

lemma receive_more:
  "receive (c\<lparr>c_in := c_in c @ b\<rparr>) =
     (let (c1, d1) = receive c; (c2, d2) = arrive b c1 in (c2, d1 @ d2))"
proof (induction c rule: receive.induct)
  case (1 c)
  show ?case
  proof (cases "read_done c")
    case None
    then show ?thesis
      by (simp add: receive.simps [of c] arrive_def split_def)
  next
    case (Some cd)
    obtain c' d where cd: "cd = (c', d)"
      by (rule prod.exhaust)
    have "receive (c'\<lparr>c_in := c_in c' @ b\<rparr>) = (let (c1, d1) = receive c'; (c2, d2) = arrive b c1 in (c2, d1 @ d2))"
      using 1 Some cd by blast
    then show ?thesis
      using read_done_more [of c c' d b] Some cd
      by (simp add: receive.simps [of c] receive.simps [of "c\<lparr>c_in := c_in c @ b\<rparr>"] split_def Let_def)
  qed
qed

primrec arrivals :: "bytes list \<Rightarrow> connection \<Rightarrow> connection \<times> (u32 \<times> u32 \<times> bytes) list" where
  "arrivals [] c = (c, [])"
| "arrivals (b # ps) c = (let (c, d) = arrive b c; (c, ds) = arrivals ps c in (c, d @ ds))"

lemma receive_idem: "receive (fst (receive c)) = (fst (receive c), [])"
proof (induction c rule: receive.induct)
  case (1 c)
  show ?case
  proof (cases "read_done c")
    case None
    then show ?thesis by (simp add: receive.simps [of c])
  next
    case (Some cd)
    with 1 show ?thesis
      by (cases cd) (simp add: receive.simps [of c] split_def Let_def)
  qed
qed

lemma arrivals_concat: "receive c = (c, []) \<Longrightarrow> arrivals ps c = arrive (concat ps) c"
proof (induction ps arbitrary: c)
  case Nil
  then show ?case by (simp add: arrive_def)
next
  case (Cons b ps)
  let ?c1 = "fst (arrive b c)"
  have "receive ?c1 = (?c1, [])"
    unfolding arrive_def by (rule receive_idem)
  then have "arrivals ps ?c1 = arrive (concat ps) ?c1"
    by (rule Cons.IH)
  moreover have "arrive (b @ concat ps) c = (let (c1, d1) = arrive b c; (c2, d2) = arrive (concat ps) c1 in (c2, d1 @ d2))"
    using receive_more [of "c\<lparr>c_in := c_in c @ b\<rparr>" "concat ps"] by (simp add: arrive_def [of "b @ concat ps"] arrive_def [of b])
  ultimately show ?case
    by (simp add: split_def Let_def)
qed

lemma receive_frames:
  assumes "c_state c = Reading_Header" and "c_in c = concat (map raw_frame fs)" and "\<forall>f \<in> set fs. length (snd f) < 2 ^ 32"
  shows "snd (receive c) = map (\<lambda>(l, b). (c_peer_id c, l, b)) fs"
  using assms
proof (induction fs arbitrary: c)
  case Nil
  then show ?case
    by (subst receive.simps) (simp add: read_done_def)
next
  case (Cons f fs)
  obtain l b where f: "f = (l, b)"
    by (rule prod.exhaust)
  let ?rest = "concat (map raw_frame fs)"
  have n: "unat (of_nat (length b) :: u32) = length b"
    using Cons.prems(3) by (simp add: f unat_of_nat take_bit_eq_mod)
  have 1: "read_done c = Some (c\<lparr>c_in := b @ ?rest, c_state := Reading_Body l (of_nat (length b))\<rparr>, None)"
    using Cons.prems(1,2) by (simp add: read_done_def do_read_body_def f raw_frame_def [of "(l, b)"] codec_simps)
  have 2: "read_done (c\<lparr>c_in := b @ ?rest, c_state := Reading_Body l (of_nat (length b))\<rparr>) =
      Some (c\<lparr>c_in := ?rest, c_state := Reading_Header\<rparr>, Some (c_peer_id c, l, b))"
    by (simp add: read_done_def do_read_header_def n)
  have "snd (receive (c\<lparr>c_in := ?rest, c_state := Reading_Header\<rparr>)) = map (\<lambda>(l, b). (c_peer_id c, l, b)) fs"
    using Cons.IH [of "c\<lparr>c_in := ?rest, c_state := Reading_Header\<rparr>"] Cons.prems(3) by simp
  then show ?case
    by (subst receive.simps, simp add: 1 split_def Let_def, subst receive.simps, simp add: 2 split_def Let_def f)
qed

text \<open>C32. The reader reassembles its frame format: however the bytes of a sequence of frames are cut into pieces by the
  network, the message callback gets exactly those frames, in order, with the identity of the connection.\<close>

theorem mesh_reader_roundtrip:
  assumes "c_state c = Reading_Header" and "c_in c = []" and "concat pieces = concat (map raw_frame fs)"
    and "\<forall>f \<in> set fs. length (snd f) < 2 ^ 32"
  shows "snd (arrivals pieces c) = map (\<lambda>(l, b). (c_peer_id c, l, b)) fs"
proof -
  have "receive c = (c, [])"
    using assms(1,2) by (subst receive.simps) (simp add: read_done_def)
  then show ?thesis
    using receive_frames [of "c\<lparr>c_in := c_in c @ concat pieces\<rparr>" fs] assms by (simp add: arrivals_concat arrive_def)
qed

theorem mesh_reader_roundtrip_witness:
  "snd (arrivals [[0, 0, 0], [0, 2, 0, 0, 0, 65], [66, 3, 0, 0, 0, 0, 0, 0, 0]] (conn_init\<lparr>c_state := Reading_Header\<rparr>)) =
     [(0, 0, [65, 66]), (0, 3, [])]"
  using mesh_reader_roundtrip [of "conn_init\<lparr>c_state := Reading_Header\<rparr>"
      "[[0, 0, 0], [0, 2, 0, 0, 0, 65], [66, 3, 0, 0, 0, 0, 0, 0, 0]]" "[(0, [65, 66]), (3, [])]"]
  by (simp add: conn_init_def raw_frame_def enc_u32_def nat_le_def)

subsection \<open>The two do not match\<close>

text \<open>C37. What \<open>send\<close> puts on the wire is not what the reader expects: the frame is a lite3 object, whose first byte is the
  object's type tag and not the lane, so a reader at a frame boundary takes the lane for a number that is
  no lane at all, whatever the payload. The message callback installed at start-up drops every such message.\<close>

theorem mesh_frames_unreadable:
  assumes "lite3_laws X" and "mesh_frame X l payload = Some frame" and "8 \<le> length frame"
    and "c_state c = Reading_Header" and "c_in c = frame @ rest"
  shows "\<exists>c' l' sz. read_done c = Some (c', None) \<and> c_state c' = Reading_Body l' sz \<and>
    (\<forall>k. l' \<noteq> lane_code k) \<and> lane_to_string l' = bs ''unknown''"
proof -
  have "lite3_object X frame"
    using assms(2) by (auto simp: mesh_frame_def Let_def bind_eq_Some_conv intro: lite3_object.Bytes [OF lite3_object.Bytes [OF lite3_object.Init]])
  then have "hd frame = 6" "frame \<noteq> []"
    using assms(1) by (auto simp: lite3_laws_def)
  then obtain r where r: "frame = 6 # r" "3 \<le> length r"
    using assms(3) by (cases frame) auto
  let ?l = "dec_u32 (take 4 (c_in c))"
  have "take 4 (c_in c) = 6 # take 3 r"
    using r by (simp add: assms(5))
  then have "unat ?l mod 256 = (6 + 256 * le_nat (take 3 r)) mod 2 ^ 32 mod 256"
    by (simp add: dec_u32_def unat_of_nat take_bit_eq_mod del: of_nat_add of_nat_mult)
  also have "\<dots> = (6 + 256 * le_nat (take 3 r)) mod 256"
    by (rule mod_mod_cancel) simp
  finally have "unat ?l mod 256 = 6"
    by simp
  then have "?l \<noteq> lane_code k" for k
    by (cases k) auto
  moreover from this have "lane_to_string ?l = bs ''unknown''"
    unfolding lane_to_string_def by metis
  moreover have "read_done c = Some (do_read_body ?l (dec_u32 (take 4 (drop 4 (c_in c)))) (c\<lparr>c_in := drop 8 (c_in c)\<rparr>), None)"
    using assms(3-5) by (simp add: read_done_def)
  ultimately show ?thesis
    by (intro exI [of _ "do_read_body ?l (dec_u32 (take 4 (drop 4 (c_in c)))) (c\<lparr>c_in := drop 8 (c_in c)\<rparr>)"] exI [of _ ?l]
        exI [of _ "dec_u32 (take 4 (drop 4 (c_in c)))"]) (simp add: do_read_body_def)
qed

theorem mesh_frames_unreadable_witness:
  "\<exists>frame c' l' sz. mesh_frame demo Control (bs ''x'') = Some frame \<and>
     read_done (conn_init\<lparr>c_in := frame, c_state := Reading_Header\<rparr>) = Some (c', None) \<and>
     c_state c' = Reading_Body l' sz \<and> l' \<noteq> lane_code Control"
proof -
  obtain frame where f: "mesh_frame demo Control (bs ''x'') = Some frame" "8 \<le> length frame"
    by (simp add: mesh_frame_def demo_def demo_set_def put_field_def put_string_def Let_def)
  from mesh_frames_unreadable [OF demo_lite3_laws f, of "conn_init\<lparr>c_in := frame, c_state := Reading_Header\<rparr>" "[]"]
  obtain c' l' sz where "read_done (conn_init\<lparr>c_in := frame, c_state := Reading_Header\<rparr>) = Some (c', None)"
      "c_state c' = Reading_Body l' sz" "\<forall>k. l' \<noteq> lane_code k"
    by auto
  with f(1) show ?thesis
    by blast
qed

end
