(* ===== verification/Sync_Manager.thy ===== *)
theory Sync_Manager
  imports Engine_Scan Engine_Lww Mesh "HOL-Library.Log_Nat"
begin

text \<open>
  The anti-entropy protocol (\<open>src/engine/sync_manager.hpp\<close>): one node compares Merkle roots with a peer, descends into the
  children whose hashes differ, lists the keys of a differing bucket, and asks for the values of the keys whose
  hashes differ. A node is its engine, its identity and what it has handed to the mesh so far. Message
  bodies are byte strings, read at the offsets the code uses.
\<close>

subsection \<open>Nodes and messages\<close>

definition SYNC_INIT :: u8 where "SYNC_INIT = 1"
definition SYNC_REQ_NODE :: u8 where "SYNC_REQ_NODE = 2"
definition SYNC_REP_NODE :: u8 where "SYNC_REP_NODE = 3"
definition SYNC_REQ_BUCKET :: u8 where "SYNC_REQ_BUCKET = 4"
definition SYNC_REP_BUCKET :: u8 where "SYNC_REP_BUCKET = 5"
definition SYNC_GET_VAL :: u8 where "SYNC_GET_VAL = 6"
definition SYNC_PUT_VAL :: u8 where "SYNC_PUT_VAL = 7"

lemmas msg_types = SYNC_INIT_def SYNC_REQ_NODE_def SYNC_REP_NODE_def SYNC_REQ_BUCKET_def SYNC_REP_BUCKET_def
  SYNC_GET_VAL_def SYNC_PUT_VAL_def

record sync_node =
  sn_engine :: engine
  sn_id :: u32
  sn_out :: "(u32 \<times> lane \<times> bytes) list"

text \<open>
  How a handler can end other than normally: an undefined operation (a read outside a buffer or an out-of-range conversion),
  a log write that has not returned, or an exception.
\<close>

datatype sync_fault = Undefined | Blocked | Threw engine_error

type_synonym handled = "(sync_fault + unit) \<times> sync_node"

definition emit :: "u32 \<Rightarrow> lane \<Rightarrow> bytes \<Rightarrow> sync_node \<Rightarrow> sync_node" where
  "emit target l pay sn = sn\<lparr>sn_out := sn_out sn @ [(target, l, pay)]\<rparr>"

definition sync_root :: "ext \<Rightarrow> sync_node \<Rightarrow> u64 \<times> sync_node" where
  "sync_root X sn = (let (h, e) = get_merkle_root_hash X (sn_engine sn) in (h, sn\<lparr>sn_engine := e\<rparr>))"

subsection \<open>Comparing trees\<close>

definition send_sync_init :: "ext \<Rightarrow> u32 \<Rightarrow> sync_node \<Rightarrow> sync_node" where
  "send_sync_init X target sn =
     (let (root, sn) = sync_root X sn
      in emit target Control (SYNC_INIT # enc_u32 (sn_id sn) @ enc_u64 root) sn)"

definition send_req_node :: "u32 \<Rightarrow> u8 \<Rightarrow> u32 \<Rightarrow> sync_node \<Rightarrow> sync_node" where
  "send_req_node target level idx_base sn =
     emit target Control (SYNC_REQ_NODE # enc_u32 (sn_id sn) @ level # enc_u32 idx_base) sn"

definition on_sync_init :: "ext \<Rightarrow> sync_node \<Rightarrow> u32 \<Rightarrow> bytes \<Rightarrow> handled" where
  "on_sync_init X sn from_id b =
     (if length b < 13 then (Inr (), sn)
      else (let their_root = dec_u64 (take 8 (drop 5 b));
                (my_root, sn) = sync_root X sn
            in (Inr (), if my_root = their_root then sn else send_req_node from_id 1 0 sn)))"

text \<open>The child index is computed in 32 bits and narrowed to \<open>int\<close> by the call.\<close>

definition child_index :: "u32 \<Rightarrow> nat \<Rightarrow> u32" where
  "child_index parent i = parent * 16 + of_nat i"

definition child_hash :: "engine \<Rightarrow> u8 \<Rightarrow> u32 \<Rightarrow> nat \<Rightarrow> u64 option" where
  "child_hash e level parent i = get_merkle_node e (int (unat level)) (sint (child_index parent i))"

definition on_req_node :: "sync_node \<Rightarrow> u32 \<Rightarrow> bytes \<Rightarrow> handled" where
  "on_req_node sn from_id b =
     (if length b < 10 then (Inr (), sn)
      else (let level = b ! 5; parent_idx = dec_u32 (take 4 (drop 6 b))
            in case those (map (child_hash (sn_engine sn) level parent_idx) [0..<16]) of
                 None \<Rightarrow> (Inl Undefined, sn)
               | Some hs \<Rightarrow>
                   (Inr (), emit from_id Control
                      (SYNC_REP_NODE # enc_u32 (sn_id sn) @ level # [0, 0, 0] @ enc_u32 parent_idx @ concat (map enc_u64 hs)) sn)))"

definition send_req_bucket :: "u32 \<Rightarrow> u32 \<Rightarrow> sync_node \<Rightarrow> sync_node" where
  "send_req_bucket target bucket_idx sn =
     emit target Control (SYNC_REQ_BUCKET # enc_u32 (sn_id sn) @ enc_u32 bucket_idx) sn"

primrec rep_node_loop :: "u32 \<Rightarrow> u8 \<Rightarrow> u32 \<Rightarrow> bytes \<Rightarrow> nat list \<Rightarrow> sync_node \<Rightarrow> handled" where
  "rep_node_loop from_id level parent_idx b [] sn = (Inr (), sn)"
| "rep_node_loop from_id level parent_idx b (i # is) sn =
     (if length b < 13 + i * 8 + 8 then (Inl Undefined, sn)
      else (let their_h = dec_u64 (take 8 (drop (13 + i * 8) b))
            in case child_hash (sn_engine sn) level parent_idx i of
                 None \<Rightarrow> (Inl Undefined, sn)
               | Some my_h \<Rightarrow>
                   rep_node_loop from_id level parent_idx b is
                     (if my_h \<noteq> their_h
                      then (if level = 4 then send_req_bucket from_id (child_index parent_idx i) sn
                            else send_req_node from_id (level + 1) (child_index parent_idx i) sn)
                      else sn)))"

definition on_rep_node :: "sync_node \<Rightarrow> u32 \<Rightarrow> bytes \<Rightarrow> handled" where
  "on_rep_node sn from_id b =
     (if length b < 13 then (Inr (), sn)
      else rep_node_loop from_id (b ! 5) (dec_u32 (take 4 (drop 9 b))) b [0..<16] sn)"

subsection \<open>Comparing buckets\<close>

definition bucket_entry :: "bytes \<times> u64 \<Rightarrow> bytes" where
  "bucket_entry p =
     (let klen = (of_nat (length (fst p)) :: u16) in enc_u16 klen @ take (unat klen) (fst p) @ enc_u64 (snd p))"

definition on_req_bucket :: "ext \<Rightarrow> sync_node \<Rightarrow> u32 \<Rightarrow> bytes \<Rightarrow> handled" where
  "on_req_bucket X sn from_id b =
     (if length b < 9 then (Inr (), sn)
      else (let bucket_idx = dec_u32 (take 4 (drop 5 b));
                keys = get_bucket_keys X (e_store (sn_engine sn)) (sint bucket_idx);
                pay = SYNC_REP_BUCKET # enc_u32 (sn_id sn) @ enc_u32 bucket_idx @ enc_u32 (of_nat (length keys)) @
                        concat (map bucket_entry (filter (\<lambda>p. \<not> ends_with (bs '':meta'') (fst p)) keys))
            in (Inr (), emit from_id Heavy pay sn)))"

definition send_get_val :: "u32 \<Rightarrow> bytes \<Rightarrow> sync_node \<Rightarrow> sync_node" where
  "send_get_val target key sn = emit target Heavy (SYNC_GET_VAL # enc_u32 (sn_id sn) @ key) sn"

definition local_hash :: "ext \<Rightarrow> engine \<Rightarrow> bytes \<Rightarrow> u64" where
  "local_hash X e key =
     (let local_buf = engine_get X e key ADMIN_UID in if length local_buf > 0 then fnv1a_64 (xxh3 X) local_buf else 0)"

primrec rep_bucket_loop :: "ext \<Rightarrow> u32 \<Rightarrow> nat \<Rightarrow> bytes \<Rightarrow> sync_node \<Rightarrow> sync_node" where
  "rep_bucket_loop X from_id 0 b sn = sn"
| "rep_bucket_loop X from_id (Suc n) b sn =
     (if length b < 10 then sn
      else (let klen = unat (dec_u16 (take 2 b))
            in if length b < 2 + klen + 8 then sn
               else (let key = take klen (drop 2 b);
                         their_h = dec_u64 (take 8 (drop (2 + klen) b))
                     in rep_bucket_loop X from_id n (drop (2 + klen + 8) b)
                          (if local_hash X (sn_engine sn) key \<noteq> their_h then send_get_val from_id key sn else sn))))"

definition on_rep_bucket :: "ext \<Rightarrow> sync_node \<Rightarrow> u32 \<Rightarrow> bytes \<Rightarrow> handled" where
  "on_rep_bucket X sn from_id b =
     (if length b < 13 then (Inr (), sn)
      else (Inr (), rep_bucket_loop X from_id (unat (dec_u32 (take 4 (drop 9 b)))) (drop 13 b) sn))"

subsection \<open>Exchanging values\<close>

definition on_get_val :: "ext \<Rightarrow> sync_node \<Rightarrow> u32 \<Rightarrow> bytes \<Rightarrow> handled" where
  "on_get_val X sn from_id b =
     (if length b < 5 then (Inr (), sn)
      else (let key = drop 5 b;
                meta = engine_get X (sn_engine sn) (key @ bs '':meta'') ADMIN_UID
            in if meta = [] then (Inr (), sn)
               else (let v = engine_get X (sn_engine sn) key ADMIN_UID;
                         pay = SYNC_PUT_VAL # enc_u32 (sn_id sn) @ enc_u16 (of_nat (length key)) @ key @
                                 enc_u16 (of_nat (length meta)) @ meta @ v
                     in (Inr (), emit from_id Heavy pay sn))))"

text \<open>
  The wall time passes through a \<open>double\<close>: rounded to 53 significant bits, ties to even, and converted back. The
  conversion is undefined when rounding has reached \<open>2 ^ 63\<close>.
\<close>

definition round_double :: "int \<Rightarrow> int" where
  "round_double i =
     (let n = nat \<bar>i\<bar>; e = floorlog 2 n - 53;
          q = n div 2 ^ e; r = n mod 2 ^ e;
          q = (if 2 * r > 2 ^ e \<or> 2 * r = 2 ^ e \<and> odd q then q + 1 else q)
      in sgn i * int (q * 2 ^ e))"

definition meta_wall :: "ext \<Rightarrow> bytes \<Rightarrow> int option" where
  "meta_wall X b =
     do {
       t \<leftarrow> get_type X b (bs ''ts'');
       if t = T_Float64 then get_f64 X b (bs ''ts'')
       else if t = T_Int64 then map_option round_double (get_i64 X b (bs ''ts''))
       else Some 0
     }"

definition meta_u32 :: "ext \<Rightarrow> bytes \<Rightarrow> bytes \<Rightarrow> u32 option" where
  "meta_u32 X b field =
     do {
       t \<leftarrow> get_type X b field;
       if t = T_Int64 \<or> t = T_Float64 then map_option word_of_int (get_i64 X b field) else Some 0
     }"

definition meta_tombstone :: "ext \<Rightarrow> bytes \<Rightarrow> bool option" where
  "meta_tombstone X b =
     do {
       t \<leftarrow> get_type X b (bs ''tombstone'');
       if t = T_Bool then get_bool X b (bs ''tombstone'') else Some False
     }"

text \<open>\<open>None\<close>: the undefined conversion. An exception falls back to the zero timestamp.\<close>

definition parse_meta :: "ext \<Rightarrow> bytes \<Rightarrow> (timestamp \<times> bool) option" where
  "parse_meta X meta_bytes =
     (if meta_bytes = [] then Some (Timestamp 0 0 0, False)
      else (case do {
                   w \<leftarrow> meta_wall X meta_bytes;
                   l \<leftarrow> meta_u32 X meta_bytes (bs ''l'');
                   n \<leftarrow> meta_u32 X meta_bytes (bs ''n'');
                   t \<leftarrow> meta_tombstone X meta_bytes;
                   Some (Timestamp w l n, t)
                 } of
              None \<Rightarrow> Some (Timestamp 0 0 0, False)
            | Some (ts, t) \<Rightarrow> if int64 (wall_time ts) then Some (ts, t) else None))"

definition sync_apply :: "ext \<Rightarrow> mutation \<Rightarrow> sync_node \<Rightarrow> handled" where
  "sync_apply X m sn =
     (case apply_mutation X (sn_engine sn) m of
        None \<Rightarrow> (Inl Blocked, sn)
      | Some (Inl err, e) \<Rightarrow> (Inl (Threw err), sn\<lparr>sn_engine := e\<rparr>)
      | Some (Inr _, e) \<Rightarrow> (Inr (), sn\<lparr>sn_engine := e\<rparr>))"

definition on_put_val :: "ext \<Rightarrow> sync_node \<Rightarrow> u32 \<Rightarrow> bytes \<Rightarrow> handled" where
  "on_put_val X sn from_id b =
     (if length b < 7 then (Inr (), sn)
      else (let klen = unat (dec_u16 (take 2 (drop 5 b))); b = drop 7 b
            in if length b < klen then (Inr (), sn)
               else (let key = take klen b; b = drop klen b
                     in if length b < 2 then (Inr (), sn)
                        else (let mlen = unat (dec_u16 (take 2 b)); b = drop 2 b
                              in if length b < mlen then (Inr (), sn)
                                 else (case parse_meta X (take mlen b) of
                                         None \<Rightarrow> (Inl Undefined, sn)
                                       | Some (ts, t) \<Rightarrow>
                                           sync_apply X \<lparr>m_timestamp = ts, m_key = key, m_value = drop mlen b, m_is_delete = t\<rparr> sn)))))"

subsection \<open>Dispatch\<close>

text \<open>Exceptions are caught; the sender is taken from the message.\<close>

definition handle_message :: "ext \<Rightarrow> sync_node \<Rightarrow> bytes \<Rightarrow> handled" where
  "handle_message X sn b =
     (if length b < 5 then (Inr (), sn)
      else (let sender_id = dec_u32 (take 4 (drop 1 b));
                t = b ! 0;
                (r, sn) = (if t = SYNC_INIT then on_sync_init X sn sender_id b
                           else if t = SYNC_REQ_NODE then on_req_node sn sender_id b
                           else if t = SYNC_REP_NODE then on_rep_node sn sender_id b
                           else if t = SYNC_REQ_BUCKET then on_req_bucket X sn sender_id b
                           else if t = SYNC_REP_BUCKET then on_rep_bucket X sn sender_id b
                           else if t = SYNC_GET_VAL then on_get_val X sn sender_id b
                           else if t = SYNC_PUT_VAL then on_put_val X sn sender_id b
                           else (Inr (), sn))
            in (case r of Inl (Threw _) \<Rightarrow> (Inr (), sn) | _ \<Rightarrow> (r, sn))))"

text \<open>One round of gossip: \<open>pick\<close> is the random number drawn for the peer.\<close>

definition trigger_gossip :: "ext \<Rightarrow> u32 list \<Rightarrow> nat \<Rightarrow> sync_node \<Rightarrow> sync_node" where
  "trigger_gossip X peers pick sn =
     (if peers = [] then sn else send_sync_init X (peers ! (pick mod length peers)) sn)"

text \<open>The background loop until it is stopped: the peers known and the number drawn at each round.\<close>

definition run_loop :: "ext \<Rightarrow> (u32 list \<times> nat) list \<Rightarrow> sync_node \<Rightarrow> sync_node" where
  "run_loop X rounds sn = fold (\<lambda>(peers, pick). trigger_gossip X peers pick) rounds sn"

subsection \<open>Message layout\<close>

lemma msg_layout [simp]:
  "dec_u32 (take 4 (drop 1 (t # enc_u32 i @ r))) = i" "drop 5 (t # enc_u32 i @ r) = r" "length (t # enc_u32 i @ r) = 5 + length r"
  "dec_u32 (take 4 (enc_u32 j @ r)) = j" "drop 4 (enc_u32 j @ r) = r"
  by (simp_all add: codec_simps)

lemma msg_fields:
  "dec_u32 (take 4 (drop 5 (t # enc_u32 i @ enc_u32 j @ r))) = j"
  "(t # enc_u32 i @ x # r) ! 5 = x" "drop 6 (t # enc_u32 i @ x # r) = r"
  "drop 9 (t # enc_u32 i @ x # a # b # c # r) = r" "drop 13 (t # enc_u32 i @ x # a # b # c # enc_u32 j @ r) = r"
  "drop 9 (t # enc_u32 i @ enc_u32 j @ r) = r" "drop 13 (t # enc_u32 i @ enc_u32 j @ enc_u32 k @ r) = r"
  by (simp_all add: codec_simps nth_append)

lemma emit_simps [simp]:
  "sn_engine (emit target l pay sn) = sn_engine sn" "sn_id (emit target l pay sn) = sn_id sn"
  "sn_out (emit target l pay sn) = sn_out sn @ [(target, l, pay)]"
  by (simp_all add: emit_def)

subsection \<open>A bucket listing is understood\<close>

definition compare_entry :: "ext \<Rightarrow> u32 \<Rightarrow> bytes \<times> u64 \<Rightarrow> sync_node \<Rightarrow> sync_node" where
  "compare_entry X from_id p sn =
     (if local_hash X (sn_engine sn) (fst p) \<noteq> snd p then send_get_val from_id (fst p) sn else sn)"

lemma bucket_entry_parts:
  assumes "length (fst p) < 65536"
  shows "bucket_entry p = enc_u16 (of_nat (length (fst p))) @ fst p @ enc_u64 (snd p)"
    "unat (of_nat (length (fst p)) :: u16) = length (fst p)"
  using assms by (simp_all add: bucket_entry_def Let_def unat_of_nat take_bit_eq_mod)

lemma rep_bucket_loop_entries:
  assumes "\<forall>p \<in> set ps. length (fst p) < 65536" and "length ps \<le> n"
  shows "rep_bucket_loop X from_id n (concat (map bucket_entry ps)) sn = fold (compare_entry X from_id) ps sn"
  using assms
proof (induction ps arbitrary: n sn)
  case Nil
  then show ?case by (cases n) simp_all
next
  case (Cons p ps)
  then obtain n' where n: "n = Suc n'" "length ps \<le> n'"
    by (cases n) auto
  let ?r = "concat (map bucket_entry ps)"
  have p: "bucket_entry p = enc_u16 (of_nat (length (fst p))) @ fst p @ enc_u64 (snd p)"
      "unat (of_nat (length (fst p)) :: u16) = length (fst p)"
    using bucket_entry_parts Cons.prems(1) by simp_all
  have "rep_bucket_loop X from_id n (bucket_entry p @ ?r) sn = rep_bucket_loop X from_id n' ?r (compare_entry X from_id p sn)"
    by (simp add: n(1) p codec_simps Let_def compare_entry_def)
  with Cons.IH [OF _ n(2)] Cons.prems(1) show ?case
    by simp
qed

lemma compare_entries:
  "sn_engine (fold (compare_entry X from_id) ps sn) = sn_engine sn \<and> sn_id (fold (compare_entry X from_id) ps sn) = sn_id sn \<and>
   sn_out (fold (compare_entry X from_id) ps sn) = sn_out sn @
     map (\<lambda>p. (from_id, Heavy, SYNC_GET_VAL # enc_u32 (sn_id sn) @ fst p)) (filter (\<lambda>p. local_hash X (sn_engine sn) (fst p) \<noteq> snd p) ps)"
proof (induction ps arbitrary: sn)
  case (Cons p ps)
  show ?case
    using Cons [of "compare_entry X from_id p sn"] by (simp add: compare_entry_def send_get_val_def)
qed simp

text \<open>C30. A bucket listing leads to exactly the right requests: when a node asks a peer for a bucket and gets the reply, it
  asks the peer for precisely the listed keys, metadata keys apart, whose stated hash differs from the hash
  of the value it reads locally, in the order listed, and changes nothing else.\<close>

theorem sync_bucket_requests:
  assumes "keys = get_bucket_keys X (e_store (sn_engine a)) (sint bucket)"
    and "\<forall>p \<in> set keys. length (fst p) < 65536" and "length keys < 2 ^ 32"
    and "handle_message X a (SYNC_REQ_BUCKET # enc_u32 (sn_id b) @ enc_u32 bucket) = (r, a')"
  shows "\<exists>pay b'. r = Inr () \<and> sn_engine a' = sn_engine a \<and> sn_out a' = sn_out a @ [(sn_id b, Heavy, pay)] \<and>
    handle_message X b pay = (Inr (), b') \<and> sn_engine b' = sn_engine b \<and>
    sn_out b' = sn_out b @ map (\<lambda>p. (sn_id a, Heavy, SYNC_GET_VAL # enc_u32 (sn_id b) @ fst p))
      (filter (\<lambda>p. \<not> ends_with (bs '':meta'') (fst p) \<and> local_hash X (sn_engine b) (fst p) \<noteq> snd p) keys)"
proof -
  let ?ps = "filter (\<lambda>p. \<not> ends_with (bs '':meta'') (fst p)) keys"
  let ?pay = "SYNC_REP_BUCKET # enc_u32 (sn_id a) @ enc_u32 bucket @ enc_u32 (of_nat (length keys)) @ concat (map bucket_entry ?ps)"
  have a: "r = Inr ()" "a' = emit (sn_id b) Heavy ?pay a"
    using assms(1,4) by (simp_all add: handle_message_def on_req_bucket_def msg_types Let_def msg_fields codec_simps)
  have "unat (of_nat (length keys) :: u32) = length keys"
    using assms(3) by (simp add: unat_of_nat take_bit_eq_mod)
  then have "handle_message X b ?pay = (Inr (), rep_bucket_loop X (sn_id a) (length keys) (concat (map bucket_entry ?ps)) b)"
    by (simp add: handle_message_def on_rep_bucket_def msg_types Let_def msg_fields codec_simps del: bs_Cons)
  moreover have "rep_bucket_loop X (sn_id a) (length keys) (concat (map bucket_entry ?ps)) b = fold (compare_entry X (sn_id a)) ?ps b"
    using assms(2) by (intro rep_bucket_loop_entries) auto
  ultimately show ?thesis
    using a compare_entries [of X "sn_id a" ?ps b] by (auto simp: filter_filter conj_commute simp del: bs_Cons)
qed

subsection \<open>Descending the tree\<close>

lemma concat_enc_nth: "i < length hs \<Longrightarrow> take 8 (drop (8 * i) (concat (map enc_u64 hs))) = enc_u64 (hs ! i)"
proof (induction hs arbitrary: i)
  case (Cons h hs)
  then show ?case
    by (cases i) (simp_all add: codec_simps drop_append)
qed simp

lemma rep_node_loop_requests:
  assumes "length hs = 16" and "\<forall>i \<in> set is. i < 16 \<and> child_hash (sn_engine sn) level parent i \<noteq> None"
    and "drop 13 b = concat (map enc_u64 hs)"
  shows "\<exists>sn'. rep_node_loop from_id level parent b is sn = (Inr (), sn') \<and> sn_engine sn' = sn_engine sn \<and> sn_id sn' = sn_id sn \<and>
    sn_out sn' = sn_out sn @ map (\<lambda>i. (from_id, Control,
        if level = 4 then SYNC_REQ_BUCKET # enc_u32 (sn_id sn) @ enc_u32 (child_index parent i)
        else SYNC_REQ_NODE # enc_u32 (sn_id sn) @ (level + 1) # enc_u32 (child_index parent i)))
      (filter (\<lambda>i. child_hash (sn_engine sn) level parent i \<noteq> Some (hs ! i)) is)"
  using assms(2)
proof (induction "is" arbitrary: sn)
  case (Cons i "is")
  have len: "length (drop 13 b) = 128"
    using assms(1) by (simp add: assms(3) length_concat comp_def codec_simps sum_list_triv)
  then have "\<not> length b < 13 + i * 8 + 8"
    using Cons.prems by auto
  have "take 8 (drop (i * 8) (concat (map enc_u64 hs))) = enc_u64 (hs ! i)"
    using Cons.prems assms(1) concat_enc_nth [of i hs] by (simp add: mult.commute)
  then have th: "dec_u64 (take 8 (drop (13 + i * 8) b)) = hs ! i"
    using assms(3) by (metis c64.dec_enc add.commute drop_drop)
  obtain mh where mh: "child_hash (sn_engine sn) level parent i = Some mh"
    using Cons.prems by auto
  let ?sn = "if mh \<noteq> hs ! i then (if level = 4 then send_req_bucket from_id (child_index parent i) sn
      else send_req_node from_id (level + 1) (child_index parent i) sn) else sn"
  have "rep_node_loop from_id level parent b (i # is) sn = rep_node_loop from_id level parent b is ?sn"
    using \<open>\<not> length b < 13 + i * 8 + 8\<close> by (simp add: mh th Let_def)
  moreover have e: "sn_engine ?sn = sn_engine sn" "sn_id ?sn = sn_id sn"
    by (simp_all add: send_req_bucket_def send_req_node_def)
  ultimately show ?case
    using Cons.IH [of ?sn] Cons.prems mh by (auto simp: send_req_bucket_def send_req_node_def)
qed simp

lemma child_hash_in_tree:
  assumes "1 \<le> unat level" "unat level \<le> 4" and "unat parent < 16 ^ (unat level - 1)" and "i < 16"
  shows "child_hash e level parent i = get_node_hash (s_merkle (e_store e)) (int (unat level)) (unat parent * 16 + i)"
    "\<exists>h. child_hash e level parent i = Some h"
proof -
  let ?n = "unat parent * 16 + i"
  have n: "?n < 16 ^ unat level"
  proof -
    have "?n < (unat parent + 1) * 16"
      using assms(4) by simp
    also have "\<dots> \<le> 16 ^ (unat level - 1) * 16"
      by (rule mult_le_mono1) (use assms(3) in simp)
    also have "\<dots> = 16 ^ unat level"
      using assms(1) by (metis Suc_diff_1 Suc_le_eq One_nat_def power_Suc2)
    finally show ?thesis .
  qed
  have "(16::nat) ^ unat level \<le> 16 ^ 4"
    using assms(2) by (intro power_increasing) auto
  then have small: "?n < 65536"
    using n by simp
  have "child_index parent i = word_of_nat ?n"
    by (simp add: child_index_def)
  then have "sint (child_index parent i) = int ?n"
    using small by (simp add: signed_of_nat signed_take_bit_int_eq_self_iff del: of_nat_add of_nat_mult)
  then show eq: "child_hash e level parent i = get_node_hash (s_merkle (e_store e)) (int (unat level)) ?n"
    unfolding child_hash_def get_merkle_node_def by (simp del: of_nat_add of_nat_mult)
  have "unat level = 1 \<or> unat level = 2 \<or> unat level = 3 \<or> unat level = 4"
    using assms(1,2) by linarith
  with n show "\<exists>h. child_hash e level parent i = Some h"
    unfolding eq by (elim disjE) (simp_all add: get_node_hash_def L3_SIZE_def L4_SIZE_def)
qed

lemma those_map_Some: "(\<And>i. i \<in> set is \<Longrightarrow> f i = Some (g i)) \<Longrightarrow> those (map f is) = Some (map g is)"
  by (induction "is") simp_all

text \<open>C29. One step of the descent asks for exactly the differing children: when a node asks a peer for the children of a tree
  node and gets the reply, it asks for precisely the children whose hashes differ between the two trees: for
  their own children above the leaves, for the bucket at the leaves.\<close>

theorem sync_node_requests:
  assumes "1 \<le> unat level" "unat level \<le> 4" and "unat parent < 16 ^ (unat level - 1)"
    and "handle_message X a (SYNC_REQ_NODE # enc_u32 (sn_id b) @ level # enc_u32 parent) = (r, a')"
  shows "\<exists>pay b'. r = Inr () \<and> sn_engine a' = sn_engine a \<and> sn_out a' = sn_out a @ [(sn_id b, Control, pay)] \<and>
    handle_message X b pay = (Inr (), b') \<and> sn_engine b' = sn_engine b \<and>
    sn_out b' = sn_out b @ map (\<lambda>i. (sn_id a, Control,
        if level = 4 then SYNC_REQ_BUCKET # enc_u32 (sn_id b) @ enc_u32 (child_index parent i)
        else SYNC_REQ_NODE # enc_u32 (sn_id b) @ (level + 1) # enc_u32 (child_index parent i)))
      (filter (\<lambda>i. child_hash (sn_engine b) level parent i \<noteq> child_hash (sn_engine a) level parent i) [0..<16])"
proof -
  define g where "g i = the (child_hash (sn_engine a) level parent i)" for i
  have g: "child_hash (sn_engine a) level parent i = Some (g i)" if "i < 16" for i
    using child_hash_in_tree(2) [OF assms(1-3) that, of "sn_engine a"] by (auto simp: g_def)
  have th: "those (map (child_hash (sn_engine a) level parent) [0..<16]) = Some (map g [0..<16])"
    using g by (intro those_map_Some) simp
  let ?pay = "SYNC_REP_NODE # enc_u32 (sn_id a) @ level # [0, 0, 0] @ enc_u32 parent @ concat (map enc_u64 (map g [0..<16]))"
  have a: "r = Inr ()" "a' = emit (sn_id b) Control ?pay a"
    using assms(4) th
    by (simp_all add: handle_message_def on_req_node_def msg_types Let_def msg_fields codec_simps nth_append del: upt_rec_numeral upt_rec)
  have "\<exists>b'. rep_node_loop (sn_id a) level parent ?pay [0..<16] b = (Inr (), b') \<and> sn_engine b' = sn_engine b \<and> sn_id b' = sn_id b \<and>
    sn_out b' = sn_out b @ map (\<lambda>i. (sn_id a, Control,
        if level = 4 then SYNC_REQ_BUCKET # enc_u32 (sn_id b) @ enc_u32 (child_index parent i)
        else SYNC_REQ_NODE # enc_u32 (sn_id b) @ (level + 1) # enc_u32 (child_index parent i)))
      (filter (\<lambda>i. child_hash (sn_engine b) level parent i \<noteq> Some (map g [0..<16] ! i)) [0..<16])"
    using child_hash_in_tree(2) [OF assms(1-3), of _ "sn_engine b"]
    by (intro rep_node_loop_requests) (auto simp: codec_simps)
  moreover have "filter (\<lambda>i. child_hash (sn_engine b) level parent i \<noteq> Some (map g [0..<16] ! i)) [0..<16] =
      filter (\<lambda>i. child_hash (sn_engine b) level parent i \<noteq> child_hash (sn_engine a) level parent i) [0..<16]"
    by (intro filter_cong) (auto simp: g)
  moreover have "handle_message X b ?pay = rep_node_loop (sn_id a) level parent ?pay [0..<16] b" 
    if "rep_node_loop (sn_id a) level parent ?pay [0..<16] b = (Inr (), b')" for b'
    unfolding handle_message_def on_rep_node_def using that
    by (simp add: msg_types Let_def msg_fields codec_simps nth_append)
  ultimately show ?thesis
    using a by auto
qed

subsection \<open>Values arrive as mutations\<close>

text \<open>Asking an object for the type of a field it does not have gives a type other than those of data.\<close>

definition unset_fields :: "ext \<Rightarrow> bool" where
  "unset_fields X \<longleftrightarrow> (\<forall>k. get_type X (init_object X) k = Some T_Other)"

lemma demo_unset_fields: "unset_fields demo"
proof -
  have "find_field [] k = None" for k
    by (subst find_field.simps) (simp add: take_field_def)
  then show ?thesis
    by (simp add: unset_fields_def demo_def demo_get_def)
qed

lemma round_double_exact:
  assumes "\<bar>i\<bar> < 2 ^ 53"
  shows "round_double i = i"
proof -
  have "nat \<bar>i\<bar> < 2 ^ 53"
    using assms by (simp add: nat_less_iff)
  then have "floorlog 2 (nat \<bar>i\<bar>) \<le> 53"
    by (intro floorlog_leI) auto
  then have "floorlog 2 (nat \<bar>i\<bar>) - 53 = 0"
    by simp
  then show ?thesis
    by (simp add: round_double_def Let_def sgn_if)
qed

lemma set_i64_fields:
  assumes "lite3_laws X" and "lite3_object X b" and "int64 v" and "set_i64 X b k v = Some b'"
  shows "get_type X b' k = Some T_Int64" "get_i64 X b' k = Some v" "k' \<noteq> k \<Longrightarrow> same_field X b b' k'" "lite3_object X b'"
proof -
  have "\<exists>b'. set_i64 X b k v = Some b' \<and> get_type X b' k = Some T_Int64 \<and> get_i64 X b' k = Some v \<and>
      (\<forall>k'. k' \<noteq> k \<longrightarrow> same_field X b b' k')"
    using assms(1-3) by (simp add: lite3_laws_def)
  with assms(4) show "get_type X b' k = Some T_Int64" "get_i64 X b' k = Some v" "k' \<noteq> k \<Longrightarrow> same_field X b b' k'"
    by simp_all
  show "lite3_object X b'"
    using assms(2,4) by (rule lite3_object.I64)
qed

lemma set_bool_fields:
  assumes "lite3_laws X" and "lite3_object X b" and "set_bool X b k v = Some b'"
  shows "get_type X b' k = Some T_Bool" "get_bool X b' k = Some v" "k' \<noteq> k \<Longrightarrow> same_field X b b' k'"
proof -
  have "\<exists>b'. set_bool X b k v = Some b' \<and> get_type X b' k = Some T_Bool \<and> get_bool X b' k = Some v \<and>
      (\<forall>k'. k' \<noteq> k \<longrightarrow> same_field X b b' k')"
    using assms(1,2) by (simp add: lite3_laws_def)
  with assms(3) show "get_type X b' k = Some T_Bool" "get_bool X b' k = Some v" "k' \<noteq> k \<Longrightarrow> same_field X b b' k'"
    by simp_all
qed

lemma int64_u32: "int64 (int (unat (x :: u32)))"
proof -
  have "int (unat x) < int (2 ^ 32)"
    unfolding of_nat_less_iff using unat_bound [of x] by simp
  moreover have "0 \<le> int (unat x)" "int (2 ^ 32) < 2 ^ 63" "- (2 ^ 63) \<le> (0 :: int)"
    by simp_all
  ultimately show ?thesis
    unfolding int64_def by linarith
qed

lemma meta_val_fields:
  assumes laws: "lite3_laws X" and w: "int64 (wall_time now)" and "meta_val X now t = Some b"
  shows "get_type X b (bs ''ts'') = Some T_Int64" "get_i64 X b (bs ''ts'') = Some (wall_time now)"
    "get_type X b (bs ''l'') = Some T_Int64" "get_i64 X b (bs ''l'') = Some (int (unat (logical now)))"
    "get_type X b (bs ''n'') = Some T_Int64" "get_i64 X b (bs ''n'') = Some (int (unat (node_id now)))"
    "get_type X b (bs ''tombstone'') = (if t then Some T_Bool else get_type X (init_object X) (bs ''tombstone''))"
    "t \<Longrightarrow> get_bool X b (bs ''tombstone'') = Some True"
proof -
  obtain b1 b2 b3 where s: "set_i64 X (init_object X) (bs ''ts'') (wall_time now) = Some b1"
      "set_i64 X b1 (bs ''l'') (int (unat (logical now))) = Some b2"
      "set_i64 X b2 (bs ''n'') (int (unat (node_id now))) = Some b3"
      "(if t then set_bool X b3 (bs ''tombstone'') True else Some b3) = Some b"
    using assms(3) by (auto simp: meta_val_def bind_eq_Some_conv)
  note 1 = set_i64_fields [OF laws lite3_object.Init w s(1)]
  note 2 = set_i64_fields [OF laws 1(4) int64_u32 s(2)]
  note 3 = set_i64_fields [OF laws 2(4) int64_u32 s(3)]
  have ne: "bs ''ts'' \<noteq> bs ''l''" "bs ''ts'' \<noteq> bs ''n''" "bs ''l'' \<noteq> bs ''n''" "bs ''ts'' \<noteq> bs ''tombstone''"
      "bs ''l'' \<noteq> bs ''tombstone''" "bs ''n'' \<noteq> bs ''tombstone''"
    by simp_all
  have b3: "get_type X b3 (bs ''ts'') = Some T_Int64" "get_i64 X b3 (bs ''ts'') = Some (wall_time now)"
    "get_type X b3 (bs ''l'') = Some T_Int64" "get_i64 X b3 (bs ''l'') = Some (int (unat (logical now)))"
    "get_type X b3 (bs ''tombstone'') = get_type X (init_object X) (bs ''tombstone'')"
    using 1(1,2) 2(1,2) 2(3) [OF ne(1)] 3(3) [OF ne(2)] 3(3) [OF ne(3)]
      1(3) [OF ne(4) [symmetric]] 2(3) [OF ne(5) [symmetric]] 3(3) [OF ne(6) [symmetric]]
    unfolding same_field_def by simp_all
  have same: "same_field X b3 b k" if "k \<noteq> bs ''tombstone''" for k
    using s(4) set_bool_fields(3) [OF laws 3(4) _ that] by (cases t) (auto simp: same_field_def simp del: bs_Cons)
  show "get_type X b (bs ''ts'') = Some T_Int64" "get_i64 X b (bs ''ts'') = Some (wall_time now)"
    "get_type X b (bs ''l'') = Some T_Int64" "get_i64 X b (bs ''l'') = Some (int (unat (logical now)))"
    "get_type X b (bs ''n'') = Some T_Int64" "get_i64 X b (bs ''n'') = Some (int (unat (node_id now)))"
    using same [OF ne(4)] same [OF ne(5)] same [OF ne(6)] b3 3(1,2) unfolding same_field_def by simp_all
  show "get_type X b (bs ''tombstone'') = (if t then Some T_Bool else get_type X (init_object X) (bs ''tombstone''))"
    using s(4) b3(5) set_bool_fields(1) [OF laws 3(4)] by (cases t) (simp_all del: bs_Cons)
  show "t \<Longrightarrow> get_bool X b (bs ''tombstone'') = Some True"
    using s(4) set_bool_fields(2) [OF laws 3(4)] by (simp del: bs_Cons)
qed

lemma parse_meta_val:
  assumes "lite3_laws X" and "unset_fields X" and "meta_val X ts t = Some mv" and "\<bar>wall_time ts\<bar> < 2 ^ 53"
  shows "parse_meta X mv = Some (ts, t)"
proof -
  have w: "int64 (wall_time ts)"
    using assms(4) by (auto simp: int64_def)
  have "mv \<noteq> []"
    using meta_val_object [OF assms(3)] assms(1) by (simp add: lite3_laws_def)
  moreover note f = meta_val_fields [OF assms(1) w assms(3)]
  have "meta_wall X mv = Some (wall_time ts)"
    unfolding meta_wall_def using f(1,2) round_double_exact [OF assms(4)] by (simp del: bs_Cons)
  moreover have "meta_u32 X mv (bs ''l'') = Some (logical ts)" "meta_u32 X mv (bs ''n'') = Some (node_id ts)"
    unfolding meta_u32_def using f(3-6) by (simp_all del: bs_Cons)
  moreover have "meta_tombstone X mv = Some t"
    unfolding meta_tombstone_def using f(7,8) assms(2) by (cases t) (simp_all add: unset_fields_def del: bs_Cons)
  ultimately show ?thesis
    using w by (simp add: parse_meta_def del: bs_Cons)
qed

lemma on_get_val_reply:
  assumes "engine_get X (sn_engine a) (key @ bs '':meta'') ADMIN_UID = mv" and "mv \<noteq> []"
  shows "handle_message X a (SYNC_GET_VAL # enc_u32 to_id @ key) =
    (Inr (), emit to_id Heavy (SYNC_PUT_VAL # enc_u32 (sn_id a) @ enc_u16 (of_nat (length key)) @ key @
       enc_u16 (of_nat (length mv)) @ mv @ engine_get X (sn_engine a) key ADMIN_UID) a)"
  using assms by (simp add: handle_message_def on_get_val_def msg_types Let_def codec_simps del: bs_Cons)

lemma on_put_val_reads:
  assumes "length key < 65536" and "length mv < 65536" and "parse_meta X mv = Some (ts, t)"
  shows "on_put_val X b i (SYNC_PUT_VAL # enc_u32 j @ enc_u16 (of_nat (length key)) @ key @ enc_u16 (of_nat (length mv)) @ mv @ v) =
    sync_apply X \<lparr>m_timestamp = ts, m_key = key, m_value = v, m_is_delete = t\<rparr> b"
proof -
  have "unat (of_nat (length key) :: u16) = length key" "unat (of_nat (length mv) :: u16) = length mv"
    using assms(1,2) by (simp_all add: unat_of_nat take_bit_eq_mod)
  then show ?thesis
    using assms(3) by (simp add: on_put_val_def Let_def codec_simps)
qed

text \<open>C20. A value exchange repairs a stale key: when a node asks a peer for a key and the peer holds a later version of it, the
  peer's reply is handled without an error and leaves the node with the peer's value and timestamp, or with
  the key deleted if the peer's version is a delete, as soon as the node's log write returns. (Wall times up to
  \<open>2 ^ 53\<close> pass exactly; keys and metadata up to 65535 bytes pass whole.)\<close>

theorem sync_repairs_key:
  assumes "unset_fields X" and "engine_get X (sn_engine a) (key @ bs '':meta'') ADMIN_UID = mv" and "meta_val X ts del = Some mv"
    and "engine_get X (sn_engine a) key ADMIN_UID = v" and "length key < 65536" and "length mv < 65536" and "\<bar>wall_time ts\<bar> < 2 ^ 53"
    and "replica_inv (X, {key}, sn_engine b)" and "replica_stamp (X, {key}, sn_engine b) key < ts" and "fits X v"
    and "apply_mutation X (sn_engine b) \<lparr>m_timestamp = ts, m_key = key, m_value = v, m_is_delete = del\<rparr> \<noteq> None"
    and "handle_message X a (SYNC_GET_VAL # enc_u32 (sn_id b) @ key) = (r, a')"
  shows "\<exists>pay b'. r = Inr () \<and> sn_out a' = sn_out a @ [(sn_id b, Heavy, pay)] \<and> handle_message X b pay = (Inr (), b') \<and>
    engine_get X (sn_engine b') key ADMIN_UID = (if del then [] else stored_form X v) \<and>
    replica_stamp (X, {key}, sn_engine b') key = ts"
proof -
  let ?pay = "SYNC_PUT_VAL # enc_u32 (sn_id a) @ enc_u16 (of_nat (length key)) @ key @ enc_u16 (of_nat (length mv)) @ mv @ v"
  let ?m = "\<lparr>m_timestamp = ts, m_key = key, m_value = v, m_is_delete = del\<rparr>"
  have laws: "ext_laws X" "lite3_laws X" "meta_small X"
    using assms(8) by (simp_all add: ext_laws_def)
  have "mv \<noteq> []"
    using meta_val_stored(3) [OF laws(1,3) assms(3)] .
  then have a: "r = Inr ()" "a' = emit (sn_id b) Heavy ?pay a"
    using on_get_val_reply [OF assms(2), of "sn_id b"] assms(4,12) by simp_all
  obtain old where old: "key_stamp X (sn_engine b) key = Some old" "old < ts"
    using assms(8,9) by auto
  obtain r0 e where r0: "apply_mutation X (sn_engine b) ?m = Some (r0, e)"
    using assms(11) by auto
  moreover have "apply_mutation X (sn_engine b) ?m \<noteq> Some (Inl err, e)" for err
    using old assms(3) by (auto simp: apply_mutation_def key_stamp_def Let_def bind_eq_Some_conv)
  with r0 have "r0 = Inr ()"
    by (cases r0) auto
  ultimately have e: "apply_mutation X (sn_engine b) ?m = Some (Inr (), e)"
    by simp
  then have h: "handle_message X b ?pay = (Inr (), b\<lparr>sn_engine := e\<rparr>)"
    using on_put_val_reads [OF assms(5,6) parse_meta_val [OF laws(2) assms(1,3,7)]]
    by (simp add: handle_message_def msg_types Let_def codec_simps sync_apply_def)
  from e have st: "replica_step ?m (X, {key}, sn_engine b) = Some (X, {key}, e)"
    by (simp add: replica_step_Some)
  have "int64 (wall_time ts)"
    using assms(7) by (auto simp: int64_def)
  then have ok: "replica_ok (X, {key}, sn_engine b) ?m" "replica_watched (X, {key}, sn_engine b) key"
    using assms(10) by simp_all
  have "engine_get X e key ADMIN_UID = (if del then [] else stored_form X v) \<and> replica_stamp (X, {key}, e) key = ts"
    using lwr.step_stamp [OF assms(8) ok(1) st ok(2)] lwr.step_content [OF assms(8) ok(1) st ok(2)] old assms(9)
    by (auto simp: engine_get_admin max_def)
  with a h show ?thesis
    by auto
qed

text \<open>A short reply is read past its end: the only length check on a \<open>SYNC_REP_NODE\<close> message is for its 13-byte header, so any such
  message with fewer than sixteen hashes makes the handler read outside the buffer, whoever sent it.\<close>

theorem short_reply_reads_outside:
  assumes "13 \<le> length b" and "length b < 141" and "b ! 0 = SYNC_REP_NODE"
  shows "\<exists>sn'. handle_message X sn b = (Inl Undefined, sn')"
proof -
  have loop: "\<exists>sn'. rep_node_loop f l p b is sn = (Inl Undefined, sn')" if "15 \<in> set is" for f l p "is" sn
    using that
  proof (induction "is" arbitrary: sn)
    case (Cons i "is")
    show ?case
    proof (cases "length b < 13 + i * 8 + 8 \<or> child_hash (sn_engine sn) l p i = None")
      case True
      then show ?thesis by (auto simp: Let_def)
    next
      case False
      with assms(2) have "i \<noteq> 15"
        by auto
      with Cons.prems have "15 \<in> set is"
        by auto
      with False Cons.IH show ?thesis
        by (auto simp: Let_def)
    qed
  qed simp
  have "15 \<in> set [0..<16::nat]"
    by simp
  from loop [OF this, of "dec_u32 (take 4 (drop 1 b))" "b ! 5" "dec_u32 (take 4 (drop 9 b))" sn]
  obtain sn' where "on_rep_node sn (dec_u32 (take 4 (drop 1 b))) b = (Inl Undefined, sn')"
    using assms(1) by (auto simp: on_rep_node_def simp del: upt_rec_numeral)
  then show ?thesis
    using assms by (simp add: handle_message_def msg_types Let_def)
qed

subsection \<open>Samples\<close>

definition sample_node :: "u32 \<Rightarrow> engine \<Rightarrow> sync_node" where
  "sample_node i e = \<lparr>sn_engine = e, sn_id = i, sn_out = []\<rparr>"

definition scan_engine :: engine where
  "scan_engine = sample_engine\<lparr>e_store := scan_store\<rparr>"

lemma scan_store_keys: "e \<in> set (shards scan_store i) \<Longrightarrow> fst e = bs ''k''"
  by (auto simp: scan_store_def apply_put_parts store_blob_def Let_def store_init_def split: if_splits)

lemma scan_bucket_keys:
  "p \<in> set (get_bucket_keys demo scan_store i) \<Longrightarrow> fst p = bs ''k''" "length (get_bucket_keys demo scan_store i) < 2 ^ 32"
proof -
  show "p \<in> set (get_bucket_keys demo scan_store i) \<Longrightarrow> fst p = bs ''k''"
    using scan_store_keys by (force simp: get_bucket_keys_def bucket_scan_def)
  have "length (bucket_scan demo i (shards scan_store j)) \<le> 10" for j
    using scan_store_facts(3) [of j] le_trans [OF length_filter_le] by (simp add: bucket_scan_def)
  note ten = this
  have "length (concat (map (\<lambda>j. bucket_scan demo i (shards scan_store j)) [0..<n])) \<le> n * 10" for n
  proof (induction n)
    case (Suc n)
    with ten [of n] show ?case by simp
  qed simp
  from this [of SHARDS] show "length (get_bucket_keys demo scan_store i) < 2 ^ 32"
    by (simp add: get_bucket_keys_def SHARDS_def)
qed

theorem sync_bucket_requests_witness:
  "\<exists>r a' pay b'. handle_message demo (sample_node 1 scan_engine) (SYNC_REQ_BUCKET # enc_u32 2 @ enc_u32 0) = (r, a') \<and>
     sn_out a' = [(2, Heavy, pay)] \<and> handle_message demo (sample_node 2 sample_engine) pay = (Inr (), b') \<and>
     sn_out b' = map (\<lambda>p. (1, Heavy, SYNC_GET_VAL # enc_u32 2 @ fst p))
       (filter (\<lambda>p. \<not> ends_with (bs '':meta'') (fst p) \<and> local_hash demo sample_engine (fst p) \<noteq> snd p)
          (get_bucket_keys demo scan_store (sint (0 :: u32))))"
proof -
  obtain r a' where h: "handle_message demo (sample_node 1 scan_engine) (SYNC_REQ_BUCKET # enc_u32 2 @ enc_u32 0) = (r, a')"
    by (rule prod.exhaust)
  have k: "\<forall>p \<in> set (get_bucket_keys demo scan_store (sint (0 :: u32))). length (fst p) < 65536"
    using scan_bucket_keys(1) by fastforce
  have "get_bucket_keys demo scan_store (sint (0 :: u32)) = get_bucket_keys demo (e_store (sn_engine (sample_node 1 scan_engine))) (sint (0 :: u32))"
    by (simp add: sample_node_def scan_engine_def)
  from sync_bucket_requests [OF this k scan_bucket_keys(2), of "sample_node 2 sample_engine" r a'] h show ?thesis
    by (auto simp: sample_node_def)
qed

theorem sync_node_requests_witness:
  "\<exists>r a' pay b'. handle_message demo (sample_node 1 scan_engine) (SYNC_REQ_NODE # enc_u32 2 @ 1 # enc_u32 0) = (r, a') \<and>
     sn_out a' = [(2, Control, pay)] \<and> handle_message demo (sample_node 2 sample_engine) pay = (Inr (), b') \<and>
     sn_out b' = map (\<lambda>i. (1, Control, SYNC_REQ_NODE # enc_u32 2 @ 2 # enc_u32 (child_index 0 i)))
       (filter (\<lambda>i. child_hash sample_engine 1 0 i \<noteq> child_hash scan_engine 1 0 i) [0..<16])"
proof -
  obtain r a' where h: "handle_message demo (sample_node 1 scan_engine) (SYNC_REQ_NODE # enc_u32 2 @ 1 # enc_u32 0) = (r, a')"
    by (rule prod.exhaust)
  from sync_node_requests [of 1 0 demo "sample_node 1 scan_engine" "sample_node 2 sample_engine" r a'] h show ?thesis
    by (auto simp: sample_node_def simp del: upt_rec_numeral)
qed

theorem short_reply_reads_outside_witness:
  "\<exists>sn'. handle_message demo (sample_node 1 sample_engine) (SYNC_REP_NODE # replicate 12 0) = (Inl Undefined, sn')"
  using short_reply_reads_outside [of "SYNC_REP_NODE # replicate 12 0"] by simp

theorem sync_repairs_key_witness:
  "\<exists>e r a' pay b'. e_store e = sample_store \<and>
     handle_message demo (sample_node 1 e) (SYNC_GET_VAL # enc_u32 2 @ bs ''k'') = (r, a') \<and>
     sn_out a' = [(2, Heavy, pay)] \<and> handle_message demo (sample_node 2 (demo_node 2)) pay = (Inr (), b') \<and>
     engine_get demo (sn_engine b') (bs ''k'') ADMIN_UID = bs ''v''"
proof -
  let ?k = "bs ''k''" and ?b = "sample_node 2 (demo_node 2)"
  obtain e :: engine where e: "e_store e = sample_store"
    using sample_put_full by auto
  let ?a = "sample_node 1 e"
  have mk: "meta_key_s ?k = ?k @ bs '':meta''"
    using meta_key_s_short [of ?k] by (simp add: c_str_def byte_of_char_def)
  note v = sample_store_values(2,3)
  have g: "engine_get demo (sn_engine ?a) (?k @ bs '':meta'') ADMIN_UID = sample_meta" "engine_get demo (sn_engine ?a) ?k ADMIN_UID = bs ''v''"
    unfolding mk [symmetric] using v by (simp_all add: sample_node_def engine_get_admin e del: bs_Cons)
  have "separate {?k}"
    using meta_key_s_neq [of ?k] by (simp add: separate_def del: bs_Cons)
  note opn = open_replica [OF demo_ext_laws demo_meta_small this]
  have inv: "replica_inv (demo, {?k}, sn_engine ?b)" "replica_stamp (demo, {?k}, sn_engine ?b) ?k = Timestamp 0 0 0"
    unfolding replica_stamp.simps using opn(1,2) by (simp_all add: sample_node_def demo_node_def del: bs_Cons replica_inv.simps)
  have w: "writes_left (Suc 0) (sn_engine ?b)"
    by (auto simp: writes_left_def sample_node_def demo_node_def engine_open_def recover_def wal_open_def)
  have meta: "meta_val demo (Timestamp 5 0 1) False = Some sample_meta" "length sample_meta < 65536"
    using sample_meta_eval by simp_all
  let ?m = "\<lparr>m_timestamp = Timestamp 5 0 1, m_key = ?k, m_value = bs ''v'', m_is_delete = False\<rparr>"
  obtain e' where e': "apply_mutation demo (sn_engine ?b) ?m = Some (Inr (), e')"
    using demo_mutate [OF inv(1) _ _ w, of ?m] sample_fits(1) by (auto simp: int64_def simp del: bs_Cons)
  obtain r a' where h: "handle_message demo ?a (SYNC_GET_VAL # enc_u32 (sn_id ?b) @ ?k) = (r, a')"
    by (rule prod.exhaust)
  have lt: "replica_stamp (demo, {?k}, sn_engine ?b) ?k < Timestamp 5 0 1"
    unfolding inv(2) by (simp add: less_timestamp_def ts_less_def)
  have "apply_mutation demo (sn_engine ?b) ?m \<noteq> None"
    using e' by simp
  from sync_repairs_key [OF demo_unset_fields g(1) meta(1) g(2) _ meta(2) _ inv(1) lt sample_fits(1) this h] show ?thesis
    using e h sample_fits(2) by (auto simp: sample_node_def simp del: bs_Cons)
qed

end
