(* ===== verification/Zmq_Server.thy ===== *)
theory Zmq_Server
  imports Engine_Invariant
begin

text \<open>
  The request server (\<open>src/zmq/zmq_server.cpp\<close>): one thread takes multipart messages from a ZeroMQ router socket and
  serves them one after the other. A message is the list of its frames, the first of which is the identity of the
  client's connection; what is sent is the list of frames of each reply. The body of the receive loop is cut
  where the code returns to the top of the loop.
\<close>

subsection \<open>State and replies\<close>

record zmq_server =
  z_engine :: engine
  z_secret :: bytes
  z_sessions :: "bytes \<rightharpoonup> u32"
  z_out :: "bytes list list"

definition zmq_init :: "engine \<Rightarrow> zmq_server" where
  "zmq_init e = \<lparr>z_engine = e, z_secret = [], z_sessions = Map.empty, z_out = []\<rparr>"

definition set_secret :: "bytes \<Rightarrow> zmq_server \<Rightarrow> zmq_server" where
  "set_secret secret srv = srv\<lparr>z_secret := secret\<rparr>"

text \<open>How serving a message can end other than by going on: a frame read that does not exist, or a log write that has not returned.\<close>

datatype zmq_fault = No_Such_Frame | Log_Blocked

type_synonym served = "(zmq_fault + unit) \<times> zmq_server"

definition zmq_reply :: "bytes \<Rightarrow> bytes \<Rightarrow> zmq_server \<Rightarrow> zmq_server" where
  "zmq_reply identity body srv = srv\<lparr>z_out := z_out srv @ [[identity, [], body]]\<rparr>"

text \<open>\<open>message_t(p, n)\<close> copies the first \<open>n\<close> bytes at \<open>p\<close>.\<close>

definition OK :: bytes where "OK = bs ''OK''"
definition ERR_UNAUTH :: bytes where "ERR_UNAUTH = take 8 (bs ''ERR_UNAUTH'')"
definition ERR_AUTH :: bytes where "ERR_AUTH = bs ''ERR_AUTH''"
definition ERR_FORBIDDEN :: bytes where "ERR_FORBIDDEN = bs ''ERR_FORBIDDEN''"

subsection \<open>Sessions\<close>

definition is_auth_frame :: "bytes \<Rightarrow> bool" where
  "is_auth_frame f \<longleftrightarrow> length f = 1 \<and> f ! 0 = 65"

definition peek_auth :: "bytes list \<Rightarrow> bool" where
  "peek_auth ms \<longleftrightarrow> length ms \<ge> 3 \<and> is_auth_frame (ms ! 2) \<or> length ms \<ge> 4 \<and> is_auth_frame (ms ! 3)"

text \<open>The check at the door: \<open>Inl\<close> when the message is turned away.\<close>

definition check_session :: "bytes list \<Rightarrow> zmq_server \<Rightarrow> zmq_server + zmq_server" where
  "check_session ms srv =
     (let identity = ms ! 0
      in if z_sessions srv identity \<noteq> None then Inr srv
         else if peek_auth ms then Inr srv
         else if z_secret srv \<noteq> [] then Inl (zmq_reply identity ERR_UNAUTH srv)
         else Inr (srv\<lparr>z_sessions := (z_sessions srv)(identity \<mapsto> 0)\<rparr>))"

text \<open>
  \<open>AUTH\<close>: an exception from \<open>stoul\<close> is caught by the receive loop; the sixth frame is read without a check. The user
  id is narrowed to 32 bits.
\<close>

definition zmq_auth :: "bytes list \<Rightarrow> zmq_server \<Rightarrow> served" where
  "zmq_auth ms srv =
     (case stoul (ms ! 4) of
        None \<Rightarrow> (Inr (), srv)
      | Some n \<Rightarrow>
          if length ms < 6 then (Inl No_Such_Frame, srv)
          else if z_secret srv = [] \<or> ms ! 5 = z_secret srv
          then (Inr (), zmq_reply (ms ! 0) OK (srv\<lparr>z_sessions := (z_sessions srv)(ms ! 0 \<mapsto> ucast n)\<rparr>))
          else (Inr (), zmq_reply (ms ! 0) ERR_AUTH srv))"

text \<open>\<open>operator[]\<close> on the session table enters 0 for an identity it does not hold.\<close>

definition session_uid :: "bytes \<Rightarrow> zmq_server \<Rightarrow> u32 \<times> zmq_server" where
  "session_uid identity srv =
     (case z_sessions srv identity of
        None \<Rightarrow> (0, srv\<lparr>z_sessions := (z_sessions srv)(identity \<mapsto> 0)\<rparr>)
      | Some u \<Rightarrow> (u, srv))"

definition current_uid :: "u32 \<Rightarrow> bytes \<Rightarrow> u32" where
  "current_uid session f =
     (let effective_uid = (if length f = 4 then dec_u32 f else 0)
      in if session = ADMIN_UID \<or> session = INTERNAL_UID then effective_uid else session)"

subsection \<open>Operations\<close>

definition zmq_get :: "ext \<Rightarrow> u32 \<Rightarrow> bytes list \<Rightarrow> zmq_server \<Rightarrow> served" where
  "zmq_get X uid ms srv = (Inr (), zmq_reply (ms ! 0) (engine_get X (z_engine srv) (ms ! 4) uid) srv)"

definition zmq_put :: "ext \<Rightarrow> u32 \<Rightarrow> bytes list \<Rightarrow> zmq_server \<Rightarrow> served" where
  "zmq_put X uid ms srv =
     (case engine_put X (z_engine srv) (ms ! 4) (ms ! 5) uid of
        None \<Rightarrow> (Inl Log_Blocked, srv)
      | Some (r, e) \<Rightarrow>
          (Inr (), zmq_reply (ms ! 0) (case r of Inl _ \<Rightarrow> ERR_FORBIDDEN | Inr _ \<Rightarrow> OK) (srv\<lparr>z_engine := e\<rparr>)))"

definition zmq_del :: "ext \<Rightarrow> u32 \<Rightarrow> bytes list \<Rightarrow> zmq_server \<Rightarrow> served" where
  "zmq_del X uid ms srv =
     (case engine_del X (z_engine srv) (ms ! 4) uid of
        None \<Rightarrow> (Inl Log_Blocked, srv)
      | Some (Inl _, e) \<Rightarrow> (Inr (), srv\<lparr>z_engine := e\<rparr>)
      | Some (Inr ok, e) \<Rightarrow> (Inr (), zmq_reply (ms ! 0) (if ok then OK else ERR_FORBIDDEN) (srv\<lparr>z_engine := e\<rparr>)))"

definition zmq_multi_get :: "ext \<Rightarrow> u32 \<Rightarrow> bytes list \<Rightarrow> zmq_server \<Rightarrow> served" where
  "zmq_multi_get X uid ms srv =
     (case batch_get X (z_engine srv) (drop 4 ms) uid of
        None \<Rightarrow> (Inr (), srv)
      | Some res \<Rightarrow> (Inr (), zmq_reply (ms ! 0) res srv))"

definition zmq_batch_put :: "ext \<Rightarrow> stale_memory \<Rightarrow> u32 \<Rightarrow> bytes list \<Rightarrow> zmq_server \<Rightarrow> served" where
  "zmq_batch_put X mem uid ms srv =
     (case batch_put X mem (z_engine srv) (ms ! 4) uid of
        None \<Rightarrow> (Inl Log_Blocked, srv)
      | Some (r, e) \<Rightarrow>
          (Inr (), zmq_reply (ms ! 0) (case r of Inl _ \<Rightarrow> ERR_FORBIDDEN | Inr _ \<Rightarrow> OK) (srv\<lparr>z_engine := e\<rparr>)))"

definition zmq_op :: "ext \<Rightarrow> stale_memory \<Rightarrow> u8 \<Rightarrow> u32 \<Rightarrow> bytes list \<Rightarrow> zmq_server \<Rightarrow> served" where
  "zmq_op X mem opcode uid ms srv =
     (if opcode = 71 \<and> length ms \<ge> 5 then zmq_get X uid ms srv
      else if opcode = 80 \<and> length ms \<ge> 6 then zmq_put X uid ms srv
      else if opcode = 68 \<and> length ms \<ge> 5 then zmq_del X uid ms srv
      else if opcode = 77 \<and> length ms \<ge> 5 then zmq_multi_get X uid ms srv
      else if opcode = 66 \<and> length ms \<ge> 5 then zmq_batch_put X mem uid ms srv
      else (Inr (), srv))"

text \<open>One turn of the receive loop on a message that has arrived.\<close>

definition zmq_serve :: "ext \<Rightarrow> stale_memory \<Rightarrow> bytes list \<Rightarrow> zmq_server \<Rightarrow> served" where
  "zmq_serve X mem ms srv =
     (if length ms < 3 then (Inr (), srv)
      else (case check_session ms srv of
              Inl srv \<Rightarrow> (Inr (), srv)
            | Inr srv \<Rightarrow>
                if length ms < 4 then (Inr (), srv)
                else if ms ! 3 = [] then (Inr (), srv)
                else (let opcode = ms ! 3 ! 0
                      in if opcode = 65 \<and> length ms \<ge> 5 then zmq_auth ms srv
                         else (let (session, srv) = session_uid (ms ! 0) srv
                               in zmq_op X mem opcode (current_uid session (ms ! 2)) ms srv))))"


subsection \<open>What a session may do\<close>

lemma reply_frame [simp]:
  "z_engine (zmq_reply i b srv) = z_engine srv" "z_sessions (zmq_reply i b srv) = z_sessions srv" "z_secret (zmq_reply i b srv) = z_secret srv"
  by (simp_all add: zmq_reply_def)

lemma put_confined:
  assumes "ext_laws X" and "meta_small X" and "store_inv X (e_store e)" and "fits X body"
    and "\<not> can_write (s_creds (e_store e)) u k" and "\<forall>k'. can_write (s_creds (e_store e)) u k' \<longrightarrow> meta_key_s k' \<noteq> k"
    and "engine_put X e key body u = Some (r, e')"
  shows "value_at X (e_store e') k = value_at X (e_store e) k"
proof (cases "e_store e' = e_store e")
  case False
  then have p: "engine_put X e key body u = Some (Inr (), e')"
    using engine_put_outcome [OF assms(7)] assms(7) by auto
  then have "can_write (s_creds (e_store e)) u key"
    by (auto simp: engine_put_def split: if_splits)
  with assms(5,6) have ne: "key \<noteq> k" "meta_key_s key \<noteq> k"
    by auto
  obtain now mv where mv: "meta_val X now False = Some mv"
      "e_store e' = apply_put X (apply_put X (e_store e) key body) (meta_key_s key) mv"
    using engine_put_store [OF p] .
  note fit = meta_val_stored(1) [OF assms(1,2) mv(1)]
  show ?thesis
    unfolding mv(2) value_at_put [OF assms(1) store_inv_put [OF assms(1,3,4)] fit] value_at_put [OF assms(1,3,4)] using ne by simp
qed simp

lemma del_confined:
  assumes "ext_laws X" and "meta_small X" and "store_inv X (e_store e)"
    and "\<not> can_write (s_creds (e_store e)) u k" and "\<forall>k'. can_write (s_creds (e_store e)) u k' \<longrightarrow> meta_key_s k' \<noteq> k"
    and "engine_del X e key u = Some (r, e')"
  shows "value_at X (e_store e') k = value_at X (e_store e) k"
proof (cases "e_store e' = e_store e")
  case False
  then obtain b where p: "can_write (s_creds (e_store e)) u key" "engine_del X e key u = Some (Inr b, e')"
    using assms(6) engine_del_outcome by blast
  with assms(4,5) have ne: "key \<noteq> k" "meta_key_s key \<noteq> k"
    by auto
  obtain now mv where mv: "meta_val X now True = Some mv"
      "e_store e' = apply_put X (snd (apply_del X (e_store e) key)) (meta_key_s key) mv"
    using engine_del_store [OF p(2,1)] by blast
  note fit = meta_val_stored(1) [OF assms(1,2) mv(1)]
  show ?thesis
    unfolding mv(2) value_at_put [OF assms(1) store_inv_del [OF assms(3)] fit] value_at_del using ne by simp
qed simp

text \<open>A batch queues updates only of keys that the user may write, and of their metadata keys.\<close>

definition within_rights :: "credential_manager \<Rightarrow> u32 \<Rightarrow> bytes \<Rightarrow> bool" where
  "within_rights cm u k \<longleftrightarrow> can_write cm u k \<or> (\<exists>k'. can_write cm u k' \<and> meta_key_s k' = k)"

lemma batch_item_confined:
  assumes "batch_put_item X batch u key e bw = Some (Inr bw', e')"
    and "\<forall>i. \<forall>w \<in> set (bw_works bw i). within_rights (s_creds (e_store e)) u (fst w)"
  shows "\<forall>i. \<forall>w \<in> set (bw_works bw' i). within_rights (s_creds (e_store e)) u (fst w)"
proof -
  have "can_write (s_creds (e_store e)) u key"
    using batch_put_item_cases [OF assms(1)] ..
  then have "within_rights (s_creds (e_store e)) u key" "within_rights (s_creds (e_store e)) u (meta_key_s key)"
    by (auto simp: within_rights_def)
  moreover have "set (bw_works bw' i) \<subseteq> set (bw_works bw i) \<union> {w. fst w = key \<or> fst w = meta_key_s key}" for i
    using batch_put_item_cases [OF assms(1), THEN conjunct2] by (auto simp: add_update_def split: if_splits)
  ultimately show ?thesis
    using assms(2) by (fastforce dest!: subsetD)
qed

lemma batch_loop_confined:
  assumes "batch_put_loop X batch u ks e bw = Some (Inr bw', e')"
    and "\<forall>i. \<forall>w \<in> set (bw_works bw i). within_rights (s_creds (e_store e)) u (fst w)"
  shows "\<forall>i. \<forall>w \<in> set (bw_works bw' i). within_rights (s_creds (e_store e)) u (fst w)"
  using assms
proof (induction ks arbitrary: e bw)
  case (Cons k ks)
  then obtain r e1 where item: "batch_put_item X batch u k e bw = Some (r, e1)"
    by (auto simp: bind_eq_Some_conv)
  with Cons.prems(1) obtain bw1 where r: "r = Inr bw1"
    by (cases r) auto
  have "e_store e1 = e_store e"
    using batch_put_item_only [OF item] by (simp add: only_clock_def)
  then show ?case
    using Cons.IH [of e1 bw1] Cons.prems(1) batch_item_confined [OF item [unfolded r] Cons.prems(2)] item r by simp
qed simp

lemma batch_confined:
  assumes "batch_put X mem e batch u = Some (r, e')"
  shows "\<exists>ws. e_pending e' i = e_pending e i @ ws \<and> (\<forall>w \<in> set ws. within_rights (s_creds (e_store e)) u (fst w))"
proof -
  obtain r1 e1 where l: "batch_put_loop X batch u (object_keys X batch) e \<lparr>bw_wal = [], bw_works = (\<lambda>_. [])\<rparr> = Some (r1, e1)"
    using assms by (auto simp: batch_put_def bind_eq_Some_conv)
  have p: "e_pending e1 = e_pending e"
    using batch_put_loop_only [OF l] by (simp add: only_clock_def)
  show ?thesis
  proof (cases r1)
    case (Inl err)
    with assms l p show ?thesis
      by (auto simp: batch_put_def)
  next
    case (Inr bw)
    have w: "\<forall>w \<in> set (bw_works bw i). within_rights (s_creds (e_store e)) u (fst w)"
      using batch_loop_confined [OF l [unfolded Inr]] by simp
    have "e_pending e' = e_pending e \<or> e_pending e' = (\<lambda>i. e_pending e i @ bw_works bw i)"
      using assms l Inr p by (auto simp: batch_put_def bind_eq_Some_conv log_batch_def split: if_splits)
    then show ?thesis
      using w by (auto intro: exI [of _ "[]"])
  qed
qed

lemma put_pending: "engine_put X e key body u = Some (r, e') \<Longrightarrow> e_pending e' = e_pending e"
  by (auto simp: engine_put_def bind_eq_Some_conv Let_def log_batch_def dest!: clock_now_only simp: only_clock_def
      split: if_splits option.splits)

lemma del_pending: "engine_del X e key u = Some (r, e') \<Longrightarrow> e_pending e' = e_pending e"
  by (auto simp: engine_del_def bind_eq_Some_conv Let_def log_batch_def split_def dest!: clock_now_only simp: only_clock_def
      split: if_splits option.splits)

text \<open>C22. A session is confined to its own rights: a message of a client whose session belongs to an ordinary user changes no key that the user
  may not write, whatever user id the message claims and whatever operation it asks for, re-authentication
  apart; only the metadata key of a writable key can change besides. This covers both what the message does to the store at once and
  what it queues for the core threads: the queues of the shards keep what they had, and nothing is added to them for such a key.\<close>

theorem session_confined:
  assumes "ext_laws X" and "meta_small X" and "store_inv X (e_store (z_engine srv))" and "6 \<le> length ms \<longrightarrow> fits X (ms ! 5)"
    and "z_sessions srv (ms ! 0) = Some u" and "u \<noteq> ADMIN_UID" "u \<noteq> INTERNAL_UID" and "\<forall>r. ms ! 3 \<noteq> 65 # r"
    and "\<not> can_write (s_creds (e_store (z_engine srv))) u k"
    and "\<forall>k'. can_write (s_creds (e_store (z_engine srv))) u k' \<longrightarrow> meta_key_s k' \<noteq> k"
    and "zmq_serve X mem ms srv = (r, srv')"
  shows "value_at X (e_store (z_engine srv')) k = value_at X (e_store (z_engine srv)) k \<and>
    (\<forall>i. \<exists>ws. e_pending (z_engine srv') i = e_pending (z_engine srv) i @ ws \<and> (\<forall>w \<in> set ws. fst w \<noteq> k))"
proof (cases "length ms < 4 \<or> ms ! 3 = []")
  case True
  with assms(5,11) show ?thesis
    by (auto simp: zmq_serve_def check_session_def split: if_splits)
next
  case False
  then have "ms ! 3 ! 0 \<noteq> 65"
    using assms(8) by (metis list.exhaust nth_Cons_0)
  with False assms(5-7,11) have "zmq_op X mem (ms ! 3 ! 0) u ms srv = (r, srv')"
    by (simp add: zmq_serve_def check_session_def session_uid_def current_uid_def Let_def)
  then consider "z_engine srv' = z_engine srv"
    | r' where "6 \<le> length ms" "engine_put X (z_engine srv) (ms ! 4) (ms ! 5) u = Some (r', z_engine srv')"
    | r' where "engine_del X (z_engine srv) (ms ! 4) u = Some (r', z_engine srv')"
    | r' where "batch_put X mem (z_engine srv) (ms ! 4) u = Some (r', z_engine srv')"
    by (auto simp: zmq_op_def zmq_get_def zmq_put_def zmq_del_def zmq_multi_get_def zmq_batch_put_def
        split: if_splits option.splits prod.splits sum.splits)
  then show ?thesis
  proof cases
    case 2
    with assms(4) have "fits X (ms ! 5)"
      by simp
    from put_confined [OF assms(1-3) this assms(9,10) 2(2)] put_pending [OF 2(2)] show ?thesis
      by simp
  next
    case 3
    then show ?thesis
      using del_confined [OF assms(1-3,9,10) 3] del_pending [OF 3] by simp
  next
    case 4
    have "fst w \<noteq> k" if "within_rights (s_creds (e_store (z_engine srv))) u (fst w)" for w :: "bytes \<times> bytes"
      using that assms(9,10) by (auto simp: within_rights_def)
    then show ?thesis
      using batch_confined [OF 4] batch_put_store [OF 4] by (metis (no_types, lifting))
  qed simp
qed

theorem session_confined_witness:
  "\<exists>ws. e_pending (z_engine (snd (zmq_serve demo (\<lambda>_ _. 0) [bs ''c'', [], [0, 0, 0, 0], bs ''B'', sample_batch]
       ((zmq_init sample_engine)\<lparr>z_sessions := [bs ''c'' \<mapsto> 7]\<rparr>)))) 3 = e_pending sample_engine 3 @ ws \<and> (\<forall>w \<in> set ws. fst w \<noteq> bs ''k'')"
proof -
  let ?srv = "(zmq_init sample_engine)\<lparr>z_sessions := [bs ''c'' \<mapsto> 7]\<rparr>"
  let ?ms = "[bs ''c'', [], [0, 0, 0, 0], bs ''B'', sample_batch]"
  obtain r srv' where s: "zmq_serve demo (\<lambda>_ _. 0) ?ms ?srv = (r, srv')"
    by (rule prod.exhaust)
  have c: "\<not> can_write (s_creds (e_store (z_engine ?srv))) 7 k" for k
    using stranger_cannot_write by (simp add: zmq_init_def sample_store_init store_init_def)
  have inv: "store_inv demo (e_store (z_engine ?srv))"
    using sample_store_init by (simp add: zmq_init_def)
  have "\<forall>i. \<exists>ws. e_pending (z_engine srv') i = e_pending (z_engine ?srv) i @ ws \<and> (\<forall>w \<in> set ws. fst w \<noteq> bs ''k'')"
    by (rule session_confined [OF demo_ext_laws demo_meta_small inv _ _ _ _ _ c _ s, THEN conjunct2])
      (use c in \<open>simp_all add: ADMIN_UID_def INTERNAL_UID_def byte_of_char_def\<close>)
  with s show ?thesis
    by (simp add: zmq_init_def)
qed

subsection \<open>The door\<close>


lemma out_last [simp]:
  "srv\<lparr>z_out := out, z_engine := e\<rparr> = srv\<lparr>z_engine := e, z_out := out\<rparr>"
  "srv\<lparr>z_out := out, z_sessions := s\<rparr> = srv\<lparr>z_sessions := s, z_out := out\<rparr>"
  by simp_all











text \<open>A message touches no session but its sender's, and never the secret.\<close>

lemma op_sessions: "z_sessions (snd (zmq_op X mem c u ms srv)) = z_sessions srv" "z_secret (snd (zmq_op X mem c u ms srv)) = z_secret srv"
  by (simp_all add: zmq_op_def zmq_get_def zmq_put_def zmq_del_def zmq_multi_get_def zmq_batch_put_def split: option.split prod.split sum.split)




lemma single_frame: "is_auth_frame f \<longleftrightarrow> f = [65]"
  by (cases f) (auto simp: is_auth_frame_def)











subsection \<open>A way past the door\<close>

lemma bypass_put:
  assumes "ext_laws X" and "meta_small X" and "store_inv X (e_store e)" and "fits X body" and "engine_put X e key body u = Some (Inr (), e')"
  shows "value_at X (e_store e') key = Some (stored_form X body)"
proof -
  obtain now mv where mv: "meta_val X now False = Some mv"
      "e_store e' = apply_put X (apply_put X (e_store e) key body) (meta_key_s key) mv"
    using engine_put_store [OF assms(5)] .
  show ?thesis
    using meta_key_s_neq [of key]
    by (simp add: mv(2) value_at_put [OF assms(1) store_inv_put [OF assms(1,3,4)] meta_val_stored(1) [OF assms(1,2) mv(1)]]
        value_at_put [OF assms(1,3,4)])
qed

lemma bypass_del:
  assumes "ext_laws X" and "meta_small X" and "store_inv X (e_store e)" and "engine_del X e key ADMIN_UID = Some (Inr b, e')"
  shows "b \<and> value_at X (e_store e') key = Some []"
proof -
  obtain now mv where mv: "meta_val X now True = Some mv" "b"
      "e_store e' = apply_put X (snd (apply_del X (e_store e) key)) (meta_key_s key) mv"
    using engine_del_store [OF assms(4) admin_can_write] .
  show ?thesis
    using meta_key_s_neq [of key] mv(2)
    by (simp add: mv(3) value_at_put [OF assms(1) store_inv_del [OF assms(3)] meta_val_stored(1) [OF assms(1,2) mv(1)]] value_at_del)
qed

lemma bypass_serve:
  assumes "z_sessions srv (ms ! 0) = None" and "4 \<le> length ms" and "ms ! 2 = [65]" and "ms ! 3 = c # r" and "c \<noteq> 65"
  shows "zmq_serve X mem ms srv = zmq_op X mem c ADMIN_UID ms (srv\<lparr>z_sessions := (z_sessions srv)(ms ! 0 \<mapsto> ADMIN_UID)\<rparr>)"
  using assms by (simp add: zmq_serve_def check_session_def peek_auth_def single_frame session_uid_def current_uid_def ADMIN_UID_def)

text \<open>C40. The door can be walked past. A client without a session puts the single letter \<open>A\<close> where the claimed user id belongs; whatever the secret,
  its request is then carried out as the administrator's, whichever opcode other than \<open>AUTH\<close> it has, and it has an administrator session from then
  on. In particular it reads the value of any key, a put answered with \<open>OK\<close> has written the key it names, and a delete answered
  with \<open>OK\<close> has emptied it, without any permission.\<close>

theorem auth_bypass:
  assumes "ext_laws X" and "meta_small X" and "store_inv X (e_store (z_engine srv))"
    and "z_sessions srv (ms ! 0) = None" and "4 \<le> length ms" and "ms ! 2 = [65]" and "ms ! 3 = c # r" and "c \<noteq> 65"
    and "zmq_serve X mem ms srv = (res, srv')"
  shows "zmq_op X mem c ADMIN_UID ms (srv\<lparr>z_sessions := (z_sessions srv)(ms ! 0 \<mapsto> ADMIN_UID)\<rparr>) = (res, srv') \<and>
    z_sessions srv' = (z_sessions srv)(ms ! 0 \<mapsto> ADMIN_UID) \<and>
    (c = 71 \<and> 5 \<le> length ms \<longrightarrow>
       z_out srv' = z_out srv @ [[ms ! 0, [], case value_at X (e_store (z_engine srv)) (ms ! 4) of None \<Rightarrow> [] | Some v \<Rightarrow> v]]) \<and>
    (c = 80 \<and> 6 \<le> length ms \<and> fits X (ms ! 5) \<and> z_out srv' = z_out srv @ [[ms ! 0, [], OK]] \<longrightarrow>
       value_at X (e_store (z_engine srv')) (ms ! 4) = Some (stored_form X (ms ! 5))) \<and>
    (c = 68 \<and> 5 \<le> length ms \<and> z_out srv' = z_out srv @ [[ms ! 0, [], OK]] \<longrightarrow>
       value_at X (e_store (z_engine srv')) (ms ! 4) = Some [])"
proof -
  let ?in = "srv\<lparr>z_sessions := (z_sessions srv)(ms ! 0 \<mapsto> ADMIN_UID)\<rparr>"
  have op: "zmq_op X mem c ADMIN_UID ms ?in = (res, srv')"
    using bypass_serve [OF assms(4-8), of X mem] assms(9) by simp
  have err: "OK \<noteq> ERR_FORBIDDEN"
    by (simp add: OK_def ERR_FORBIDDEN_def byte_of_char_def)
  have "z_sessions srv' = z_sessions ?in"
    using op_sessions(1) [of X mem c ADMIN_UID ms ?in] op by simp
  moreover have "value_at X (e_store (z_engine srv')) (ms ! 4) = Some (stored_form X (ms ! 5))"
    if "c = 80" "6 \<le> length ms" "fits X (ms ! 5)" "z_out srv' = z_out srv @ [[ms ! 0, [], OK]]"
    using that op err bypass_put [OF assms(1-3) that(3)]
    by (auto simp: zmq_op_def zmq_put_def zmq_reply_def split: option.splits prod.splits sum.splits)
  moreover have "value_at X (e_store (z_engine srv')) (ms ! 4) = Some []"
    if "c = 68" "5 \<le> length ms" "z_out srv' = z_out srv @ [[ms ! 0, [], OK]]"
    using that op err bypass_del [OF assms(1-3)]
    by (auto simp: zmq_op_def zmq_del_def zmq_reply_def split: option.splits prod.splits sum.splits if_splits)
  ultimately show ?thesis
    using op by (auto simp: zmq_op_def zmq_get_def zmq_reply_def engine_get_admin)
qed

theorem auth_bypass_witness:
  "\<exists>srv'. zmq_serve demo (\<lambda>_ _. 0) [bs ''c'', [], [65], [80], bs ''k'', bs ''v''] (set_secret (bs ''s'') (zmq_init sample_engine)) = (Inr (), srv') \<and>
     z_out srv' = [[bs ''c'', [], OK]] \<and> value_at demo (e_store (z_engine srv')) (bs ''k'') = Some (bs ''v'')"
proof -
  let ?srv = "set_secret (bs ''s'') (zmq_init sample_engine)"
  let ?ms = "[bs ''c'', [], [65], [80], bs ''k'', bs ''v'']"
  obtain e' where e': "engine_put demo sample_engine (bs ''k'') (bs ''v'') ADMIN_UID = Some (Inr (), e')"
    using sample_put by (auto simp: bind_eq_Some_conv)
  then obtain srv' where s: "zmq_serve demo (\<lambda>_ _. 0) ?ms ?srv = (Inr (), srv')" "z_out srv' = z_out ?srv @ [[?ms ! 0, [], OK]]"
    by (simp add: bypass_serve [of _ _ 80 "[]"] set_secret_def zmq_init_def zmq_op_def zmq_put_def zmq_reply_def del: bs_Cons)
  have "store_inv demo (e_store (z_engine ?srv))" "z_sessions ?srv (?ms ! 0) = None"
    using sample_store_init by (simp_all add: set_secret_def zmq_init_def)
  from auth_bypass [OF demo_ext_laws demo_meta_small this _ _ _ _ s(1), of 80 "[]"] s sample_fits show ?thesis
    by (simp add: set_secret_def zmq_init_def del: bs_Cons)
qed

end
