(* ===== verification/Service.thy ===== *)
theory Service
  imports Sync_Manager Zmq_Server
begin

text \<open>
  The service executable (\<open>src/main.cpp\<close>): the command line, the configuration file, and the wiring of engine, mesh,
  sync manager and request server. The JSON library is a parameter: a record of the calls the code makes, where
  \<open>None\<close> is an exception. The last definitions are those of the log file (\<open>src/observability/file_logger.hpp\<close>).
\<close>

subsection \<open>Configuration\<close>

record peer_config =
  pc_id :: u32
  pc_host :: bytes
  pc_mesh_port :: int
  pc_http_port :: int

record config =
  cf_address :: bytes
  cf_port :: u16
  cf_min_threads :: int
  cf_max_threads :: int
  cf_wal_path :: bytes
  cf_node_id :: u32
  cf_mesh_port :: int
  cf_mesh_threads :: int
  cf_peers :: "peer_config list"
  cf_cluster_mode :: bytes
  cf_num_shards :: int
  cf_server_secret :: bytes

definition config_default :: config where
  "config_default =
     \<lparr>cf_address = bs ''127.0.0.1'', cf_port = 8080, cf_min_threads = 4, cf_max_threads = 32, cf_wal_path = bs ''data.wal'',
      cf_node_id = 1, cf_mesh_port = 9090, cf_mesh_threads = 2, cf_peers = [], cf_cluster_mode = bs ''replicated'',
      cf_num_shards = 1, cf_server_secret = []\<rparr>"

text \<open>\<open>value\<close> with a default of a given type, \<open>contains\<close>, \<open>operator[]\<close>, \<open>is_array\<close> and iteration.\<close>

record 'j json_lib =
  j_parse :: "bytes \<Rightarrow> 'j option"
  j_int :: "'j \<Rightarrow> bytes \<Rightarrow> int \<Rightarrow> int option"
  j_str :: "'j \<Rightarrow> bytes \<Rightarrow> bytes \<Rightarrow> bytes option"
  j_contains :: "'j \<Rightarrow> bytes \<Rightarrow> bool"
  j_at :: "'j \<Rightarrow> bytes \<Rightarrow> 'j option"
  j_is_array :: "'j \<Rightarrow> bool"
  j_elems :: "'j \<Rightarrow> 'j list"

text \<open>Numbers are narrowed to the type of the default without a check.\<close>

definition int32 :: "int \<Rightarrow> int" where
  "int32 v = sint (word_of_int v :: u32)"

text \<open>
  The statements of \<open>load_config\<close> in order. A statement that throws ends the sequence; what the earlier ones have assigned
  stays.
\<close>

type_synonym cfg_step = "config \<Rightarrow> config option"

primrec run_steps :: "cfg_step list \<Rightarrow> config \<Rightarrow> bool \<times> config" where
  "run_steps [] cfg = (True, cfg)"
| "run_steps (s # ss) cfg = (case s cfg of None \<Rightarrow> (False, cfg) | Some cfg \<Rightarrow> run_steps ss cfg)"

definition read_peer :: "'j json_lib \<Rightarrow> 'j \<Rightarrow> peer_config option" where
  "read_peer L p =
     do {
       i \<leftarrow> j_int L p (bs ''id'') 0;
       h \<leftarrow> j_str L p (bs ''host'') (bs ''127.0.0.1'');
       m \<leftarrow> j_int L p (bs ''mesh_port'') 9090;
       t \<leftarrow> j_int L p (bs ''http_port'') 8080;
       Some \<lparr>pc_id = word_of_int i, pc_host = h, pc_mesh_port = int32 m, pc_http_port = int32 t\<rparr>
     }"

definition add_peer :: "'j json_lib \<Rightarrow> 'j \<Rightarrow> cfg_step" where
  "add_peer L p cfg =
     map_option (\<lambda>pc. if pc_id pc \<noteq> 0 then cfg\<lparr>cf_peers := cf_peers cfg @ [pc]\<rparr> else cfg) (read_peer L p)"

definition peer_steps :: "'j json_lib \<Rightarrow> 'j \<Rightarrow> cfg_step list" where
  "peer_steps L p_node = (if j_is_array L p_node then map (add_peer L) (j_elems L p_node) else [])"

definition root_steps :: "'j json_lib \<Rightarrow> 'j \<Rightarrow> cfg_step list" where
  "root_steps L j =
     [\<lambda>c. map_option (\<lambda>v. c\<lparr>cf_address := v\<rparr>) (j_str L j (bs ''address'') (cf_address c)),
      \<lambda>c. map_option (\<lambda>v. c\<lparr>cf_port := word_of_int v\<rparr>) (j_int L j (bs ''port'') (uint (cf_port c))),
      \<lambda>c. map_option (\<lambda>v. c\<lparr>cf_min_threads := int32 v\<rparr>) (j_int L j (bs ''min_threads'') (cf_min_threads c)),
      \<lambda>c. map_option (\<lambda>v. c\<lparr>cf_max_threads := int32 v\<rparr>) (j_int L j (bs ''max_threads'') (cf_max_threads c)),
      \<lambda>c. map_option (\<lambda>v. c\<lparr>cf_wal_path := v\<rparr>) (j_str L j (bs ''wal_path'') (cf_wal_path c)),
      \<lambda>c. map_option (\<lambda>v. c\<lparr>cf_node_id := word_of_int v\<rparr>) (j_int L j (bs ''node_id'') (uint (cf_node_id c))),
      \<lambda>c. map_option (\<lambda>v. c\<lparr>cf_mesh_port := int32 v\<rparr>) (j_int L j (bs ''mesh_port'') (cf_mesh_port c)),
      \<lambda>c. map_option (\<lambda>v. c\<lparr>cf_mesh_threads := int32 v\<rparr>) (j_int L j (bs ''mesh_threads'') (cf_mesh_threads c)),
      \<lambda>c. map_option (\<lambda>v. c\<lparr>cf_server_secret := v\<rparr>) (j_str L j (bs ''server_secret'') [])]"

definition cluster_steps :: "'j json_lib \<Rightarrow> 'j \<Rightarrow> cfg_step list" where
  "cluster_steps L j =
     (if \<not> j_contains L j (bs ''cluster'') then []
      else (case j_at L j (bs ''cluster'') of
              None \<Rightarrow> [\<lambda>_. None]
            | Some c \<Rightarrow>
                [\<lambda>cfg. map_option (\<lambda>v. cfg\<lparr>cf_cluster_mode := v\<rparr>) (j_str L c (bs ''mode'') (cf_cluster_mode cfg)),
                 \<lambda>cfg. map_option (\<lambda>v. cfg\<lparr>cf_num_shards := int32 v\<rparr>) (j_int L c (bs ''shards'') (cf_num_shards cfg))] @
                (if j_contains L c (bs ''peers'')
                 then (case j_at L c (bs ''peers'') of None \<Rightarrow> [\<lambda>_. None] | Some p_node \<Rightarrow> peer_steps L p_node)
                 else [])))"

text \<open>The peers of the root object, read only when the cluster section gave none.\<close>

definition root_peers :: "'j json_lib \<Rightarrow> 'j \<Rightarrow> config \<Rightarrow> bool \<times> config" where
  "root_peers L j cfg =
     (if cf_peers cfg = [] \<and> j_contains L j (bs ''peers'')
      then (case j_at L j (bs ''peers'') of None \<Rightarrow> (False, cfg) | Some p_node \<Rightarrow> run_steps (peer_steps L p_node) cfg)
      else (True, cfg))"

text \<open>\<open>file\<close>: the contents of the file, \<open>None\<close> when it cannot be opened. The flag tells whether an error was reported.\<close>

definition load_config :: "'j json_lib \<Rightarrow> bytes option \<Rightarrow> bool \<times> config" where
  "load_config L file =
     (case file of
        None \<Rightarrow> (False, config_default)
      | Some text \<Rightarrow>
          (case j_parse L text of
             None \<Rightarrow> (False, config_default)
           | Some j \<Rightarrow>
               (case run_steps (root_steps L j @ cluster_steps L j) config_default of
                  (False, cfg) \<Rightarrow> (False, cfg)
                | (True, cfg) \<Rightarrow> root_peers L j cfg)))"

subsection \<open>Command line\<close>

text \<open>The arguments after the program name. An empty argument is a path: its first character is the terminator.\<close>

fun parse_args :: "bytes list \<Rightarrow> bytes \<Rightarrow> bytes" where
  "parse_args [] config_path = config_path"
| "parse_args [arg] config_path =
     (if arg = [] \<or> hd arg \<noteq> 45 then arg else config_path)"
| "parse_args (arg # nxt # r) config_path =
     (if arg = bs ''--config'' then parse_args r nxt
      else parse_args (nxt # r) (if arg = [] \<or> hd arg \<noteq> 45 then arg else config_path))"

subsection \<open>Wiring\<close>

text \<open>The parts of a running service; sync manager and request server work on one engine.\<close>

record service =
  sv_engine :: engine
  sv_id :: u32
  sv_sent :: "(u32 \<times> lane \<times> bytes) list"
  sv_mesh :: mesh
  sv_secret :: bytes
  sv_sessions :: "bytes \<rightharpoonup> u32"
  sv_replies :: "bytes list list"

definition sync_part :: "service \<Rightarrow> sync_node" where
  "sync_part sv = \<lparr>sn_engine = sv_engine sv, sn_id = sv_id sv, sn_out = sv_sent sv\<rparr>"

text \<open>
  The mesh is handed the messages of a handler in the order in which it sent them. The handlers ignore the result of
  \<open>send\<close>: a message for an unknown peer is dropped.
\<close>

definition post_sends :: "ext \<Rightarrow> (u32 \<times> lane \<times> bytes) list \<Rightarrow> mesh \<Rightarrow> mesh" where
  "post_sends X out m = fold (\<lambda>(target, l, pay) m. snd (mesh_send X m target l pay)) out m"

definition with_sync :: "ext \<Rightarrow> sync_node \<Rightarrow> service \<Rightarrow> service" where
  "with_sync X sn sv =
     sv\<lparr>sv_engine := sn_engine sn, sv_sent := sn_out sn,
        sv_mesh := post_sends X (drop (length (sv_sent sv)) (sn_out sn)) (sv_mesh sv)\<rparr>"

definition server_part :: "service \<Rightarrow> zmq_server" where
  "server_part sv =
     \<lparr>z_engine = sv_engine sv, z_secret = sv_secret sv, z_sessions = sv_sessions sv, z_out = sv_replies sv\<rparr>"

definition with_server :: "zmq_server \<Rightarrow> service \<Rightarrow> service" where
  "with_server srv sv = sv\<lparr>sv_engine := z_engine srv, sv_sessions := z_sessions srv, sv_replies := z_out srv\<rparr>"

text \<open>Connecting to the configured peers; a failure is reported and the next peer is tried. \<open>ok\<close> tells which connections succeed.\<close>

definition connect_peers :: "(u32 \<Rightarrow> bool) \<Rightarrow> peer_config list \<Rightarrow> mesh \<Rightarrow> mesh" where
  "connect_peers ok peers m =
     fold (\<lambda>p m. snd (mesh_connect m (pc_id p) (pc_host p) (pc_mesh_port p) (ok (pc_id p)) Written)) peers m"

definition http_peers :: "peer_config list \<Rightarrow> u32 \<rightharpoonup> bytes \<times> int" where
  "http_peers peers = fold (\<lambda>p t. t(pc_id p \<mapsto> (pc_host p, pc_http_port p))) peers Map.empty"

text \<open>
  The objects set up by \<open>main\<close>. The hash ring built in sharded mode is not used after it is built, and the number of
  network threads only bounds how many handlers run at a time.
\<close>

definition start_service :: "ext \<Rightarrow> (nat \<Rightarrow> bool) \<Rightarrow> bytes \<Rightarrow> (u32 \<Rightarrow> bool) \<Rightarrow> config \<Rightarrow> int list \<Rightarrow> sys_write list \<Rightarrow> service" where
  "start_service X bad wal_file ok cfg ph io =
     (let db = engine_open X bad wal_file (cf_node_id cfg) ph io;
          mesh = connect_peers ok (cf_peers cfg) (mesh_init (cf_node_id cfg))
      in \<lparr>sv_engine = db, sv_id = cf_node_id cfg, sv_sent = [], sv_mesh = mesh, sv_secret = cf_server_secret cfg,
          sv_sessions = Map.empty, sv_replies = []\<rparr>)"

text \<open>The callback given to the mesh: only the control lane reaches the sync manager.\<close>

definition on_mesh_message :: "ext \<Rightarrow> u32 \<Rightarrow> bytes \<Rightarrow> service \<Rightarrow> (sync_fault + unit) \<times> service" where
  "on_mesh_message X l payload sv =
     (if l = lane_code Control
      then (let (r, sn) = handle_message X (sync_part sv) payload in (r, with_sync X sn sv))
      else (Inr (), sv))"

definition on_gossip :: "ext \<Rightarrow> nat \<Rightarrow> service \<Rightarrow> service" where
  "on_gossip X pick sv = with_sync X (trigger_gossip X (get_active_peers (sv_mesh sv)) pick (sync_part sv)) sv"

definition on_request :: "ext \<Rightarrow> stale_memory \<Rightarrow> bytes list \<Rightarrow> service \<Rightarrow> (zmq_fault + unit) \<times> service" where
  "on_request X mem ms sv = (let (r, srv) = zmq_serve X mem ms (server_part sv) in (r, with_server srv sv))"

subsection \<open>The log file\<close>

text \<open>The process-wide logger (\<open>src/observability/file_logger.hpp\<close>); the printed local time is an argument.\<close>

record file_logger =
  lg_open :: bool
  lg_lines :: "bytes list"

definition logger_open :: "bool \<Rightarrow> file_logger \<Rightarrow> file_logger" where
  "logger_open opened lg = \<lparr>lg_open = opened, lg_lines = []\<rparr>"

definition three_digits :: "nat \<Rightarrow> bytes" where
  "three_digits ms = replicate (3 - length (dec_nat ms)) 48 @ dec_nat ms"

definition logger_log :: "bytes \<Rightarrow> nat \<Rightarrow> bytes \<Rightarrow> bytes \<Rightarrow> file_logger \<Rightarrow> file_logger" where
  "logger_log time ms level msg lg =
     (if \<not> lg_open lg then lg
      else lg\<lparr>lg_lines := lg_lines lg @
             [bs ''['' @ time @ bs ''.'' @ three_digits (ms mod 1000) @ bs ''] '' @ bs ''['' @ level @ bs ''] '' @ msg]\<rparr>)"

subsection \<open>Configuration errors\<close>

lemma run_steps_append:
  "run_steps (ss @ ts) cfg = (case run_steps ss cfg of (False, cfg) \<Rightarrow> (False, cfg) | (True, cfg) \<Rightarrow> run_steps ts cfg)"
  by (induction ss arbitrary: cfg) (auto split: option.splits)

text \<open>A bad value does not bring the defaults back: if the value of \<open>port\<close> has the wrong type the error message says that defaults are used,
  yet the address already read from the file stays, and everything after it has its default.\<close>

theorem config_error_keeps_earlier:
  assumes "j_parse L txt = Some j" and "j_str L j (bs ''address'') (bs ''127.0.0.1'') = Some a"
    and "j_int L j (bs ''port'') 8080 = None"
  shows "load_config L (Some txt) = (False, config_default\<lparr>cf_address := a\<rparr>)"
proof -
  have "run_steps (root_steps L j) config_default = (False, config_default\<lparr>cf_address := a\<rparr>)"
    using assms(2,3) by (simp add: root_steps_def config_default_def)
  then show ?thesis
    using assms(1) by (simp add: load_config_def run_steps_append)
qed

text \<open>Every peer of a loaded configuration has a non-zero id, even if loading failed half way.\<close>

definition peers_ok :: "config \<Rightarrow> bool" where
  "peers_ok cfg \<longleftrightarrow> (\<forall>p \<in> set (cf_peers cfg). pc_id p \<noteq> 0)"

definition keeps_peers :: "cfg_step \<Rightarrow> bool" where
  "keeps_peers s \<longleftrightarrow> (\<forall>cfg cfg'. peers_ok cfg \<longrightarrow> s cfg = Some cfg' \<longrightarrow> peers_ok cfg')"

lemma run_steps_peers: "\<forall>s \<in> set ss. keeps_peers s \<Longrightarrow> peers_ok cfg \<Longrightarrow> peers_ok (snd (run_steps ss cfg))"
proof (induction ss arbitrary: cfg)
  case (Cons s ss)
  show ?case
  proof (cases "s cfg")
    case (Some cfg')
    with Cons.prems have "peers_ok cfg'"
      by (auto simp: keeps_peers_def)
    with Cons.IH Cons.prems(1) Some show ?thesis
      by simp
  qed (simp add: Cons.prems)
qed simp

lemma peer_steps_keep: "s \<in> set (peer_steps L p) \<Longrightarrow> keeps_peers s"
  by (auto simp: peer_steps_def add_peer_def keeps_peers_def peers_ok_def split: if_splits)

lemma root_steps_keep: "s \<in> set (root_steps L j) \<Longrightarrow> keeps_peers s"
  by (auto simp: root_steps_def keeps_peers_def peers_ok_def simp del: bs_Cons)

lemma cluster_steps_keep: "s \<in> set (cluster_steps L j) \<Longrightarrow> keeps_peers s"
  by (auto simp: cluster_steps_def keeps_peers_def peers_ok_def simp del: bs_Cons split: if_splits option.splits
      dest!: peer_steps_keep)

lemma config_peers_ok: "peers_ok (snd (load_config L file))"
proof -
  have d: "peers_ok config_default"
    by (simp add: peers_ok_def config_default_def)
  have r: "peers_ok cfg \<Longrightarrow> peers_ok (snd (root_peers L j cfg))" for j cfg
    by (auto simp: root_peers_def intro!: run_steps_peers peer_steps_keep split: option.splits simp del: bs_Cons)
  have "peers_ok (snd (run_steps (root_steps L j @ cluster_steps L j) config_default))" for j
    using d by (intro run_steps_peers) (auto intro: root_steps_keep cluster_steps_keep)
  then show ?thesis
    using d r by (auto simp: load_config_def split: option.splits prod.splits bool.splits) (metis snd_conv)+
qed

subsection \<open>Lanes\<close>

text \<open>C38. The replies that carry keys and values never reach the sync manager: a peer answers a request for a bucket on the heavy lane, and the
  callback installed at start-up drops whatever does not come on the control lane. So the exchange stops at the
  bucket reply, before any key is asked for.\<close>

theorem bucket_reply_dropped:
  assumes "9 \<le> length b" and "b ! 0 = SYNC_REQ_BUCKET"
  shows "\<exists>pay. map (\<lambda>(target, l, p). (l, p)) (sn_out (snd (handle_message X a b))) =
      map (\<lambda>(target, l, p). (l, p)) (sn_out a) @ [(Heavy, pay)] \<and>
    on_mesh_message X (lane_code Heavy) pay sv = (Inr (), sv)"
  using assms by (auto simp: handle_message_def on_req_bucket_def msg_types Let_def on_mesh_message_def simp del: bs_Cons)

definition sample_service :: service where
  "sample_service = start_service demo no_fail [] (\<lambda>_. True) config_default [] []"

theorem bucket_reply_dropped_witness:
  "\<exists>pay. map (\<lambda>(target, l, p). (l, p)) (sn_out (snd (handle_message demo (sample_node 1 scan_engine) (SYNC_REQ_BUCKET # replicate 8 0)))) =
     [(Heavy, pay)] \<and> on_mesh_message demo (lane_code Heavy) pay sample_service = (Inr (), sample_service)"
  using bucket_reply_dropped [of "SYNC_REQ_BUCKET # replicate 8 0" demo "sample_node 1 scan_engine" sample_service]
  by (simp add: sample_node_def)

text \<open>A JSON library with one document, in which \<open>port\<close> has the wrong type.\<close>

definition sample_json :: "unit json_lib" where
  "sample_json =
     \<lparr>j_parse = (\<lambda>_. Some ()), j_int = (\<lambda>_ k d. if k = bs ''port'' then None else Some d),
      j_str = (\<lambda>_ k d. if k = bs ''address'' then Some (bs ''h'') else Some d), j_contains = (\<lambda>_ _. False),
      j_at = (\<lambda>_ _. None), j_is_array = (\<lambda>_. False), j_elems = (\<lambda>_. [])\<rparr>"

theorem config_error_keeps_earlier_witness:
  "load_config sample_json (Some []) = (False, config_default\<lparr>cf_address := bs ''h''\<rparr>)"
  using config_error_keeps_earlier [of sample_json "[]" "()" "bs ''h''"] by (simp add: sample_json_def)

end
