(* ===== verification/Simple_Metrics.thy ===== *)
theory Simple_Metrics
  imports Ordered_Map
begin

text \<open>
  The metrics registry (\<open>src/observability/simple_metrics.hpp\<close>, \<open>simple_metrics.cpp\<close>): counters of 64 bits that wrap, latency
  statistics per operation, and the two reports printed from them. Every update happens under the registry's lock or is a
  single atomic operation, so calls of several threads are a sequence. Arithmetic and printing of \<open>double\<close> are a
  parameter \<open>D\<close>.
\<close>

subsection \<open>State\<close>

record 'd double_ops =
  d_zero :: 'd
  d_add :: "'d \<Rightarrow> 'd \<Rightarrow> 'd"
  d_greater :: "'d \<Rightarrow> 'd \<Rightarrow> bool"
  d_per :: "'d \<Rightarrow> u64 \<Rightarrow> 'd"
  d_print :: "'d \<Rightarrow> bytes"
  d_fixed6 :: "'d \<Rightarrow> bytes"

record 'd op_stats =
  os_count :: u64
  os_total :: 'd
  os_max :: 'd

record 'd metrics =
  mt_ops :: "'d op_stats omap"
  mt_buffer_usage :: u64
  mt_buffer_capacity :: u64
  mt_node_splits :: u64
  mt_hash_collisions :: u64
  mt_bytes_received :: u64
  mt_bytes_sent :: u64
  mt_active_connections :: u64
  mt_errors_4xx :: u64
  mt_errors_5xx :: u64
  mt_sync :: "u64 omap"
  mt_keys_repaired :: u64
  mt_lanes :: "(u64 \<times> u64) omap"
  mt_thread_count :: int

definition metrics_init :: "'d metrics" where
  "metrics_init =
     \<lparr>mt_ops = [], mt_buffer_usage = 0, mt_buffer_capacity = 0, mt_node_splits = 0, mt_hash_collisions = 0,
      mt_bytes_received = 0, mt_bytes_sent = 0, mt_active_connections = 0, mt_errors_4xx = 0, mt_errors_5xx = 0,
      mt_sync = [], mt_keys_repaired = 0, mt_lanes = [], mt_thread_count = 0\<rparr>"

text \<open>\<open>operator[]\<close> of \<open>std::map\<close> followed by an update of the element, which is value-initialised when new.\<close>

definition om_modify :: "'v \<Rightarrow> ('v \<Rightarrow> 'v) \<Rightarrow> bytes \<Rightarrow> 'v omap \<Rightarrow> 'v omap" where
  "om_modify fresh f k m = om_insert k (f (case om_find m k of None \<Rightarrow> fresh | Some v \<Rightarrow> v)) m"

definition op_fresh :: "'d double_ops \<Rightarrow> 'd op_stats" where
  "op_fresh D = \<lparr>os_count = 0, os_total = d_zero D, os_max = d_zero D\<rparr>"

subsection \<open>Updates\<close>

definition record_latency :: "'d double_ops \<Rightarrow> bytes \<Rightarrow> 'd \<Rightarrow> 'd metrics \<Rightarrow> 'd metrics" where
  "record_latency D operation seconds mt =
     mt\<lparr>mt_ops := om_modify (op_fresh D)
          (\<lambda>s. s\<lparr>os_count := os_count s + 1, os_total := d_add D (os_total s) seconds,
                os_max := (if d_greater D seconds (os_max s) then seconds else os_max s)\<rparr>) operation (mt_ops mt)\<rparr>"

definition increment_operation_count :: "'d double_ops \<Rightarrow> bytes \<Rightarrow> bytes \<Rightarrow> 'd metrics \<Rightarrow> 'd metrics" where
  "increment_operation_count D operation status mt =
     mt\<lparr>mt_ops := om_modify (op_fresh D) (\<lambda>s. s\<lparr>os_count := os_count s + 1\<rparr>) (operation @ bs ''_'' @ status) (mt_ops mt)\<rparr>"

definition set_buffer_usage :: "u64 \<Rightarrow> 'd metrics \<Rightarrow> 'd metrics" where
  "set_buffer_usage used_bytes mt = mt\<lparr>mt_buffer_usage := used_bytes\<rparr>"

definition set_buffer_capacity :: "u64 \<Rightarrow> 'd metrics \<Rightarrow> 'd metrics" where
  "set_buffer_capacity capacity_bytes mt = mt\<lparr>mt_buffer_capacity := capacity_bytes\<rparr>"

definition increment_node_splits :: "'d metrics \<Rightarrow> 'd metrics" where
  "increment_node_splits mt = mt\<lparr>mt_node_splits := mt_node_splits mt + 1\<rparr>"

definition increment_hash_collisions :: "'d metrics \<Rightarrow> 'd metrics" where
  "increment_hash_collisions mt = mt\<lparr>mt_hash_collisions := mt_hash_collisions mt + 1\<rparr>"

definition set_thread_count :: "int \<Rightarrow> 'd metrics \<Rightarrow> 'd metrics" where
  "set_thread_count count mt = mt\<lparr>mt_thread_count := count\<rparr>"

definition record_bytes_received :: "u64 \<Rightarrow> 'd metrics \<Rightarrow> 'd metrics" where
  "record_bytes_received n mt = mt\<lparr>mt_bytes_received := mt_bytes_received mt + n\<rparr>"

definition record_bytes_sent :: "u64 \<Rightarrow> 'd metrics \<Rightarrow> 'd metrics" where
  "record_bytes_sent n mt = mt\<lparr>mt_bytes_sent := mt_bytes_sent mt + n\<rparr>"

definition increment_active_connections :: "'d metrics \<Rightarrow> 'd metrics" where
  "increment_active_connections mt = mt\<lparr>mt_active_connections := mt_active_connections mt + 1\<rparr>"

definition decrement_active_connections :: "'d metrics \<Rightarrow> 'd metrics" where
  "decrement_active_connections mt = mt\<lparr>mt_active_connections := mt_active_connections mt - 1\<rparr>"

definition record_error :: "int \<Rightarrow> 'd metrics \<Rightarrow> 'd metrics" where
  "record_error status_code mt =
     (if status_code \<ge> 500 then mt\<lparr>mt_errors_5xx := mt_errors_5xx mt + 1\<rparr>
      else if status_code \<ge> 400 then mt\<lparr>mt_errors_4xx := mt_errors_4xx mt + 1\<rparr>
      else mt)"

definition increment_sync_ops :: "bytes \<Rightarrow> 'd metrics \<Rightarrow> 'd metrics" where
  "increment_sync_ops type mt = mt\<lparr>mt_sync := om_modify 0 (\<lambda>n. n + 1) type (mt_sync mt)\<rparr>"

definition increment_keys_repaired :: "'d metrics \<Rightarrow> 'd metrics" where
  "increment_keys_repaired mt = mt\<lparr>mt_keys_repaired := mt_keys_repaired mt + 1\<rparr>"

definition increment_mesh_bytes :: "bytes \<Rightarrow> u64 \<Rightarrow> bool \<Rightarrow> 'd metrics \<Rightarrow> 'd metrics" where
  "increment_mesh_bytes l n is_send mt =
     mt\<lparr>mt_lanes := om_modify (0, 0) (\<lambda>(s, r). if is_send then (s + n, r) else (s, r + n)) l (mt_lanes mt)\<rparr>"

definition get_active_connections :: "'d metrics \<Rightarrow> int" where
  "get_active_connections mt = sint (ucast (mt_active_connections mt) :: u32)"

subsection \<open>Reports\<close>

definition nl :: bytes where "nl = [10]"
definition quoted :: "bytes \<Rightarrow> bytes" where "quoted s = 34 # s @ [34]"
definition dec_u :: "u64 \<Rightarrow> bytes" where "dec_u w = dec_nat (unat w)"
definition pad :: "nat \<Rightarrow> bytes \<Rightarrow> bytes" where "pad n s = s @ replicate (n - length s) 32"

definition op_average :: "'d double_ops \<Rightarrow> 'd op_stats \<Rightarrow> 'd" where
  "op_average D s = (if os_count s > 0 then d_per D (os_total s) (os_count s) else d_zero D)"

definition op_line :: "'d double_ops \<Rightarrow> bytes \<times> 'd op_stats \<Rightarrow> bytes" where
  "op_line D e =
     bs ''  '' @ pad 25 (fst e) @ bs '' Count: '' @ pad 10 (dec_u (os_count (snd e))) @ bs '' Avg Latency: '' @
     d_fixed6 D (op_average D (snd e)) @ bs ''s'' @ bs '' Max Latency: '' @ d_fixed6 D (os_max (snd e)) @ bs ''s'' @ nl"

definition get_metrics_string :: "'d double_ops \<Rightarrow> 'd metrics \<Rightarrow> bytes" where
  "get_metrics_string D mt =
     nl @ bs ''=== Internal Service Metrics ==='' @ nl @
     bs ''Buffer Usage: '' @ dec_u (mt_buffer_usage mt) @ bs '' / '' @ dec_u (mt_buffer_capacity mt) @ bs '' bytes'' @ nl @
     bs ''Node Splits: '' @ dec_u (mt_node_splits mt) @ nl @
     bs ''Hash Collisions: '' @ dec_u (mt_hash_collisions mt) @ nl @
     bs ''Thread Count: '' @ to_string (mt_thread_count mt) @ nl @
     bs ''Operations:'' @ nl @ concat (map (op_line D) (mt_ops mt)) @
     bs ''================================'' @ nl"

definition dump_metrics :: "'d double_ops \<Rightarrow> 'd metrics \<Rightarrow> bytes" where
  "dump_metrics D mt = get_metrics_string D mt @ nl"

text \<open>The members of a JSON object, each on its own line, separated by commas.\<close>

fun json_members :: "bytes list \<Rightarrow> bytes" where
  "json_members [] = []"
| "json_members [m] = m"
| "json_members (m # ms) = m @ bs '','' @ nl @ json_members ms"

definition op_json :: "'d double_ops \<Rightarrow> bytes \<times> 'd op_stats \<Rightarrow> bytes" where
  "op_json D e =
     bs ''    '' @ quoted (fst e) @ bs '': {'' @ nl @
     bs ''      '' @ quoted (bs ''count'') @ bs '': '' @ dec_u (os_count (snd e)) @ bs '','' @ nl @
     bs ''      '' @ quoted (bs ''avg_latency_s'') @ bs '': '' @ d_print D (op_average D (snd e)) @ bs '','' @ nl @
     bs ''      '' @ quoted (bs ''max_latency_s'') @ bs '': '' @ d_print D (os_max (snd e)) @ nl @
     bs ''    }''"

definition num_member :: "bytes \<Rightarrow> bytes \<Rightarrow> bytes" where
  "num_member k v = bs ''    '' @ quoted k @ bs '': '' @ v"

definition sync_json :: "bytes \<times> u64 \<Rightarrow> bytes" where
  "sync_json e = bs ''      '' @ quoted (fst e) @ bs '': '' @ dec_u (snd e)"

definition lane_json :: "bytes \<times> (u64 \<times> u64) \<Rightarrow> bytes" where
  "lane_json e =
     bs ''      '' @ quoted (fst e) @ bs '': { '' @ quoted (bs ''sent'') @ bs '': '' @ dec_u (fst (snd e)) @ bs '', '' @
     quoted (bs ''recv'') @ bs '': '' @ dec_u (snd (snd e)) @ bs '' }''"

definition get_json :: "'d double_ops \<Rightarrow> 'd metrics \<Rightarrow> bytes" where
  "get_json D mt =
     bs ''{'' @ nl @ bs ''  '' @ quoted (bs ''system'') @ bs '': {'' @ nl @
     json_members
       [num_member (bs ''buffer_usage_bytes'') (dec_u (mt_buffer_usage mt)),
        num_member (bs ''buffer_capacity_bytes'') (dec_u (mt_buffer_capacity mt)),
        num_member (bs ''active_connections'') (to_string (sint (mt_active_connections mt))),
        num_member (bs ''node_splits'') (dec_u (mt_node_splits mt)),
        num_member (bs ''hash_collisions'') (dec_u (mt_hash_collisions mt)),
        num_member (bs ''thread_count'') (to_string (mt_thread_count mt))] @ nl @
     bs ''  },'' @ nl @ bs ''  '' @ quoted (bs ''throughput'') @ bs '': {'' @ nl @
     json_members
       [num_member (bs ''bytes_received_total'') (dec_u (mt_bytes_received mt)),
        num_member (bs ''bytes_sent_total'') (dec_u (mt_bytes_sent mt)),
        num_member (bs ''http_errors_4xx'') (dec_u (mt_errors_4xx mt)),
        num_member (bs ''http_errors_5xx'') (dec_u (mt_errors_5xx mt))] @ nl @
     bs ''  },'' @ nl @ bs ''  '' @ quoted (bs ''operations'') @ bs '': {'' @ nl @
     json_members (map (op_json D) (mt_ops mt)) @ nl @
     bs ''  },'' @ nl @ bs ''  '' @ quoted (bs ''replication'') @ bs '': {'' @ nl @
     num_member (bs ''keys_repaired'') (dec_u (mt_keys_repaired mt)) @ bs '','' @ nl @
     bs ''    '' @ quoted (bs ''sync_ops'') @ bs '': {'' @ nl @ json_members (map sync_json (mt_sync mt)) @ nl @
     bs ''    },'' @ nl @ bs ''    '' @ quoted (bs ''mesh_traffic'') @ bs '': {'' @ nl @
     json_members (map lane_json (mt_lanes mt)) @ nl @ bs ''    }'' @ nl @ bs ''  }'' @ nl @ bs ''}''"

subsection \<open>Counting\<close>

text \<open>The calls that touch the counters, in the order the lock and the atomics put them in.\<close>

datatype 'd metric_call = Latency bytes 'd | Op_Count bytes bytes | Connect | Disconnect | Error int | Sync_Op bytes | Mesh_Bytes bytes u64 bool

fun run_call :: "'d double_ops \<Rightarrow> 'd metric_call \<Rightarrow> 'd metrics \<Rightarrow> 'd metrics" where
  "run_call D (Latency op s) mt = record_latency D op s mt"
| "run_call D (Op_Count op status) mt = increment_operation_count D op status mt"
| "run_call D Connect mt = increment_active_connections mt"
| "run_call D Disconnect mt = decrement_active_connections mt"
| "run_call D (Error code) mt = record_error code mt"
| "run_call D (Sync_Op ty) mt = increment_sync_ops ty mt"
| "run_call D (Mesh_Bytes l n is_send) mt = increment_mesh_bytes l n is_send mt"

definition op_count :: "'d metrics \<Rightarrow> bytes \<Rightarrow> u64" where
  "op_count mt k = (case om_find (mt_ops mt) k of None \<Rightarrow> 0 | Some s \<Rightarrow> os_count s)"

definition sync_count :: "'d metrics \<Rightarrow> bytes \<Rightarrow> u64" where
  "sync_count mt k = (case om_find (mt_sync mt) k of None \<Rightarrow> 0 | Some n \<Rightarrow> n)"

definition lane_sent :: "'d metrics \<Rightarrow> bytes \<Rightarrow> u64" where
  "lane_sent mt k = (case om_find (mt_lanes mt) k of None \<Rightarrow> 0 | Some s \<Rightarrow> fst s)"

fun counts_op :: "bytes \<Rightarrow> 'd metric_call \<Rightarrow> bool" where
  "counts_op k (Latency op s) \<longleftrightarrow> op = k"
| "counts_op k (Op_Count op status) \<longleftrightarrow> op @ bs ''_'' @ status = k"
| "counts_op k _ \<longleftrightarrow> False"

fun sent_bytes :: "bytes \<Rightarrow> 'd metric_call \<Rightarrow> u64" where
  "sent_bytes k (Mesh_Bytes l n is_send) = (if l = k \<and> is_send then n else 0)"
| "sent_bytes k _ = 0"

fun conn_change :: "'d metric_call \<Rightarrow> int" where
  "conn_change Connect = 1"
| "conn_change Disconnect = - 1"
| "conn_change _ = 0"

lemmas metric_defs = record_latency_def increment_operation_count_def increment_active_connections_def
  decrement_active_connections_def record_error_def increment_sync_ops_def increment_mesh_bytes_def om_modify_def op_fresh_def

lemma run_call_counts:
  "op_count (run_call D c mt) k = op_count mt k + (if counts_op k c then 1 else 0)"
  "lane_sent (run_call D c mt) k = lane_sent mt k + sent_bytes k c"
  "mt_active_connections (run_call D c mt) = mt_active_connections mt + word_of_int (conn_change c)"
  "sync_count (run_call D c mt) k = sync_count mt k + (if c = Sync_Op k then 1 else 0)"
  by (cases c; auto simp: metric_defs op_count_def lane_sent_def sync_count_def split: option.splits)+

text \<open>The counters count: after any sequence of calls, the count of an operation is the number of latency and status reports under its name, the
  bytes sent on a lane are the sum of those reported, and the connection gauge is connects minus disconnects, each
  modulo \<open>2 ^ 64\<close>. (A latency report for \<open>get_ok\<close> and a status report \<open>ok\<close> of \<open>get\<close> share one entry.)\<close>

theorem metrics_counts:
  fixes calls :: "'d metric_call list"
  shows "op_count (fold (run_call D) calls metrics_init) k = of_nat (length (filter (counts_op k) calls)) \<and>
    lane_sent (fold (run_call D) calls metrics_init) l = sum_list (map (sent_bytes l) calls) \<and>
    sync_count (fold (run_call D) calls metrics_init) ty = of_nat (length (filter (\<lambda>c. c = Sync_Op ty) calls)) \<and>
    mt_active_connections (fold (run_call D) calls metrics_init) = word_of_int (sum_list (map conn_change calls))"
proof -
  have "op_count (fold (run_call D) calls mt) k = op_count mt k + of_nat (length (filter (counts_op k) calls)) \<and>
      lane_sent (fold (run_call D) calls mt) l = lane_sent mt l + sum_list (map (sent_bytes l) calls) \<and>
      sync_count (fold (run_call D) calls mt) ty = sync_count mt ty + of_nat (length (filter (\<lambda>c. c = Sync_Op ty) calls)) \<and>
      mt_active_connections (fold (run_call D) calls mt) = mt_active_connections mt + word_of_int (sum_list (map conn_change calls))"
    for mt
    by (induction calls arbitrary: mt) (simp_all add: run_call_counts)
  from this [of metrics_init] show ?thesis
    by (simp add: op_count_def lane_sent_def sync_count_def metrics_init_def)
qed

end
