(* ===== verification/Cq_Base.thy ===== *)
theory Cq_Base
  imports L3_Prelude
begin

text \<open>
  The arithmetic under the message queues of the shards (\<open>lib/concurrentqueue/concurrentqueue.h\<close>, namespace
  \<open>details\<close>): hashing of thread ids, comparison of indices that wrap around, rounding up to a power of two.
  Thread ids, \<open>size_t\<close> and \<open>index_t\<close> have 64 bits.
\<close>

subsection \<open>Operations\<close>

text \<open>The finalizer of MurmurHash3.\<close>

definition hash_64 :: "u64 \<Rightarrow> u64" where
  "hash_64 h =
     (let h = h XOR drop_bit 33 h;
          h = h * 0xff51afd7ed558ccd;
          h = h XOR drop_bit 33 h;
          h = h * 0xc4ceb9fe1a85ec53
      in h XOR drop_bit 33 h)"

definition hash_thread_id :: "u64 \<Rightarrow> u64" where
  "hash_thread_id i = hash_64 i"

definition circular_less_than :: "'a::len word \<Rightarrow> 'a word \<Rightarrow> bool" where
  "circular_less_than a b \<longleftrightarrow> a - b > push_bit (LENGTH('a) - 1) 1"

text \<open>The loop at the end runs for \<open>i = 1, 2, 4\<close>.\<close>

definition ceil_to_pow_2 :: "u64 \<Rightarrow> u64" where
  "ceil_to_pow_2 x =
     (let x = x - 1;
          x = x OR drop_bit 1 x;
          x = x OR drop_bit 2 x;
          x = x OR drop_bit 4 x;
          x = fold (\<lambda>i x. x OR drop_bit (i * 8) x) [1, 2, 4] x
      in x + 1)"

subsection \<open>Wrapping indices\<close>

lemma unat_exp_below: "n < LENGTH('a) \<Longrightarrow> unat (2 ^ n :: 'a::len word) = 2 ^ n"
  by (metis take_bit_of_exp unsigned_of_nat of_nat_numeral of_nat_power mod_less power_strict_increasing_iff one_less_numeral_iff semiring_norm(76) take_bit_eq_mod)

lemma unat_uminus_word:
  assumes "a \<noteq> (0 :: 'a::len word)"
  shows "unat (- a) = 2 ^ LENGTH('a) - unat a"
proof -
  have "- a = word_of_nat (2 ^ LENGTH('a) - unat a)"
    using unat_bound [of a] by (simp add: of_nat_diff less_imp_le)
  moreover have "0 < unat a"
    using assms by (simp add: unat_gt_0)
  ultimately show ?thesis
    by (simp add: unat_of_nat take_bit_nat_eq_self_iff)
qed

lemma circular_less_than_diff: "circular_less_than a b \<longleftrightarrow> 0 < unat (b - a) \<and> unat (b - a) < 2 ^ (LENGTH('a) - 1)"
  for a b :: "'a::len word"
proof -
  let ?h = "2 ^ (LENGTH('a) - 1) :: nat"
  have p: "2 * ?h = 2 ^ LENGTH('a)"
    by (metis len_gt_0 power_Suc Suc_diff_1)
  have one: "unat (push_bit (LENGTH('a) - 1) 1 :: 'a word) = ?h"
    by (simp add: push_bit_of_1 unat_exp_below)
  show ?thesis
  proof (cases "a = b")
    case False
    then have "a - b \<noteq> 0"
      by simp
    then have "unat (a - b) = 2 ^ LENGTH('a) - unat (b - a)"
      using unat_uminus_word [of "b - a"] by simp
    moreover have "unat (b - a) \<noteq> 0" "unat (b - a) < 2 ^ LENGTH('a)"
      using False by (auto simp: unat_eq_zero)
    ultimately show ?thesis
      unfolding circular_less_than_def word_less_nat_alt one using p by linarith
  qed (simp add: circular_less_than_def)
qed

text \<open>Two indices that are less than half the range apart compare as their unwrapped values do.\<close>

lemma circular_less_than_nat:
  assumes "i < j + 2 ^ (LENGTH('a) - 1)" and "j < i + 2 ^ (LENGTH('a) - 1)"
  shows "circular_less_than (word_of_nat i :: 'a::len word) (word_of_nat j) \<longleftrightarrow> i < j"
proof -
  let ?h = "2 ^ (LENGTH('a) - 1) :: nat"
  have p: "2 * ?h = 2 ^ LENGTH('a)"
    by (metis len_gt_0 power_Suc Suc_diff_1)
  show ?thesis
  proof (cases "i \<le> j")
    case True
    then have "unat (word_of_nat j - word_of_nat i :: 'a word) = j - i"
      using assms p by (simp flip: of_nat_diff add: unat_of_nat take_bit_nat_eq_self_iff)
    with True assms show ?thesis
      by (auto simp: circular_less_than_diff)
  next
    case False
    then have d: "unat (word_of_nat i - word_of_nat j :: 'a word) = i - j"
      using assms p by (simp flip: of_nat_diff add: unat_of_nat take_bit_nat_eq_self_iff)
    then have "word_of_nat i - word_of_nat j \<noteq> (0 :: 'a word)"
      using False by auto
    then have "unat (word_of_nat j - word_of_nat i :: 'a word) = 2 ^ LENGTH('a) - (i - j)"
      using unat_uminus_word [of "word_of_nat i - word_of_nat j :: 'a word"] d by simp
    then show ?thesis
      using False assms p unfolding circular_less_than_diff by linarith
  qed
qed

subsection \<open>The hash of thread ids\<close>

lemma xorshift_inject:
  assumes "h XOR drop_bit 33 h = k XOR drop_bit 33 (k :: u64)"
  shows "h = k"
proof -
  have "drop_bit 33 (h XOR drop_bit 33 h) = drop_bit 33 h" for h :: u64
    by (rule bit_word_eqI) (auto simp: bit_simps)
  with assms have "drop_bit 33 h = drop_bit 33 k"
    by metis
  with assms show ?thesis
    by simp
qed

lemma odd_mult_inject:
  assumes "c * d = 1" and "h * c = k * (c :: u64)"
  shows "h = k"
proof -
  have "h * c * d = k * c * d"
    using assms(2) by simp
  then show ?thesis
    using assms(1) by (simp add: mult.assoc)
qed

text \<open>Different threads have different hashes, so they collide only where a hash is cut down to a table index.\<close>

lemma hash_64_inject: "hash_64 h = hash_64 k \<longleftrightarrow> h = k"
proof
  let ?x = "\<lambda>h. h XOR drop_bit 33 h :: u64"
  let ?c = "0xff51afd7ed558ccd :: u64" and ?d = "0xc4ceb9fe1a85ec53 :: u64"
  assume "hash_64 h = hash_64 k"
  then have "?x (?x (?x h * ?c) * ?d) = ?x (?x (?x k * ?c) * ?d)"
    by (simp add: hash_64_def Let_def)
  then have "?x (?x h * ?c) * ?d = ?x (?x k * ?c) * ?d"
    by (rule xorshift_inject)
  then have "?x (?x h * ?c) = ?x (?x k * ?c)"
    by (rule odd_mult_inject [rotated, where d = "0x9cb4b2f8129337db"]) simp
  then have "?x h * ?c = ?x k * ?c"
    by (rule xorshift_inject)
  then have "?x h = ?x k"
    by (rule odd_mult_inject [rotated, where d = "0x4f74430c22a54005"]) simp
  then show "h = k"
    by (rule xorshift_inject)
qed simp

subsection \<open>Rounding up to a power of two\<close>

lemma bit_smear:
  assumes "\<forall>i. bit y i \<longleftrightarrow> (\<exists>d < k. bit (x :: u64) (i + d))"
    and "l = k + k"
  shows "\<forall>i. bit (y OR drop_bit k y) i \<longleftrightarrow> (\<exists>d < l. bit x (i + d))"
  unfolding assms(2)
proof
  fix i
  have "bit (y OR drop_bit k y) i \<longleftrightarrow> (\<exists>d < k. bit x (i + d)) \<or> (\<exists>d < k. bit x (k + i + d))"
    using assms(1) by (simp add: bit_simps)
  also have "\<dots> \<longleftrightarrow> (\<exists>d < k + k. bit x (i + d))"
  proof safe
    fix d assume "d < k" "bit x (k + i + d)"
    then show "\<exists>d < k + k. bit x (i + d)"
      by (intro exI [of _ "k + d"]) (simp add: ac_simps)
  next
    fix d assume "d < k + k" "bit x (i + d)" "\<not> (\<exists>d < k. bit x (k + i + d))"
    then show "\<exists>d < k. bit x (i + d)"
      by (cases "d < k") (auto dest!: spec [of _ "d - k"] simp: ac_simps)
  qed (auto intro: trans_less_add1)
  finally show "bit (y OR drop_bit k y) i \<longleftrightarrow> (\<exists>d < k + k. bit x (i + d))" .
qed

definition smear :: "u64 \<Rightarrow> u64" where
  "smear x =
     (let x = x OR drop_bit 1 x; x = x OR drop_bit 2 x; x = x OR drop_bit 4 x
      in fold (\<lambda>i x. x OR drop_bit (i * 8) x) [1, 2, 4] x)"

lemma bit_smear_all: "bit (smear x) i \<longleftrightarrow> (\<exists>d < 64. bit x (i + d))"
proof -
  have "\<forall>i. bit x i \<longleftrightarrow> (\<exists>d < 1. bit x (i + d))"
    by simp
  note 1 = bit_smear [OF this, where l = 2, OF one_add_one [symmetric]]
  note 2 = bit_smear [OF bit_smear [OF 1, where l = 4], where l = 8]
  note 3 = bit_smear [OF bit_smear [OF bit_smear [OF 2, where l = 16], where l = 32], where l = 64]
  show ?thesis
    using 3 by (simp add: smear_def Let_def)
qed

lemma smear_mask:
  assumes "x \<noteq> (0 :: u64)"
  shows "\<exists>n < 64. bit x n \<and> smear x = mask (Suc n) \<and> (\<forall>i > n. \<not> bit x i)"
proof -
  obtain m where "bit x m"
    using assms by (metis bit_0_eq bit_eqI bot_apply bot_bool_def)
  define n where "n = Max {i. bit x i}"
  have fin: "finite {i. bit x i}" "m \<in> {i. bit x i}"
    using \<open>bit x m\<close> by (auto intro: finite_subset [of _ "{..<64}"] dest: bit_imp_le_length)
  then have n: "bit x n" "\<forall>i. bit x i \<longrightarrow> i \<le> n"
    unfolding n_def using Max_in [OF fin(1)] by auto
  then have "n < 64"
    using bit_imp_le_length by force
  moreover have "smear x = mask (Suc n)"
  proof (rule bit_word_eqI)
    fix i assume "i < LENGTH(64)"
    have "(\<exists>d < 64. bit x (i + d)) \<longleftrightarrow> i \<le> n"
      using n \<open>n < 64\<close> by (auto dest: add_leD1 intro!: exI [of _ "n - i"])
    then show "bit (smear x) i \<longleftrightarrow> bit (mask (Suc n) :: u64) i"
      using \<open>i < LENGTH(64)\<close> by (simp add: bit_smear_all bit_mask_iff less_Suc_eq_le del: mask_Suc_exp)
  qed
  ultimately show ?thesis
    using n by (meson leD)
qed

lemma unat_mask_u64: "n < 64 \<Longrightarrow> unat (mask n :: u64) = 2 ^ n - 1"
proof -
  assume "n < 64"
  then have "unat (2 ^ n - 1 :: u64) = unat (2 ^ n :: u64) - 1"
    by (intro unat_minus_one) simp
  with \<open>n < 64\<close> show ?thesis
    by (simp add: mask_eq_exp_minus_1 unat_exp_below)
qed

lemma ceil_to_pow_2_least:
  assumes "1 \<le> unat x" and "unat x \<le> 2 ^ 63"
  shows "\<exists>n. unat (ceil_to_pow_2 x) = 2 ^ n \<and> unat x \<le> 2 ^ n \<and> (\<forall>m. unat x \<le> 2 ^ m \<longrightarrow> n \<le> m)"
proof (cases "x = 1")
  case True
  then show ?thesis
    by (intro exI [of _ 0]) (simp add: ceil_to_pow_2_def Let_def)
next
  case False
  let ?y = "x - 1"
  have y: "unat ?y = unat x - 1"
    using assms(1) by (intro unat_minus_one) auto
  have eq: "ceil_to_pow_2 x = smear ?y + 1"
    by (simp add: ceil_to_pow_2_def smear_def Let_def)
  obtain n where n: "n < 64" "bit ?y n" "smear ?y = mask (Suc n)" "\<forall>i > n. \<not> bit ?y i"
    using smear_mask [of ?y] False by auto
  have lo: "2 ^ n \<le> unat ?y"
  proof -
    have "odd (unat ?y div 2 ^ n)"
      using n(2) by (simp add: bit_unsigned_iff flip: bit_iff_odd)
    then show ?thesis
      by (metis div_less even_zero not_le)
  qed
  with y assms have "(2 :: nat) ^ n < 2 ^ 63"
    by linarith
  then have "n < 63"
    by (rule power_less_imp_less_exp [rotated]) simp
  have hi: "unat ?y < 2 ^ Suc n"
  proof -
    have "take_bit (Suc n) ?y = ?y"
      using n(4) by (intro bit_eqI) (auto simp: bit_take_bit_iff less_Suc_eq_le intro: leI)
    then show ?thesis
      by (metis take_bit_nat_less_exp unsigned_take_bit_eq)
  qed
  have "unat (smear ?y + 1) = 2 ^ Suc n"
    using \<open>n < 63\<close> unat_mask_u64 [of "Suc n"] n(3) power_strict_increasing [of n 63 "2 :: nat"]
    by (subst unat_add_lem [THEN iffD1]) auto
  moreover have "unat x \<le> 2 ^ Suc n"
    using hi y assms(1) by linarith
  moreover have "Suc n \<le> m" if "unat x \<le> 2 ^ m" for m
  proof (rule ccontr)
    assume "\<not> Suc n \<le> m"
    then have "(2 :: nat) ^ m \<le> 2 ^ n"
      by simp
    with that lo y assms(1) show False
      by linarith
  qed
  ultimately show ?thesis
    unfolding eq by blast
qed

end
