(* ===== verification/Cq_Pool.thy ===== *)
theory Cq_Pool
  imports Cq_Base "HOL-Library.Monad_Syntax"
begin

text \<open>
  The blocks that hold the elements of a queue and where they come from
  (\<open>lib/concurrentqueue/concurrentqueue.h\<close>, \<open>Block\<close>, \<open>FreeList\<close> and the block pool), one operation at a time: an initial array,
  a free list of blocks given back, and the allocator. A block is an address in a memory; \<open>None\<close> as the result of an operation
  means that it reads or writes through a dangling pointer or does not return. \<open>mem n\<close> tells whether the
  \<open>n\<close>-th request to the allocator succeeds. The traits are the defaults: blocks of 32 elements, and allocated blocks are
  not recycled.
\<close>

subsection \<open>Blocks\<close>

type_synonym addr = nat

definition BLOCK_SIZE :: nat where
  "BLOCK_SIZE = 32"

record 'a block =
  elements :: "nat \<Rightarrow> 'a option"
  elementsCompletelyDequeued :: u64
  freeListRefs :: u32
  freeListNext :: "addr option"
  dynamicallyAllocated :: bool

definition block_init :: "'a block" where
  "block_init =
     \<lparr>elements = (\<lambda>_. None), elementsCompletelyDequeued = 0, freeListRefs = 0, freeListNext = None, dynamicallyAllocated = True\<rparr>"

text \<open>The place of an index in its block, and the operations for implicit producers, which count the elements taken out.\<close>

definition slot :: "u64 \<Rightarrow> nat" where
  "slot idx = unat (idx AND (word_of_nat BLOCK_SIZE - 1))"

definition set_empty :: "'a block \<Rightarrow> bool \<times> 'a block" where
  "set_empty b =
     (elementsCompletelyDequeued b = word_of_nat BLOCK_SIZE - 1, b\<lparr>elementsCompletelyDequeued := elementsCompletelyDequeued b + 1\<rparr>)"

definition reset_empty :: "'a block \<Rightarrow> 'a block" where
  "reset_empty b = b\<lparr>elementsCompletelyDequeued := 0\<rparr>"

definition construct :: "u64 \<Rightarrow> 'a \<Rightarrow> 'a block \<Rightarrow> 'a block" where
  "construct idx x b = b\<lparr>elements := (elements b)(slot idx := Some x)\<rparr>"

definition destruct :: "u64 \<Rightarrow> 'a block \<Rightarrow> 'a block" where
  "destruct idx b = b\<lparr>elements := (elements b)(slot idx := None)\<rparr>"

subsection \<open>The pool\<close>

record 'a pool =
  memory :: "addr \<rightharpoonup> 'a block"
  initialBlockPoolIndex :: u64
  initialBlockPoolSize :: u64
  freeListHead :: "addr option"
  allocations :: nat
  fresh :: addr

definition modify :: "addr \<Rightarrow> ('a block \<Rightarrow> 'a block) \<Rightarrow> 'a pool \<Rightarrow> 'a pool option" where
  "modify a f p = map_option (\<lambda>b. p\<lparr>memory := (memory p)(a \<mapsto> f b)\<rparr>) (memory p a)"

definition allocate :: "(nat \<Rightarrow> bool) \<Rightarrow> 'a pool \<Rightarrow> bool \<times> 'a pool" where
  "allocate mem p = (mem (allocations p), p\<lparr>allocations := allocations p + 1\<rparr>)"

definition REFS_MASK :: u32 where "REFS_MASK = 0x7FFFFFFF"

definition SHOULD_BE_ON_FREELIST :: u32 where "SHOULD_BE_ON_FREELIST = 0x80000000"

definition add_knowing_refcount_is_zero :: "addr \<Rightarrow> 'a pool \<Rightarrow> 'a pool option" where
  "add_knowing_refcount_is_zero node p =
     do {
       p \<leftarrow> modify node (\<lambda>b. b\<lparr>freeListNext := freeListHead p, freeListRefs := 1\<rparr>) p;
       Some (p\<lparr>freeListHead := Some node\<rparr>)
     }"

definition free_list_add :: "addr \<Rightarrow> 'a pool \<Rightarrow> 'a pool option" where
  "free_list_add node p =
     do {
       b \<leftarrow> memory p node;
       p \<leftarrow> modify node (\<lambda>b. b\<lparr>freeListRefs := freeListRefs b + SHOULD_BE_ON_FREELIST\<rparr>) p;
       if freeListRefs b = 0 then add_knowing_refcount_is_zero node p else Some p
     }"

text \<open>A head whose reference count is zero makes the loop try again for ever when nobody else changes it.\<close>

definition free_list_try_get :: "'a pool \<Rightarrow> (addr option \<times> 'a pool) option" where
  "free_list_try_get p =
     (case freeListHead p of
        None \<Rightarrow> Some (None, p)
      | Some head \<Rightarrow> do {
          b \<leftarrow> memory p head;
          if freeListRefs b AND REFS_MASK = 0 then None
          else do {
            p \<leftarrow> modify head (\<lambda>b. b\<lparr>freeListRefs := freeListRefs b + 1\<rparr>) p;
            p \<leftarrow> modify head (\<lambda>b. b\<lparr>freeListRefs := freeListRefs b - 2\<rparr>) (p\<lparr>freeListHead := freeListNext b\<rparr>);
            Some (Some head, p)
          }
        })"

definition populate_initial_block_list :: "(nat \<Rightarrow> bool) \<Rightarrow> nat \<Rightarrow> 'a pool" where
  "populate_initial_block_list mem blockCount =
     (let n = (if blockCount = 0 \<or> \<not> mem 0 then 0 else blockCount)
      in \<lparr>memory = (\<lambda>a. if a < n then Some (block_init\<lparr>dynamicallyAllocated := False\<rparr>) else None),
          initialBlockPoolIndex = 0, initialBlockPoolSize = word_of_nat n, freeListHead = None,
          allocations = (if blockCount = 0 then 0 else 1), fresh = n\<rparr>)"

definition try_get_block_from_initial_pool :: "'a pool \<Rightarrow> addr option \<times> 'a pool" where
  "try_get_block_from_initial_pool p =
     (if initialBlockPoolIndex p \<ge> initialBlockPoolSize p then (None, p)
      else (Some (unat (initialBlockPoolIndex p)), p\<lparr>initialBlockPoolIndex := initialBlockPoolIndex p + 1\<rparr>))"

definition add_block_to_free_list :: "addr \<Rightarrow> 'a pool \<Rightarrow> 'a pool option" where
  "add_block_to_free_list a p =
     do {
       b \<leftarrow> memory p a;
       if dynamicallyAllocated b then Some (p\<lparr>memory := (memory p)(a := None)\<rparr>)
       else free_list_add a p
     }"

definition create_block :: "(nat \<Rightarrow> bool) \<Rightarrow> 'a pool \<Rightarrow> addr option \<times> 'a pool" where
  "create_block mem p =
     (let (ok, p) = allocate mem p
      in if ok then (Some (fresh p), p\<lparr>memory := (memory p)(fresh p \<mapsto> block_init), fresh := fresh p + 1\<rparr>) else (None, p))"

text \<open>\<open>canAlloc\<close> is the template parameter.\<close>

definition requisition_block :: "(nat \<Rightarrow> bool) \<Rightarrow> bool \<Rightarrow> 'a pool \<Rightarrow> (addr option \<times> 'a pool) option" where
  "requisition_block mem canAlloc p =
     (case try_get_block_from_initial_pool p of
        (Some a, p) \<Rightarrow> Some (Some a, p)
      | (None, p) \<Rightarrow> do {
          (r, p) \<leftarrow> free_list_try_get p;
          (case r of
             Some a \<Rightarrow> Some (Some a, p)
           | None \<Rightarrow> Some (if canAlloc then create_block mem p else (None, p)))
        })"

subsection \<open>Where every block is\<close>

text \<open>The free list from a head on.\<close>

primrec chain :: "(addr \<rightharpoonup> 'a block) \<Rightarrow> addr option \<Rightarrow> addr list \<Rightarrow> bool" where
  "chain m h [] \<longleftrightarrow> h = None"
| "chain m h (a # as) \<longleftrightarrow> h = Some a \<and> (\<exists>b. m a = Some b \<and> freeListRefs b = 1 \<and> \<not> dynamicallyAllocated b \<and> chain m (freeListNext b) as)"

definition unissued :: "'a pool \<Rightarrow> addr set" where
  "unissued p = {unat (initialBlockPoolIndex p)..<unat (initialBlockPoolSize p)}"

text \<open>
  Every block is in use, on the free list, or not yet issued from the initial array, and in only one of these places; the
  references of a block in use are zero. The blocks of the initial array stay where they are, and the others are allocated one by one.
\<close>

definition accounted :: "'a pool \<Rightarrow> addr set \<Rightarrow> addr list \<Rightarrow> bool" where
  "accounted p used fl \<longleftrightarrow>
     dom (memory p) = used \<union> set fl \<union> unissued p \<and> {..<unat (initialBlockPoolSize p)} \<subseteq> dom (memory p) \<and>
     (\<forall>a b. memory p a = Some b \<longrightarrow> (dynamicallyAllocated b \<longleftrightarrow> unat (initialBlockPoolSize p) \<le> a))"

definition pool_inv :: "'a pool \<Rightarrow> addr set \<Rightarrow> addr list \<Rightarrow> bool" where
  "pool_inv p used fl \<longleftrightarrow>
     chain (memory p) (freeListHead p) fl \<and> distinct fl \<and>
     used \<inter> set fl = {} \<and> used \<inter> unissued p = {} \<and> set fl \<inter> unissued p = {} \<and>
     (\<forall>a \<in> used \<union> unissued p. \<exists>b. memory p a = Some b \<and> freeListRefs b = 0) \<and>
     (\<forall>a \<in> dom (memory p). a < fresh p) \<and> accounted p used fl"

lemma chain_cong: "(\<And>a. a \<in> set as \<Longrightarrow> m' a = m a) \<Longrightarrow> chain m' h as = chain m h as"
  by (induction as arbitrary: h) auto

lemma chain_update: "a \<notin> set as \<Longrightarrow> chain (m(a := v)) h as = chain m h as"
  by (rule chain_cong) auto

lemma pool_inv_used: "pool_inv p used fl \<Longrightarrow> a \<in> used \<Longrightarrow> \<exists>b. memory p a = Some b \<and> freeListRefs b = 0"
  by (simp add: pool_inv_def)

lemma pool_inv_write:
  assumes inv: "pool_inv p used fl" and a: "a \<in> used" and b: "memory p a = Some b" and refs: "freeListRefs b' = freeListRefs b"
    and dyn: "dynamicallyAllocated b' = dynamicallyAllocated b"
  shows "pool_inv (p\<lparr>memory := (memory p)(a \<mapsto> b')\<rparr>) used fl"
proof -
  have "unissued (p\<lparr>memory := (memory p)(a \<mapsto> b')\<rparr>) = unissued p" and "a \<notin> set fl"
    using inv a by (auto simp: unissued_def pool_inv_def)
  moreover have "freeListRefs b' = 0" and "a < fresh p"
    using pool_inv_used [OF inv a] inv b refs by (auto simp: pool_inv_def)
  moreover have "accounted (p\<lparr>memory := (memory p)(a \<mapsto> b')\<rparr>) used fl"
    using inv a b dyn by (auto simp: pool_inv_def accounted_def unissued_def)
  ultimately show ?thesis
    using inv unfolding pool_inv_def by (auto simp: chain_update)
qed

lemma pool_inv_allocations: "pool_inv (p\<lparr>allocations := k\<rparr>) used fl = pool_inv p used fl"
  by (simp add: pool_inv_def accounted_def unissued_def)

text \<open>A block comes from the initial array, \<close>

lemma issue_initial:
  assumes inv: "pool_inv p used fl" and lt: "initialBlockPoolIndex p < initialBlockPoolSize p"
  shows "pool_inv (p\<lparr>initialBlockPoolIndex := initialBlockPoolIndex p + 1\<rparr>) (insert (unat (initialBlockPoolIndex p)) used) fl"
    and "unat (initialBlockPoolIndex p) \<notin> used"
proof -
  let ?i = "initialBlockPoolIndex p" and ?n = "initialBlockPoolSize p"
  have i: "unat ?i < unat ?n"
    using lt by (simp add: word_less_nat_alt)
  then have "unat (?i + 1) = Suc (unat ?i)"
    using unsigned_less [of ?n, where ?'a = nat] by (simp add: unat_word_ariths)
  then have un: "unissued p = insert (unat ?i) (unissued (p\<lparr>initialBlockPoolIndex := ?i + 1\<rparr>))"
    and "unat ?i \<notin> unissued (p\<lparr>initialBlockPoolIndex := ?i + 1\<rparr>)"
    using i by (auto simp: unissued_def)
  moreover have "accounted (p\<lparr>initialBlockPoolIndex := ?i + 1\<rparr>) (insert (unat ?i) used) fl"
    using inv unfolding pool_inv_def accounted_def un by auto
  ultimately show "pool_inv (p\<lparr>initialBlockPoolIndex := ?i + 1\<rparr>) (insert (unat ?i) used) fl" and "unat ?i \<notin> used"
    using inv by (simp_all add: pool_inv_def)
qed

text \<open>from the free list, \<close>

lemma issue_free:
  assumes inv: "pool_inv p used (a # as)" and b: "memory p a = Some b"
  shows "pool_inv (p\<lparr>freeListHead := freeListNext b, memory := (memory p)(a \<mapsto> b\<lparr>freeListRefs := 0\<rparr>)\<rparr>) (insert a used) as"
    and "a \<notin> used"
proof -
  let ?p' = "p\<lparr>freeListHead := freeListNext b, memory := (memory p)(a \<mapsto> b\<lparr>freeListRefs := 0\<rparr>)\<rparr>"
  have "unissued ?p' = unissued p"
    by (simp add: unissued_def)
  moreover have "accounted ?p' (insert a used) as"
    using assms by (auto simp: pool_inv_def accounted_def unissued_def)
  ultimately show "pool_inv ?p' (insert a used) as" and "a \<notin> used"
    using assms by (auto simp: pool_inv_def chain_update)
qed

text \<open>or from the allocator.\<close>

lemma issue_fresh:
  assumes inv: "pool_inv p used fl"
  shows "pool_inv (p\<lparr>allocations := k, memory := (memory p)(fresh p \<mapsto> block_init), fresh := Suc (fresh p)\<rparr>) (insert (fresh p) used) fl"
    and "fresh p \<notin> used"
proof -
  let ?p' = "p\<lparr>allocations := k, memory := (memory p)(fresh p \<mapsto> block_init), fresh := Suc (fresh p)\<rparr>"
  have un: "unissued ?p' = unissued p"
    by (simp add: unissued_def)
  have none: "memory p (fresh p) = None"
    using inv by (auto simp: pool_inv_def)
  then show new: "fresh p \<notin> used"
    using pool_inv_used [OF inv] by fastforce
  have "fresh p \<notin> set as" if "chain (memory p) h as" for h as
    using that none by (induction as arbitrary: h) auto
  then have "fresh p \<notin> set fl" "fresh p \<notin> unissued p"
    using inv none unfolding pool_inv_def by (blast, fastforce)
  moreover have "unat (initialBlockPoolSize p) \<le> fresh p"
    using inv none by (force simp: pool_inv_def accounted_def not_less [symmetric])
  then have "accounted ?p' (insert (fresh p) used) fl"
    using inv unfolding pool_inv_def accounted_def un by (auto simp: block_init_def)
  ultimately show "pool_inv ?p' (insert (fresh p) used) fl"
    using inv new unfolding pool_inv_def un by (auto simp: chain_update block_init_def less_Suc_eq)
qed

text \<open>A block that is handed out is nobody else's, and no block in use is touched.\<close>

lemma requisition_block_inv:
  assumes inv: "pool_inv p used fl"
  shows "\<exists>r p'. requisition_block mem canAlloc p = Some (r, p') \<and>
    (case r of
       None \<Rightarrow> pool_inv p' used fl \<and> memory p' = memory p \<and> \<not> (canAlloc \<and> mem (allocations p))
     | Some a \<Rightarrow> a \<notin> used \<and> (\<exists>fl'. pool_inv p' (insert a used) fl') \<and> (\<forall>x \<in> used. memory p' x = memory p x))"
proof (cases "initialBlockPoolIndex p < initialBlockPoolSize p")
  case True
  then show ?thesis
    using issue_initial [OF inv True] by (auto simp: requisition_block_def try_get_block_from_initial_pool_def not_le)
next
  case False
  then have req: "requisition_block mem canAlloc p = free_list_try_get p \<bind>
      (\<lambda>(r, p). case r of Some a \<Rightarrow> Some (Some a, p) | None \<Rightarrow> Some (if canAlloc then create_block mem p else (None, p)))"
    by (simp add: requisition_block_def try_get_block_from_initial_pool_def not_less)
  show ?thesis
  proof (cases fl)
    case Nil
    then have "requisition_block mem canAlloc p = Some (if canAlloc then create_block mem p else (None, p))"
      using inv unfolding req by (simp add: pool_inv_def free_list_try_get_def)
    then show ?thesis
      using inv issue_fresh [OF inv] by (cases canAlloc; cases "mem (allocations p)") (auto simp: create_block_def allocate_def Let_def pool_inv_allocations)
  next
    case (Cons a as)
    then obtain b where b: "freeListHead p = Some a" "memory p a = Some b" "freeListRefs b = 1"
      using inv by (auto simp: pool_inv_def)
    then have "requisition_block mem canAlloc p =
        Some (Some a, p\<lparr>freeListHead := freeListNext b, memory := (memory p)(a \<mapsto> b\<lparr>freeListRefs := 0\<rparr>)\<rparr>)"
      unfolding req by (simp add: free_list_try_get_def modify_def REFS_MASK_def)
    then show ?thesis
      using issue_free [OF inv [unfolded Cons] b(2)] by auto
  qed
qed

lemma add_block_to_free_list_inv:
  assumes inv: "pool_inv p used fl" and a: "a \<in> used"
  shows "\<exists>p' fl'. add_block_to_free_list a p = Some p' \<and> pool_inv p' (used - {a}) fl' \<and> (\<forall>x \<in> used - {a}. memory p' x = memory p x)"
proof -
  obtain b where b: "memory p a = Some b" "freeListRefs b = 0"
    using pool_inv_used [OF inv a] by blast
  have out: "a \<notin> set fl" "a \<notin> unissued p" "a < fresh p"
    using inv a b by (auto simp: pool_inv_def)
  show ?thesis
  proof (cases "dynamicallyAllocated b")
    case True
    let ?p' = "p\<lparr>memory := (memory p)(a := None)\<rparr>"
    have un: "unissued ?p' = unissued p"
      by (simp add: unissued_def)
    moreover have "accounted ?p' (used - {a}) fl"
      using inv out True b unfolding pool_inv_def accounted_def un by auto
    ultimately have "pool_inv ?p' (used - {a}) fl"
      using inv out by (auto simp: pool_inv_def chain_update)
    with True b show ?thesis
      by (auto simp: add_block_to_free_list_def)
  next
    case False
    let ?p' = "p\<lparr>memory := (memory p)(a \<mapsto> b\<lparr>freeListNext := freeListHead p, freeListRefs := 1\<rparr>), freeListHead := Some a\<rparr>"
    have un: "unissued ?p' = unissued p"
      by (simp add: unissued_def)
    moreover have "accounted ?p' (used - {a}) (a # fl)"
      using inv a b unfolding pool_inv_def accounted_def un by auto
    ultimately have "pool_inv ?p' (used - {a}) (a # fl)"
      using inv out False by (auto simp: pool_inv_def chain_update)
    moreover have "add_block_to_free_list a p = Some ?p'"
      using False b by (simp add: add_block_to_free_list_def free_list_add_def modify_def add_knowing_refcount_is_zero_def)
    ultimately show ?thesis
      by auto
  qed
qed

text \<open>The pool of a new queue.\<close>

lemma populate_initial_block_list_inv:
  assumes "n < 2 ^ 64"
  shows "pool_inv (populate_initial_block_list mem n) {} []"
  using assms by (auto simp: pool_inv_def accounted_def populate_initial_block_list_def unissued_def Let_def unat_of_nat block_init_def split: if_splits)

end
