(* ===== verification/Cq_Protocol.thy ===== *)
theory Cq_Protocol
  imports Cq_Base
begin

text \<open>
  How consumers share the elements of one producer (\<open>ImplicitProducer::dequeue\<close> in
  \<open>lib/concurrentqueue/concurrentqueue.h\<close>). Each load, store and read-modify-write of the four counters is one
  step, and the steps of all threads interleave. A consumer takes a ticket optimistically, checks it
  against the tail, and either claims the next index or records that it took a ticket too many.
\<close>

subsection \<open>The steps\<close>

datatype consumer =
    Start
  | Loaded_Tail u64
  | Loaded_Overcommit u64 u64
  | Passed u64
  | Ticket u64 u64
  | Winner
  | Loser
  | Claimed u64

record counters =
  tailIndex :: u64
  headIndex :: u64
  dequeueOptimisticCount :: u64
  dequeueOvercommit :: u64

text \<open>One step of a consumer: its local state and the counters after it. \<open>Claimed\<close> goes on to read its element and returns.\<close>

fun consumer_step :: "consumer \<Rightarrow> counters \<Rightarrow> consumer \<times> counters" where
  "consumer_step Start c = (Loaded_Tail (tailIndex c), c)"
| "consumer_step (Loaded_Tail tail) c = (Loaded_Overcommit tail (dequeueOvercommit c), c)"
| "consumer_step (Loaded_Overcommit tail overcommit) c =
     (if circular_less_than (dequeueOptimisticCount c - overcommit) tail then Passed overcommit else Start, c)"
| "consumer_step (Passed overcommit) c =
     (Ticket overcommit (dequeueOptimisticCount c), c\<lparr>dequeueOptimisticCount := dequeueOptimisticCount c + 1\<rparr>)"
| "consumer_step (Ticket overcommit myDequeueCount) c =
     (if circular_less_than (myDequeueCount - overcommit) (tailIndex c) then Winner else Loser, c)"
| "consumer_step Winner c = (Claimed (headIndex c), c\<lparr>headIndex := headIndex c + 1\<rparr>)"
| "consumer_step Loser c = (Start, c\<lparr>dequeueOvercommit := dequeueOvercommit c + 1\<rparr>)"
| "consumer_step (Claimed i) c = (Start, c)"

text \<open>The producer publishes an element by storing the next tail.\<close>

definition publish :: "counters \<Rightarrow> counters" where
  "publish c = c\<lparr>tailIndex := tailIndex c + 1\<rparr>"

definition counters_init :: counters where
  "counters_init = \<lparr>tailIndex = 0, headIndex = 0, dequeueOptimisticCount = 0, dequeueOvercommit = 0\<rparr>"

text \<open>
  Runs of \<open>n\<close> consumers and one producer, with what has happened: the number of elements published, the number of
  tickets taken, and the indices claimed, in order.
\<close>

inductive protocol_run :: "nat \<Rightarrow> nat \<Rightarrow> nat \<Rightarrow> u64 list \<Rightarrow> consumer list \<Rightarrow> counters \<Rightarrow> bool" for n where
  Init: "protocol_run n 0 0 [] (replicate n Start) counters_init"
| Publish: "protocol_run n E A C ts c \<Longrightarrow> protocol_run n (Suc E) A C ts (publish c)"
| Consume: "protocol_run n E A C ts c \<Longrightarrow> i < n \<Longrightarrow> consumer_step (ts ! i) c = (t', c') \<Longrightarrow>
    protocol_run n E (case ts ! i of Passed _ \<Rightarrow> Suc A | _ \<Rightarrow> A) (case t' of Claimed k \<Rightarrow> C @ [k] | _ \<Rightarrow> C) (ts[i := t']) c'"

subsection \<open>The invariant\<close>

fun pending :: "consumer \<Rightarrow> nat set" where
  "pending (Ticket overcommit my) = {unat my}"
| "pending _ = {}"

definition winners :: "consumer list \<Rightarrow> nat" where
  "winners ts = length (filter (\<lambda>t. t = Winner) ts)"

definition losers :: "consumer list \<Rightarrow> nat" where
  "losers ts = length (filter (\<lambda>t. t = Loser) ts)"

text \<open>What a consumer knows: the overcommit it has loaded was recorded for tickets taken before its own.\<close>

fun consumer_ok :: "nat set \<Rightarrow> nat \<Rightarrow> consumer \<Rightarrow> bool" where
  "consumer_ok F over (Loaded_Overcommit tail o') \<longleftrightarrow> unat o' \<le> over"
| "consumer_ok F over (Passed o') \<longleftrightarrow> unat o' \<le> over"
| "consumer_ok F over (Ticket o' my) \<longleftrightarrow> unat o' \<le> card {f \<in> F. f < unat my}"
| "consumer_ok F over _ \<longleftrightarrow> True"

text \<open>\<open>S\<close> and \<open>F\<close> are the tickets that passed and that failed the second check; the others are still with their consumers.\<close>

definition tickets_ok :: "nat \<Rightarrow> consumer list \<Rightarrow> nat set \<Rightarrow> nat set \<Rightarrow> bool" where
  "tickets_ok A ts S F \<longleftrightarrow>
     S \<inter> F = {} \<and> S \<union> F \<subseteq> {..<A} \<and>
     (\<forall>i < length ts. pending (ts ! i) \<subseteq> {..<A} - S - F) \<and>
     (\<forall>i < length ts. \<forall>j < length ts. i \<noteq> j \<longrightarrow> pending (ts ! i) \<inter> pending (ts ! j) = {}) \<and>
     {..<A} \<subseteq> S \<union> F \<union> (\<Union>i < length ts. pending (ts ! i))"

definition protocol_inv :: "nat \<Rightarrow> nat \<Rightarrow> u64 list \<Rightarrow> consumer list \<Rightarrow> counters \<Rightarrow> nat set \<Rightarrow> nat set \<Rightarrow> nat \<Rightarrow> bool" where
  "protocol_inv E A C ts c S F over \<longleftrightarrow>
     tickets_ok A ts S F \<and>
     card S = length C + winners ts \<and> card F = over + losers ts \<and> C = map word_of_nat [0..<length C] \<and>
     (\<forall>s \<in> S. Suc s \<le> E + card {f \<in> F. f < s}) \<and>
     tailIndex c = word_of_nat E \<and> dequeueOptimisticCount c = word_of_nat A \<and> headIndex c = word_of_nat (length C) \<and>
     dequeueOvercommit c = word_of_nat over \<and> (\<forall>t \<in> set ts. consumer_ok F over t)"

lemma length_filter_update:
  "i < length xs \<Longrightarrow>
    length (filter P (xs[i := x])) + (if P (xs ! i) then 1 else 0) = length (filter P xs) + (if P x then 1 else 0)"
proof (induction xs arbitrary: i)
  case (Cons y ys)
  then show ?case
    using Cons.IH [of "i - 1"] by (cases i) auto
qed simp

lemmas count_updates = length_filter_update [where P = "\<lambda>t. t = Winner", folded winners_def]
  length_filter_update [where P = "\<lambda>t. t = Loser", folded losers_def]

text \<open>A step that neither takes nor decides a ticket.\<close>

lemma tickets_ok_update:
  assumes "tickets_ok A ts S F" and "i < length ts" and "pending t = pending (ts ! i)"
  shows "tickets_ok A (ts[i := t]) S F"
proof -
  have "pending (ts[i := t] ! j) = pending (ts ! j)" if "j < length ts" for j
    using that assms(2,3) by (cases "i = j") auto
  with assms(1) show ?thesis
    by (simp add: tickets_ok_def)
qed

lemma tickets_ok_take:
  assumes "tickets_ok A ts S F" and "i < length ts" and "pending (ts ! i) = {}" and "unat w = A"
  shows "tickets_ok (Suc A) (ts[i := Ticket v w]) S F"
proof -
  have p: "pending (ts[i := Ticket v w] ! j) = (if j = i then {A} else pending (ts ! j))" if "j < length ts" for j
    using that assms(2,4) by auto
  define U where "U = (\<Union>j < length ts. pending (ts[i := Ticket v w] ! j))"
  have "(\<Union>j < length ts. pending (ts ! j)) \<subseteq> U" "A \<in> U"
    unfolding U_def using p assms(2,3) by (auto split: if_splits)
  moreover have "{..<A} \<subseteq> S \<union> F \<union> (\<Union>j < length ts. pending (ts ! j))"
    using assms(1) by (simp add: tickets_ok_def)
  ultimately have cover: "{..<Suc A} \<subseteq> S \<union> F \<union> U"
    unfolding lessThan_Suc by blast
  have sub: "pending (ts ! j) \<subseteq> {..<A} - S - F" if "j < length ts" for j
    using assms(1) that by (simp add: tickets_ok_def)
  then have "A \<notin> pending (ts ! j)" if "j < length ts" for j
    using that by blast
  with assms(1) cover sub show ?thesis
    unfolding tickets_ok_def U_def by (simp add: p lessThan_Suc) blast
qed

lemma tickets_ok_decide:
  assumes "tickets_ok A ts S F" and "i < length ts" and "pending (ts ! i) = {my}" and "pending t = {}"
  shows "tickets_ok A (ts[i := t]) (insert my S) F" "tickets_ok A (ts[i := t]) S (insert my F)" "my < A" "my \<notin> S" "my \<notin> F"
proof -
  have p: "pending (ts[i := t] ! j) = (if j = i then {} else pending (ts ! j))" if "j < length ts" for j
    using that assms(2,4) by auto
  have my: "my < A" "my \<notin> S" "my \<notin> F"
    using assms(1-3) unfolding tickets_ok_def by blast+
  then show "my < A" "my \<notin> S" "my \<notin> F" .
  define U where "U = (\<Union>j < length ts. pending (ts[i := t] ! j))"
  have "(\<Union>j < length ts. pending (ts ! j)) \<subseteq> insert my U"
    unfolding U_def using p assms(3) by (auto split: if_splits)
  moreover have "{..<A} \<subseteq> S \<union> F \<union> (\<Union>j < length ts. pending (ts ! j))"
    using assms(1) by (simp add: tickets_ok_def)
  ultimately have cover: "{..<A} \<subseteq> insert my (S \<union> F \<union> U)"
    by blast
  have "my \<notin> pending (ts ! j)" if "j < length ts" "j \<noteq> i" for j
    using assms(1-3) that unfolding tickets_ok_def by blast
  then have sub: "\<forall>j < length ts. pending (ts[i := t] ! j) \<subseteq> {..<A} - insert my S - insert my F"
    using p assms(1) by (auto simp: tickets_ok_def)
  have dis: "\<forall>j < length ts. \<forall>k < length ts. j \<noteq> k \<longrightarrow> pending (ts[i := t] ! j) \<inter> pending (ts[i := t] ! k) = {}"
    using p assms(1) by (auto simp: tickets_ok_def)
  have sf: "S \<inter> F = {}" "S \<union> F \<subseteq> {..<A}"
    using assms(1) by (simp_all add: tickets_ok_def)
  show "tickets_ok A (ts[i := t]) (insert my S) F"
    unfolding tickets_ok_def length_list_update U_def [symmetric]
  proof (intro conjI)
    show "\<forall>j < length ts. pending (ts[i := t] ! j) \<subseteq> {..<A} - insert my S - F"
      using sub by blast
  qed (use my sf dis cover in blast)+
  show "tickets_ok A (ts[i := t]) S (insert my F)"
    unfolding tickets_ok_def length_list_update U_def [symmetric]
  proof (intro conjI)
    show "\<forall>j < length ts. pending (ts[i := t] ! j) \<subseteq> {..<A} - S - insert my F"
      using sub by blast
  qed (use my sf dis cover in blast)+
qed

lemma tickets_finite: "tickets_ok A ts S F \<Longrightarrow> finite S \<and> finite F \<and> card F \<le> A"
  unfolding tickets_ok_def by (metis card_lessThan card_mono finite_lessThan finite_subset le_sup_iff)

lemma consumer_ok_mono:
  assumes "consumer_ok F over t" and "over \<le> over'" and "F \<subseteq> F'" and "finite F'"
  shows "consumer_ok F' over' t"
proof -
  have "card {f \<in> F. f < m} \<le> card {f \<in> F'. f < m}" for m
    using assms(3,4) by (intro card_mono) auto
  with assms(1,2) show ?thesis
    by (cases t) (auto intro: le_trans)
qed

lemma in_set_updateD: "x \<in> set (xs[i := y]) \<Longrightarrow> x = y \<or> x \<in> set xs"
  using set_update_subset_insert by fastforce

lemma consume_inv:
  assumes inv: "protocol_inv E A C ts c S F over" and i: "i < length ts" and step: "consumer_step (ts ! i) c = (t', c')"
    and bound: "E < 2 ^ 63" "A < 2 ^ 63"
  shows "\<exists>S F over. protocol_inv E (case ts ! i of Passed _ \<Rightarrow> Suc A | _ \<Rightarrow> A) (case t' of Claimed k \<Rightarrow> C @ [k] | _ \<Rightarrow> C) (ts[i := t']) c' S F over"
proof -
  have ok: "tickets_ok A ts S F" "\<forall>t \<in> set ts. consumer_ok F over t" "consumer_ok F over (ts ! i)"
    and n: "card F = over + losers ts"
    and w: "dequeueOptimisticCount c = word_of_nat A" "dequeueOvercommit c = word_of_nat over" "tailIndex c = word_of_nat E"
    using inv i by (auto simp: protocol_inv_def)
  have fin: "finite S" "finite F" "over < 2 ^ 63"
    using tickets_finite [OF ok(1)] n bound(2) by auto
  have unat: "unat (word_of_nat k :: u64) = k" if "k < 2 ^ 63" for k
    using that by (simp add: unat_of_nat take_bit_nat_eq_self_iff)
  note cnt = count_updates [OF i, of t']
  show ?thesis
  proof (cases "ts ! i")
    case Start
    then show ?thesis
      using step inv cnt tickets_ok_update [OF ok(1) i, of t']
      by - (rule exI [of _ S], rule exI [of _ F], rule exI [of _ over], auto simp: protocol_inv_def dest!: in_set_updateD)
  next
    case (Loaded_Tail tail)
    then show ?thesis
      using step inv cnt tickets_ok_update [OF ok(1) i, of t'] unat [OF fin(3)] w
      by - (rule exI [of _ S], rule exI [of _ F], rule exI [of _ over], auto simp: protocol_inv_def dest!: in_set_updateD)
  next
    case (Loaded_Overcommit tail o')
    then show ?thesis
      using step inv cnt tickets_ok_update [OF ok(1) i, of t'] ok(3)
      by - (rule exI [of _ S], rule exI [of _ F], rule exI [of _ over], auto simp: protocol_inv_def dest!: in_set_updateD split: if_splits)
  next
    case (Passed o')
    have "{f \<in> F. f < A} = F"
      using ok(1) by (auto simp: tickets_ok_def)
    with Passed ok(3) n have "consumer_ok F over (Ticket o' (word_of_nat A))"
      by (simp add: unat [OF bound(2)])
    then show ?thesis
      using Passed step inv cnt tickets_ok_take [OF ok(1) i _ unat [OF bound(2)], of o']
      by - (rule exI [of _ S], rule exI [of _ F], rule exI [of _ over], auto simp: protocol_inv_def dest!: in_set_updateD)
  next
    case (Ticket o' my)
    then have p: "pending (ts ! i) = {unat my}" and t': "pending t' = {}"
      using step by (auto split: if_splits)
    note d = tickets_ok_decide [OF ok(1) i p t']
    have o': "unat o' \<le> card {f \<in> F. f < unat my}"
      using Ticket ok(3) by simp
    also have "\<dots> \<le> card {..<unat my}"
      by (intro card_mono) auto
    finally have le: "unat o' \<le> unat my"
      by simp
    then have "my - o' = word_of_nat (unat my - unat o')"
      by (simp add: of_nat_diff)
    moreover have "unat my - unat o' < 2 ^ 63"
      using d(3) bound(2) by linarith
    ultimately have chk: "circular_less_than (my - o') (tailIndex c) \<longleftrightarrow> unat my - unat o' < E"
      using circular_less_than_nat [where 'a = 64, of "unat my - unat o'" E] bound w(3) by simp
    show ?thesis
    proof (cases "unat my - unat o' < E")
      case True
      then have "t' = Winner" "c' = c"
        using Ticket step chk by auto
      moreover have "Suc (unat my) \<le> E + card {f \<in> F. f < unat my}"
        using True o' le by linarith
      ultimately show ?thesis
        using Ticket inv cnt d fin
        by - (rule exI [of _ "insert (unat my) S"], rule exI [of _ F], rule exI [of _ over], auto simp: protocol_inv_def dest!: in_set_updateD)
    next
      case False
      then have t: "t' = Loser" "c' = c"
        using Ticket step chk by auto
      let ?F = "insert (unat my) F"
      have "\<forall>s \<in> S. Suc s \<le> E + card {f \<in> ?F. f < s}"
      proof
        fix s assume "s \<in> S"
        then have "Suc s \<le> E + card {f \<in> F. f < s}"
          using inv by (simp add: protocol_inv_def)
        also have "card {f \<in> F. f < s} \<le> card {f \<in> ?F. f < s}"
          using fin(2) by (intro card_mono) auto
        finally show "Suc s \<le> E + card {f \<in> ?F. f < s}"
          by simp
      qed
      moreover have "\<forall>t \<in> set (ts[i := Loser]). consumer_ok ?F over t"
        using ok(2) consumer_ok_mono [of F over _ over ?F] fin(2) by (auto dest!: in_set_updateD)
      moreover have "card ?F = over + losers (ts[i := Loser])" "winners (ts[i := Loser]) = winners ts"
        using cnt t Ticket n d(5) fin(2) by simp_all
      ultimately have "protocol_inv E A C (ts[i := Loser]) c S ?F over"
        using inv d(2) t by (simp add: protocol_inv_def)
      then show ?thesis
        using Ticket t by auto
    qed
  next
    case Winner
    then have "t' = Claimed (word_of_nat (length C))" "c' = c\<lparr>headIndex := headIndex c + 1\<rparr>"
      using step inv by (auto simp: protocol_inv_def)
    then show ?thesis
      using Winner inv cnt tickets_ok_update [OF ok(1) i, of t']
      by - (rule exI [of _ S], rule exI [of _ F], rule exI [of _ over], auto simp: protocol_inv_def dest!: in_set_updateD)
  next
    case Loser
    have "\<forall>t \<in> set ts. consumer_ok F (Suc over) t"
      using ok(2) consumer_ok_mono [of F over _ "Suc over" F] fin(2) by auto
    then show ?thesis
      using Loser step inv cnt tickets_ok_update [OF ok(1) i, of t']
      by - (rule exI [of _ S], rule exI [of _ F], rule exI [of _ "Suc over"], auto simp: protocol_inv_def dest!: in_set_updateD)
  next
    case (Claimed k)
    then show ?thesis
      using step inv cnt tickets_ok_update [OF ok(1) i, of t']
      by - (rule exI [of _ S], rule exI [of _ F], rule exI [of _ over], auto simp: protocol_inv_def dest!: in_set_updateD)
  qed
qed

lemma protocol_run_inv:
  assumes "protocol_run n E A C ts c" and "E < 2 ^ 63" and "A < 2 ^ 63"
  shows "length ts = n \<and> (\<exists>S F over. protocol_inv E A C ts c S F over)"
  using assms
proof (induction rule: protocol_run.induct)
  case Init
  have "protocol_inv 0 0 [] (replicate n Start) counters_init {} {} 0"
    by (auto simp: protocol_inv_def tickets_ok_def winners_def losers_def counters_init_def)
  then show ?case
    by auto
next
  case (Publish E A C ts c)
  then obtain S F over where "length ts = n" "protocol_inv E A C ts c S F over"
    by auto
  then have "protocol_inv (Suc E) A C ts (publish c) S F over"
    by (auto simp: protocol_inv_def publish_def)
  with \<open>length ts = n\<close> show ?case
    by auto
next
  case (Consume E A C ts c i t' c')
  then have "A < 2 ^ 63"
    by (cases "ts ! i") auto
  with Consume consume_inv [of E A C ts c _ _ _ i t' c'] show ?case
    by auto
qed

lemma claims_bounded:
  assumes "tickets_ok A ts S F" and "\<forall>s \<in> S. Suc s \<le> E + card {f \<in> F. f < s}"
  shows "card S \<le> E"
proof (cases "S = {}")
  case False
  have fin: "finite S" "finite F"
    using tickets_finite [OF assms(1)] by auto
  let ?m = "Max S" and ?G = "{f \<in> F. f < Max S}"
  have "S \<subseteq> {..?m} - ?G"
    using assms(1) fin by (auto simp: tickets_ok_def)
  then have "card S \<le> card ({..?m} - ?G)"
    by (intro card_mono) auto
  also have "\<dots> = Suc ?m - card ?G"
    using fin by (subst card_Diff_subset) auto
  also have "\<dots> \<le> E"
    using assms(2) Max_in [OF fin(1) False] by fastforce
  finally show ?thesis .
qed simp

text \<open>C6. Consumers never share or invent an element: whatever the interleaving of any number of consumers with the producer, the indices
  claimed are 0, 1, 2, ... without repetition or gap, and each is claimed only after its element was published. When
  every consumer has finished, the first check of the next one compares the claims with the tail exactly, so a
  dequeue then fails only on an empty queue. (Up to \<open>2 ^ 63\<close> elements and attempts.)\<close>

theorem claims_in_order:
  assumes "protocol_run n E A C ts c" and "E < 2 ^ 63" and "A < 2 ^ 63"
  shows "C = map word_of_nat [0..<length C] \<and> length C \<le> E \<and>
    ((\<forall>t \<in> set ts. t = Start) \<longrightarrow>
      (circular_less_than (dequeueOptimisticCount c - dequeueOvercommit c) (tailIndex c) \<longleftrightarrow> length C < E))"
proof -
  obtain S F over where inv: "protocol_inv E A C ts c S F over"
    using protocol_run_inv [OF assms] by blast
  then have ok: "tickets_ok A ts S F" and S: "card S = length C + winners ts" and F: "card F = over + losers ts"
    and w: "C = map word_of_nat [0..<length C]" "tailIndex c = word_of_nat E" "dequeueOptimisticCount c = word_of_nat A"
      "dequeueOvercommit c = word_of_nat over"
    by (simp_all add: protocol_inv_def)
  have le: "length C \<le> E"
    using claims_bounded [OF ok, of E] inv S unfolding protocol_inv_def by linarith
  have "circular_less_than (dequeueOptimisticCount c - dequeueOvercommit c) (tailIndex c) \<longleftrightarrow> length C < E"
    if idle: "\<forall>t \<in> set ts. t = Start"
  proof -
    have "winners ts = 0" "losers ts = 0"
      using idle by (auto simp: winners_def losers_def filter_empty_conv)
    moreover have "pending (ts ! i) = {}" if "i < length ts" for i
      using idle nth_mem [OF that] by (metis pending.simps(2))
    then have "(\<Union>i < length ts. pending (ts ! i)) = {}"
      by simp
    ultimately have "{..<A} = S \<union> F" "S \<inter> F = {}" "card S = length C" "card F = over"
      using ok S F by (auto simp: tickets_ok_def)
    moreover from this have "A = length C + over"
      using tickets_finite [OF ok] card_Un_disjoint [of S F] by (metis card_lessThan)
    ultimately have "dequeueOptimisticCount c - dequeueOvercommit c = word_of_nat (length C)"
      using w by simp
    then show ?thesis
      using circular_less_than_nat [where 'a = 64, of "length C" E] le assms(2) w(2) by simp
  qed
  with le w(1) show ?thesis
    by blast
qed

lemma solo_step:
  "protocol_run 1 E A C [t] c \<Longrightarrow> consumer_step t c = (t', c') \<Longrightarrow>
    protocol_run 1 E (case t of Passed _ \<Rightarrow> Suc A | _ \<Rightarrow> A) (case t' of Claimed k \<Rightarrow> C @ [k] | _ \<Rightarrow> C) [t'] c'"
  using protocol_run.Consume [of 1 E A C "[t]" c 0 t' c'] by simp

lemma sample_run: "protocol_run 1 1 1 [0] [Claimed 0] \<lparr>tailIndex = 1, headIndex = 1, dequeueOptimisticCount = 1, dequeueOvercommit = 0\<rparr>"
proof -
  let ?c = "\<lambda>h a. \<lparr>tailIndex = 1, headIndex = h, dequeueOptimisticCount = a, dequeueOvercommit = 0\<rparr>"
  have "protocol_run 1 1 0 [] [Start] (?c 0 0)"
    using protocol_run.Publish [OF protocol_run.Init [of 1]] by (simp add: publish_def counters_init_def)
  then have "protocol_run 1 1 0 [] [Loaded_Tail 1] (?c 0 0)"
    using solo_step by fastforce
  then have "protocol_run 1 1 0 [] [Loaded_Overcommit 1 0] (?c 0 0)"
    using solo_step by fastforce
  then have "protocol_run 1 1 0 [] [Passed 0] (?c 0 0)"
    using solo_step by (fastforce simp: circular_less_than_def push_bit_of_1)
  then have "protocol_run 1 1 1 [] [Ticket 0 0] (?c 0 1)"
    using solo_step by fastforce
  then have "protocol_run 1 1 1 [] [Winner] (?c 0 1)"
    using solo_step by (fastforce simp: circular_less_than_def push_bit_of_1)
  then show ?thesis
    using solo_step by fastforce
qed

theorem claims_in_order_witness:
  "\<exists>c. protocol_run 1 1 1 [0] [Claimed 0] c \<and> length [0 :: u64] \<le> 1 \<and> [0 :: u64] = map word_of_nat [0..<length [0 :: u64]]"
  using sample_run claims_in_order [OF sample_run] by (intro exI) (simp only:, simp)

end
