(* ===== verification/Cq_Implicit.thy ===== *)
theory Cq_Implicit
  imports Cq_Pool Cq_Protocol "HOL-Library.Signed_Division"
begin

text \<open>
  The sub-queue of one producer (\<open>ImplicitProducer\<close> in \<open>lib/concurrentqueue/concurrentqueue.h\<close>), one operation at a
  time: elements lie in blocks of 32, and a ring of entries that doubles when it is full maps the base index of a block to its
  address. Indices are 64 bits wide and wrap. The element type moves without exceptions, as the store's messages do, so the branches
  that guard a throwing constructor or assignment are compiled out.
\<close>

subsection \<open>The block index\<close>

type_synonym entry = "u64 \<times> addr option"

record block_index =
  bi_capacity :: u64
  bi_tail :: u64
  bi_index :: "entry list"

record producer = counters +
  tailBlock :: "addr option"
  blockIndex :: "block_index option"
  nextBlockIndexCapacity :: u64
  inactive :: bool

definition INVALID_BLOCK_BASE :: u64 where
  "INVALID_BLOCK_BASE = 1"

definition IMPLICIT_INITIAL_INDEX_SIZE :: u64 where
  "IMPLICIT_INITIAL_INDEX_SIZE = 32"

text \<open>The header that follows \<open>prev\<close>: its entries from the oldest on, and as many new ones.\<close>

definition next_header :: "u64 \<Rightarrow> block_index option \<Rightarrow> block_index" where
  "next_header nextCapacity prev =
     (let prevCapacity = (case prev of None \<Rightarrow> 0 | Some bi \<Rightarrow> bi_capacity bi);
          entryCount = (case prev of None \<Rightarrow> nextCapacity | Some bi \<Rightarrow> bi_capacity bi);
          old = (case prev of
              None \<Rightarrow> []
            | Some bi \<Rightarrow> map (\<lambda>i. bi_index bi ! unat ((bi_tail bi + word_of_nat (Suc i)) AND (bi_capacity bi - 1)))
                [0..<unat (bi_capacity bi)])
      in \<lparr>bi_capacity = nextCapacity, bi_tail = (prevCapacity - 1) AND (nextCapacity - 1),
          bi_index = old @ replicate (unat entryCount) (INVALID_BLOCK_BASE, None)\<rparr>)"

definition new_block_index :: "(nat \<Rightarrow> bool) \<Rightarrow> 'a pool \<Rightarrow> producer \<Rightarrow> bool \<times> 'a pool \<times> producer" where
  "new_block_index mem p pr =
     (let (ok, p) = allocate mem p
      in if \<not> ok then (False, p, pr)
         else (True, p, pr\<lparr>blockIndex := Some (next_header (nextBlockIndexCapacity pr) (blockIndex pr)),
                          nextBlockIndexCapacity := push_bit 1 (nextBlockIndexCapacity pr)\<rparr>))"

definition next_tail :: "block_index \<Rightarrow> nat" where
  "next_tail bi = unat ((bi_tail bi + 1) AND (bi_capacity bi - 1))"

text \<open>Stores the key of the entry after the tail and makes it the tail.\<close>

definition advance_tail :: "u64 \<Rightarrow> block_index \<Rightarrow> block_index" where
  "advance_tail base bi =
     (let n = next_tail bi
      in bi\<lparr>bi_index := (bi_index bi)[n := (base, snd (bi_index bi ! n))], bi_tail := word_of_nat n\<rparr>)"

definition insert_block_index_entry ::
  "(nat \<Rightarrow> bool) \<Rightarrow> bool \<Rightarrow> u64 \<Rightarrow> 'a pool \<Rightarrow> producer \<Rightarrow> nat option \<times> 'a pool \<times> producer" where
  "insert_block_index_entry mem canAlloc blockStartIndex p pr =
     (case blockIndex pr of
        None \<Rightarrow> (None, p, pr)
      | Some bi \<Rightarrow>
          (let e = bi_index bi ! next_tail bi
           in if fst e = INVALID_BLOCK_BASE \<or> snd e = None
              then (Some (next_tail bi), p, pr\<lparr>blockIndex := Some (advance_tail blockStartIndex bi)\<rparr>)
              else if \<not> canAlloc then (None, p, pr)
              else case new_block_index mem p pr of
                  (False, p, pr) \<Rightarrow> (None, p, pr)
                | (True, p, pr) \<Rightarrow>
                    (let bi = the (blockIndex pr)
                     in (Some (next_tail bi), p, pr\<lparr>blockIndex := Some (advance_tail blockStartIndex bi)\<rparr>))))"

definition rewind_tail :: "block_index \<Rightarrow> block_index" where
  "rewind_tail bi = bi\<lparr>bi_tail := (bi_tail bi - 1) AND (bi_capacity bi - 1)\<rparr>"

definition rewind_block_index_tail :: "producer \<Rightarrow> producer" where
  "rewind_block_index_tail pr = pr\<lparr>blockIndex := map_option rewind_tail (blockIndex pr)\<rparr>"

definition set_value :: "nat \<Rightarrow> addr option \<Rightarrow> block_index \<Rightarrow> block_index" where
  "set_value i v bi = bi\<lparr>bi_index := (bi_index bi)[i := (fst (bi_index bi ! i), v)]\<rparr>"

definition store_value :: "nat \<Rightarrow> addr option \<Rightarrow> producer \<Rightarrow> producer" where
  "store_value i v pr = pr\<lparr>blockIndex := map_option (set_value i v) (blockIndex pr)\<rparr>"

text \<open>The signed division keeps the offset right when the index is below the base of the tail or has wrapped.\<close>

definition get_block_index_index_for_index :: "u64 \<Rightarrow> block_index \<Rightarrow> nat" where
  "get_block_index_index_for_index idx bi =
     (let idx = idx AND NOT (word_of_nat BLOCK_SIZE - 1);
          tailBase = fst (bi_index bi ! unat (bi_tail bi));
          off = word_of_int (sint (idx - tailBase) sdiv int BLOCK_SIZE)
      in unat ((bi_tail bi + off) AND (bi_capacity bi - 1)))"

subsection \<open>The operations\<close>

definition implicit_producer :: "(nat \<Rightarrow> bool) \<Rightarrow> 'a pool \<Rightarrow> 'a pool \<times> producer" where
  "implicit_producer mem p =
     snd (new_block_index mem p
       \<lparr>tailIndex = 0, headIndex = 0, dequeueOptimisticCount = 0, dequeueOvercommit = 0,
        tailBlock = None, blockIndex = None, nextBlockIndexCapacity = IMPLICIT_INITIAL_INDEX_SIZE, inactive = False\<rparr>)"

definition start_block :: "(nat \<Rightarrow> bool) \<Rightarrow> bool \<Rightarrow> 'a pool \<Rightarrow> producer \<Rightarrow> (bool \<times> 'a pool \<times> producer) option" where
  "start_block mem canAlloc p pr =
     (if \<not> circular_less_than (headIndex pr) (tailIndex pr + word_of_nat BLOCK_SIZE) then Some (False, p, pr)
      else case insert_block_index_entry mem canAlloc (tailIndex pr) p pr of
          (None, p, pr) \<Rightarrow> Some (False, p, pr)
        | (Some i, p, pr) \<Rightarrow> do {
            (newBlock, p) \<leftarrow> requisition_block mem canAlloc p;
            (case newBlock of
               None \<Rightarrow> Some (False, p, store_value i None (rewind_block_index_tail pr))
             | Some a \<Rightarrow> do {
                 p \<leftarrow> modify a reset_empty p;
                 Some (True, p, (store_value i (Some a) pr)\<lparr>tailBlock := Some a\<rparr>)
               })
          })"

definition implicit_enqueue ::
  "(nat \<Rightarrow> bool) \<Rightarrow> bool \<Rightarrow> 'a \<Rightarrow> 'a pool \<Rightarrow> producer \<Rightarrow> (bool \<times> 'a pool \<times> producer) option" where
  "implicit_enqueue mem canAlloc x p pr =
     do {
       (ok, p, pr) \<leftarrow> (if slot (tailIndex pr) = 0 then start_block mem canAlloc p pr else Some (True, p, pr));
       if \<not> ok then Some (False, p, pr)
       else do {
         a \<leftarrow> tailBlock pr;
         p \<leftarrow> modify a (construct (tailIndex pr) x) p;
         Some (True, p, pr\<lparr>tailIndex := 1 + tailIndex pr\<rparr>)
       }
     }"

text \<open>Takes the element at an index, and gives its block back after the last one.\<close>

definition take_element :: "u64 \<Rightarrow> 'a pool \<Rightarrow> producer \<Rightarrow> ('a \<times> 'a pool \<times> producer) option" where
  "take_element idx p pr =
     do {
       bi \<leftarrow> blockIndex pr;
       let i = get_block_index_index_for_index idx bi;
       a \<leftarrow> snd (bi_index bi ! i);
       b \<leftarrow> memory p a;
       x \<leftarrow> elements b (slot idx);
       let (emptied, b) = set_empty (destruct idx b);
       p \<leftarrow> modify a (\<lambda>_. b) p;
       if emptied then do {
         p \<leftarrow> add_block_to_free_list a p;
         Some (x, p, store_value i None pr)
       } else Some (x, p, pr)
     }"

definition implicit_dequeue :: "'a pool \<Rightarrow> producer \<Rightarrow> ('a option \<times> 'a pool \<times> producer) option" where
  "implicit_dequeue p pr =
     (if circular_less_than (dequeueOptimisticCount pr - dequeueOvercommit pr) (tailIndex pr)
      then
        let my = dequeueOptimisticCount pr;
            pr = pr\<lparr>dequeueOptimisticCount := my + 1\<rparr>
        in if circular_less_than (my - dequeueOvercommit pr) (tailIndex pr)
           then do {
             (x, p, pr) \<leftarrow> take_element (headIndex pr) p (pr\<lparr>headIndex := headIndex pr + 1\<rparr>);
             Some (Some x, p, pr)
           }
           else Some (None, p, pr\<lparr>dequeueOvercommit := dequeueOvercommit pr + 1\<rparr>)
      else Some (None, p, pr))"

definition producer_size_approx :: "producer \<Rightarrow> u64" where
  "producer_size_approx pr =
     (if circular_less_than (headIndex pr) (tailIndex pr) then tailIndex pr - headIndex pr else 0)"

end
