(* ===== verification/Cq_Index.thy ===== *)
theory Cq_Index
  imports Cq_Implicit
begin

text \<open>
  The ring of block index entries: entries keep their distance to the tail when the tail moves and when the ring doubles, so
  that looking up the index of a live block finds its entry, also after the 64-bit indices have wrapped.
\<close>

subsection \<open>The ring\<close>

lemma unat_and_mask: "c < 64 \<Longrightarrow> unat (x AND (2 ^ c - 1) :: u64) = unat x mod 2 ^ c"
  by (simp add: take_bit_eq_mod unat_mod unat_exp_below flip: mask_eq_exp_minus_1 take_bit_eq_mask)

lemma ring_word:
  assumes "c < 64"
  shows "unat ((t + word_of_int z) AND (2 ^ c - 1) :: u64) = nat ((uint t + z) mod 2 ^ c)"
proof -
  have "uint (t + word_of_int z) = (uint t + z) mod 2 ^ 64"
    by (simp add: uint_word_ariths uint_word_of_int mod_simps)
  then have "int (unat (t + word_of_int z)) mod 2 ^ c = (uint t + z) mod 2 ^ c"
    using le_imp_power_dvd [of c 64 "2 :: int"] assms by (simp add: mod_mod_cancel)
  then show ?thesis
    using assms by (metis nat_int of_nat_mod of_nat_numeral of_nat_power unat_and_mask)
qed

text \<open>The position of the entry that is \<open>d\<close> places before the tail.\<close>

definition ring_pos :: "block_index \<Rightarrow> nat \<Rightarrow> nat" where
  "ring_pos bi d = nat ((uint (bi_tail bi) - int d) mod uint (bi_capacity bi))"

definition ring :: "block_index \<Rightarrow> nat \<Rightarrow> entry" where
  "ring bi d = bi_index bi ! ring_pos bi d"

definition ring_ok :: "nat \<Rightarrow> block_index \<Rightarrow> bool" where
  "ring_ok c bi \<longleftrightarrow> c < 63 \<and> bi_capacity bi = 2 ^ c \<and> length (bi_index bi) = 2 ^ c \<and> unat (bi_tail bi) < 2 ^ c"

lemma uint_capacity: "ring_ok c bi \<Longrightarrow> uint (bi_capacity bi) = 2 ^ c"
  by (simp add: ring_ok_def uint_nat unat_exp_below del: of_nat_unat)

lemma ring_pos_lt: "ring_ok c bi \<Longrightarrow> ring_pos bi d < 2 ^ c"
  unfolding ring_pos_def by (simp add: uint_capacity nat_less_iff)

lemma ring_pos_inject:
  assumes "ring_ok c bi" and "d < 2 ^ c" and "e < 2 ^ c"
  shows "ring_pos bi d = ring_pos bi e \<longleftrightarrow> d = e"
proof -
  have "(uint (bi_tail bi) - int d) mod 2 ^ c = (uint (bi_tail bi) - int e) mod 2 ^ c \<longleftrightarrow> int d mod 2 ^ c = int e mod 2 ^ c"
    by (simp add: mod_eq_dvd_iff dvd_diff_commute)
  then show ?thesis
    using assms unfolding ring_pos_def uint_capacity [OF assms(1)] by (simp add: nat_eq_iff flip: of_nat_power)
qed

lemma uint_tail: "ring_ok c bi \<Longrightarrow> uint (bi_tail bi) < 2 ^ c"
  unfolding ring_ok_def uint_nat using of_nat_less_iff [where ?'a = int, of "unat (bi_tail bi)" "2 ^ c"] by simp

lemma ring_pos_0: "ring_ok c bi \<Longrightarrow> ring_pos bi 0 = unat (bi_tail bi)"
  using uint_tail [of c bi] by (simp add: ring_pos_def uint_capacity)

text \<open>How the positions move with the tail.\<close>

lemma ring_pos_moved:
  assumes "ring_ok c bi" and "bi_capacity bi' = 2 ^ c" and "unat (bi_tail bi') = nat ((uint (bi_tail bi) + z) mod 2 ^ c)"
  shows "ring_pos bi' d = nat ((uint (bi_tail bi) + z - int d) mod 2 ^ c)"
proof -
  have "uint (bi_capacity bi') = 2 ^ c"
    using assms uint_capacity [OF assms(1)] by (simp add: ring_ok_def)
  moreover have "uint (bi_tail bi') = (uint (bi_tail bi) + z) mod 2 ^ c"
    using assms(3) by (simp add: uint_nat del: of_nat_unat)
  ultimately show ?thesis
    by (simp add: ring_pos_def mod_simps)
qed

lemma next_tail_pos:
  assumes "ring_ok c bi"
  shows "next_tail bi = nat ((uint (bi_tail bi) + 1) mod 2 ^ c)" and "next_tail bi = ring_pos bi (2 ^ c - 1)"
proof -
  show n: "next_tail bi = nat ((uint (bi_tail bi) + 1) mod 2 ^ c)"
    using ring_word [of c "bi_tail bi" 1] assms by (simp add: next_tail_def ring_ok_def)
  have "uint (bi_tail bi) - int (2 ^ c - 1) = (uint (bi_tail bi) + 1) - 2 ^ c"
    by (simp add: of_nat_diff)
  then show "next_tail bi = ring_pos bi (2 ^ c - 1)"
    unfolding n ring_pos_def uint_capacity [OF assms] by (simp only: minus_mod_self2)
qed

lemma ring_pos_pred:
  assumes "0 < d"
  shows "nat ((uint (bi_tail bi) + 1 - int d) mod 2 ^ c) = nat ((uint (bi_tail bi) - int (d - 1)) mod 2 ^ c)"
  using assms by (simp add: of_nat_diff algebra_simps)

lemma ring_advance:
  assumes ok: "ring_ok c bi"
  shows "ring_ok c (advance_tail base bi)"
    and "d < 2 ^ c \<Longrightarrow> ring (advance_tail base bi) d = (if d = 0 then (base, snd (ring bi (2 ^ c - 1))) else ring bi (d - 1))"
    and "next_tail bi = ring_pos (advance_tail base bi) 0"
proof -
  let ?bi = "advance_tail base bi"
  have n: "next_tail bi < 2 ^ c"
    using next_tail_pos(2) [OF ok] ring_pos_lt [OF ok] by simp
  then have "next_tail bi < 2 ^ 64"
    using ok power_strict_increasing [of c 64 "2 :: nat"] by (simp add: ring_ok_def)
  then have t: "unat (bi_tail ?bi) = next_tail bi"
    by (simp add: advance_tail_def Let_def unat_of_nat)
  with n ok show "ring_ok c ?bi"
    by (simp add: ring_ok_def advance_tail_def Let_def)
  then show "next_tail bi = ring_pos ?bi 0"
    using t by (simp add: ring_pos_0)
  show "ring ?bi d = (if d = 0 then (base, snd (ring bi (2 ^ c - 1))) else ring bi (d - 1))" if d: "d < 2 ^ c"
  proof (cases "d = 0")
    case True
    have "ring ?bi 0 = bi_index ?bi ! next_tail bi"
      unfolding ring_def \<open>next_tail bi = ring_pos ?bi 0\<close> ..
    also have "\<dots> = (base, snd (ring bi (2 ^ c - 1)))"
      using n ok unfolding ring_def next_tail_pos(2) [OF ok, symmetric] by (simp add: advance_tail_def Let_def ring_ok_def)
    finally show ?thesis
      using True by simp
  next
    case False
    have "ring_pos ?bi d = ring_pos bi (d - 1)"
      using ring_pos_moved [of c bi ?bi 1 d] ring_pos_pred [of d bi c] False ok t next_tail_pos(1) [OF ok] uint_capacity [OF ok]
      by (simp add: ring_ok_def advance_tail_def Let_def ring_pos_def)
    moreover have "ring_pos bi (d - 1) \<noteq> next_tail bi"
      using ring_pos_inject [OF ok, of "d - 1" "2 ^ c - 1"] d False next_tail_pos(2) [OF ok] by simp
    ultimately show ?thesis
      using False by (simp add: ring_def advance_tail_def Let_def)
  qed
qed

lemma ring_rewind:
  assumes ok: "ring_ok c bi"
  shows "ring_ok c (rewind_tail bi)" and "ring_pos (rewind_tail bi) (2 ^ c - 1) = ring_pos bi 0"
    and "d < 2 ^ c \<Longrightarrow> ring (rewind_tail bi) d = (if d = 2 ^ c - 1 then ring bi 0 else ring bi (d + 1))"
proof -
  let ?bi = "rewind_tail bi"
  have t: "unat (bi_tail ?bi) = nat ((uint (bi_tail bi) + (- 1)) mod 2 ^ c)"
    using ring_word [of c "bi_tail bi" "- 1"] ok by (simp add: rewind_tail_def ring_ok_def)
  then show "ring_ok c ?bi"
    using ok by (simp add: ring_ok_def rewind_tail_def nat_less_iff)
  have pos: "ring_pos ?bi d = nat ((uint (bi_tail bi) + (- 1) - int d) mod 2 ^ c)" for d
    using ok t by (intro ring_pos_moved) (simp_all add: ring_ok_def rewind_tail_def)
  have "uint (bi_tail bi) + (- 1) - int (2 ^ c - 1) = uint (bi_tail bi) - 2 ^ c"
    by (simp add: of_nat_diff)
  then show last: "ring_pos ?bi (2 ^ c - 1) = ring_pos bi 0"
    unfolding pos unfolding ring_pos_def uint_capacity [OF ok] by (simp only: minus_mod_self2) simp
  have "ring_pos ?bi d = ring_pos bi (d + 1)"
    unfolding pos unfolding ring_pos_def uint_capacity [OF ok] by (simp add: algebra_simps)
  moreover have "bi_index ?bi = bi_index bi"
    by (simp add: rewind_tail_def)
  ultimately show "ring ?bi d = (if d = 2 ^ c - 1 then ring bi 0 else ring bi (d + 1))" if d: "d < 2 ^ c"
    using last unfolding ring_def by auto
qed

lemma ring_set_value:
  assumes ok: "ring_ok c bi" and "e < 2 ^ c"
  shows "ring_ok c (set_value (ring_pos bi e) v bi)"
    and "d < 2 ^ c \<Longrightarrow> ring (set_value (ring_pos bi e) v bi) d = (if d = e then (fst (ring bi e), v) else ring bi d)"
  using assms ring_pos_inject [OF ok, of d e] ring_pos_lt [OF ok, of e]
  by (auto simp: ring_ok_def set_value_def ring_def ring_pos_def)

text \<open>A new header keeps the entries in their places and has as many free ones before them.\<close>

lemma ring_next_header:
  assumes ok: "ring_ok c bi" and c: "c < 62"
  shows "ring_ok (Suc c) (next_header (2 ^ Suc c) (Some bi))"
    and "d < 2 ^ Suc c \<Longrightarrow> ring (next_header (2 ^ Suc c) (Some bi)) d = (if d < 2 ^ c then ring bi d else (INVALID_BLOCK_BASE, None))"
proof -
  let ?bi = "next_header (2 ^ Suc c) (Some bi)"
  have cap: "bi_capacity bi = 2 ^ c" "unat (bi_capacity bi) = 2 ^ c"
    using ok by (simp_all add: ring_ok_def unat_exp_below)
  have "unat (2 ^ c - 1 :: u64) = 2 ^ c - 1"
    using unat_mask_u64 [of c] c by (simp add: mask_eq_exp_minus_1)
  then have t: "unat (bi_tail ?bi) = 2 ^ c - 1"
    using unat_and_mask [of "Suc c" "2 ^ c - 1"] c cap by (simp add: next_header_def Let_def less_imp_diff_less)
  then show ok': "ring_ok (Suc c) ?bi"
    using c cap by (simp add: ring_ok_def next_header_def Let_def less_imp_diff_less)
  show "ring ?bi d = (if d < 2 ^ c then ring bi d else (INVALID_BLOCK_BASE, None))" if d: "d < 2 ^ Suc c"
  proof -
    have ut: "uint (bi_tail ?bi) = 2 ^ c - 1"
      using t by (simp add: uint_nat of_nat_diff del: of_nat_unat)
    show ?thesis
    proof (cases "d < 2 ^ c")
      case True
      then have lt: "int d < 2 ^ c"
        by (metis of_nat_less_iff of_nat_numeral of_nat_power)
      then have "(2 ^ c - 1 - int d) mod 2 ^ Suc c = 2 ^ c - 1 - int d"
        unfolding power_Suc by (intro mod_pos_pos_trivial; use lt zero_less_power [of "2 :: int" c] in linarith)
      also have "\<dots> = int (2 ^ c - 1 - d)"
        using True by (simp add: of_nat_diff)
      finally have pos: "ring_pos ?bi d = 2 ^ c - 1 - d"
        unfolding ring_pos_def ut uint_capacity [OF ok'] by simp
      have "(uint (bi_tail bi) + int (2 ^ c - d)) mod 2 ^ c = (uint (bi_tail bi) - int d) mod 2 ^ c"
        using True mod_add_self2 [of "uint (bi_tail bi) - int d" "2 ^ c"] by (simp add: of_nat_diff algebra_simps)
      then have old: "ring_pos bi d = unat ((bi_tail bi + word_of_nat (2 ^ c - d)) AND (2 ^ c - 1))"
        using ring_word [of c "bi_tail bi" "int (2 ^ c - d)"] c
        unfolding ring_pos_def uint_capacity [OF ok] of_int_of_nat_eq by simp
      have s: "2 ^ c - d = Suc (2 ^ c - 1 - d)"
        using True by simp
      have nth: "bi_index ?bi ! i = bi_index bi ! unat ((bi_tail bi + word_of_nat (Suc i)) AND (2 ^ c - 1))" if "i < 2 ^ c" for i
        using that cap by (simp add: next_header_def Let_def nth_append)
      have "ring ?bi d = bi_index ?bi ! (2 ^ c - 1 - d)"
        unfolding ring_def pos ..
      also have "\<dots> = bi_index bi ! unat ((bi_tail bi + word_of_nat (Suc (2 ^ c - 1 - d))) AND (2 ^ c - 1))"
        by (rule nth) (use s in simp)
      also have "\<dots> = ring bi d"
        unfolding ring_def old by (subst s) (rule refl)
      finally show ?thesis
        unfolding if_P [OF True] .
    next
      case False
      then have "int (2 ^ c) \<le> int d" "int d < int (2 ^ Suc c)"
        using d by linarith+
      then have lt: "2 ^ c \<le> int d" "int d < 2 ^ Suc c"
        by (simp_all only: of_nat_power of_nat_numeral)
      then have "(2 ^ c - 1 - int d) mod 2 ^ Suc c = 2 ^ c - 1 - int d + 2 ^ Suc c"
        unfolding power_Suc by (subst mod_add_self2 [symmetric], intro mod_pos_pos_trivial) linarith+
      then have "2 ^ c \<le> ring_pos ?bi d"
        unfolding ring_pos_def ut uint_capacity [OF ok'] using lt(2) by (simp add: le_nat_iff)
      then show ?thesis
        using False cap ring_pos_lt [OF ok', of d] by (simp add: ring_def next_header_def Let_def nth_append)
    qed
  qed
qed

lemma ring_first_header:
  "ring_ok 5 (next_header 32 None)" "d < 32 \<Longrightarrow> ring (next_header 32 None) d = (INVALID_BLOCK_BASE, None)"
proof -
  show ok: "ring_ok 5 (next_header 32 None)"
    by (simp add: ring_ok_def next_header_def)
  show "ring (next_header 32 None) d = (INVALID_BLOCK_BASE, None)" if "d < 32"
    using ring_pos_lt [OF ok, of d] by (simp add: ring_def next_header_def)
qed

subsection \<open>The block index\<close>

definition block_base :: "nat \<Rightarrow> u64" where
  "block_base k = word_of_nat (BLOCK_SIZE * k)"

definition free_entry :: "entry \<Rightarrow> bool" where
  "free_entry e \<longleftrightarrow> fst e = INVALID_BLOCK_BASE \<or> snd e = None"

text \<open>The blocks \<open>lo..<hi\<close> of the sub-queue have their entries at the tail of the ring, and all other entries are free.\<close>

definition index_inv :: "nat \<Rightarrow> block_index \<Rightarrow> nat \<Rightarrow> nat \<Rightarrow> (nat \<Rightarrow> addr) \<Rightarrow> bool" where
  "index_inv c bi lo hi ad \<longleftrightarrow>
     ring_ok c bi \<and> lo \<le> hi \<and> hi - lo \<le> 2 ^ c \<and>
     (\<forall>d < 2 ^ c. if d < hi - lo then ring bi d = (block_base (hi - 1 - d), Some (ad (hi - 1 - d)))
                 else free_entry (ring bi d))"

lemma base_valid: "block_base k \<noteq> INVALID_BLOCK_BASE"
proof -
  have "even (block_base k)"
    by (simp add: block_base_def BLOCK_SIZE_def)
  then show ?thesis
    by (metis INVALID_BLOCK_BASE_def odd_one)
qed

lemma index_invD:
  assumes "index_inv c bi lo hi ad"
  shows "ring_ok c bi" "lo \<le> hi" "hi - lo \<le> 2 ^ c"
    "d < hi - lo \<Longrightarrow> ring bi d = (block_base (hi - 1 - d), Some (ad (hi - 1 - d)))"
    "hi - lo \<le> d \<Longrightarrow> d < 2 ^ c \<Longrightarrow> free_entry (ring bi d)"
  using assms unfolding index_inv_def by (auto dest: less_le_trans)

lemma index_full:
  assumes inv: "index_inv c bi lo hi ad"
  shows "free_entry (bi_index bi ! next_tail bi) \<longleftrightarrow> hi - lo < 2 ^ c"
proof -
  have "bi_index bi ! next_tail bi = ring bi (2 ^ c - 1)"
    unfolding ring_def next_tail_pos(2) [OF index_invD(1) [OF inv]] ..
  moreover have "\<not> free_entry (block_base k, Some a)" for k a
    unfolding free_entry_def using base_valid by simp
  moreover have "2 ^ c - 1 < hi - lo \<longleftrightarrow> \<not> hi - lo < 2 ^ c" "2 ^ c - (1 :: nat) < 2 ^ c"
    using zero_less_power [of "2 :: nat" c] by linarith+
  ultimately show ?thesis
    using index_invD(4) [OF inv, of "2 ^ c - 1"] index_invD(5) [OF inv, of "2 ^ c - 1"] by (metis not_less)
qed

lemma index_push:
  assumes inv: "index_inv c bi lo hi ad" and room: "hi - lo < 2 ^ c"
  shows "index_inv c (set_value (next_tail bi) (Some a) (advance_tail (block_base hi) bi)) lo (Suc hi) (ad(hi := a))"
proof -
  let ?adv = "advance_tail (block_base hi) bi"
  let ?bi = "set_value (next_tail bi) (Some a) ?adv"
  have ok: "ring_ok c bi"
    using inv by (simp add: index_inv_def)
  note adv = ring_advance [OF ok, where base = "block_base hi"]
  note set = ring_set_value [OF adv(1), where e = 0 and v = "Some a", folded adv(3)]
  have r: "ring ?bi d = (if d = 0 then (block_base hi, Some a) else ring bi (d - 1))" if "d < 2 ^ c" for d
    using that by (simp add: set adv(2))
  show ?thesis
    unfolding index_inv_def
  proof (intro conjI allI impI)
    show "ring_ok c ?bi" "lo \<le> Suc hi" "Suc hi - lo \<le> 2 ^ c"
      using set(1) room inv by (simp_all add: index_inv_def)
    fix d :: nat
    assume "d < 2 ^ c"
    moreover from this have "if d - 1 < hi - lo then ring bi (d - 1) = (block_base (hi - 1 - (d - 1)), Some (ad (hi - 1 - (d - 1))))
        else free_entry (ring bi (d - 1))"
      using inv less_imp_diff_less [of d "2 ^ c" 1] by (simp add: index_inv_def)
    ultimately show "if d < Suc hi - lo then ring ?bi d = (block_base (Suc hi - 1 - d), Some ((ad(hi := a)) (Suc hi - 1 - d)))
        else free_entry (ring ?bi d)"
      using inv by (cases d) (auto simp: r index_inv_def split: if_splits)
  qed
qed

lemma index_undo:
  assumes inv: "index_inv c bi lo hi ad" and room: "hi - lo < 2 ^ c"
  shows "index_inv c (set_value (next_tail bi) None (rewind_tail (advance_tail base bi))) lo hi ad"
proof -
  let ?re = "rewind_tail (advance_tail base bi)"
  let ?bi = "set_value (next_tail bi) None ?re"
  have ok: "ring_ok c bi"
    using inv by (simp add: index_inv_def)
  note adv = ring_advance [OF ok, where base = base] and re = ring_rewind [OF ring_advance(1) [OF ok, where base = base]]
  have "next_tail bi = ring_pos ?re (2 ^ c - 1)"
    using adv(3) re(2) by simp
  note set = ring_set_value [OF re(1), where e = "2 ^ c - 1" and v = None, folded this]
  have r: "ring ?bi d = (if d = 2 ^ c - 1 then (base, None) else ring bi d)" if "d < 2 ^ c" for d
    using that by (auto simp: set re adv(2))
  show ?thesis
    using inv room set(1) unfolding index_inv_def by (auto simp: r free_entry_def)
qed

lemma index_grow:
  assumes "index_inv c bi lo hi ad" and "c < 62"
  shows "index_inv (Suc c) (next_header (2 ^ Suc c) (Some bi)) lo hi ad"
  using assms ring_next_header [of c bi] unfolding index_inv_def by (auto simp: free_entry_def)

lemma index_pop:
  assumes inv: "index_inv c bi lo hi ad" and "lo < hi"
  shows "index_inv c (set_value (ring_pos bi (hi - 1 - lo)) None bi) (Suc lo) hi ad"
proof -
  define e where "e = hi - 1 - lo"
  have lt: "e < 2 ^ c" and e: "d < hi - lo \<and> d \<noteq> e \<longleftrightarrow> d < hi - Suc lo" for d
    using index_invD(3) [OF inv] assms(2) unfolding e_def by linarith+
  note set = ring_set_value [OF index_invD(1) [OF inv] lt, where v = None]
  show ?thesis
    unfolding index_inv_def e_def [symmetric]
  proof (intro conjI allI impI)
    show "ring_ok c (set_value (ring_pos bi e) None bi)" "Suc lo \<le> hi" "hi - Suc lo \<le> 2 ^ c"
      using set(1) index_invD(3) [OF inv] assms(2) by linarith+
    fix d :: nat
    assume d: "d < 2 ^ c"
    show "if d < hi - Suc lo then ring (set_value (ring_pos bi e) None bi) d = (block_base (hi - 1 - d), Some (ad (hi - 1 - d)))
        else free_entry (ring (set_value (ring_pos bi e) None bi) d)"
      using index_invD(4) [OF inv, of d] index_invD(5) [OF inv, of d] set(2) [OF d] d
      unfolding e [symmetric] by (cases "d < hi - lo") (auto simp: free_entry_def)
  qed
qed

text \<open>Looking up an index finds the entry of its block, also when indices have wrapped.\<close>

lemma index_base: "word_of_nat i AND NOT (word_of_nat BLOCK_SIZE - 1) = block_base (i div BLOCK_SIZE)"
proof -
  have m: "word_of_nat BLOCK_SIZE - 1 = (mask 5 :: u64)"
    by (simp add: BLOCK_SIZE_def mask_eq_exp_minus_1)
  have p: "BLOCK_SIZE * (i div BLOCK_SIZE) = push_bit 5 (drop_bit 5 i)"
    by (simp add: BLOCK_SIZE_def push_bit_eq_mult drop_bit_eq_div)
  show ?thesis
    unfolding block_base_def m p by (auto simp: bit_eq_iff bit_simps)
qed

lemma index_offset:
  assumes "d < 2 ^ 58" and "d \<le> k"
  shows "sint (block_base (k - d) - block_base k) sdiv int BLOCK_SIZE = - int d"
proof -
  have "block_base (k - d) - block_base k = word_of_int (- int (BLOCK_SIZE * d))"
    using assms(2) by (simp add: block_base_def of_nat_diff algebra_simps)
  then have "sint (block_base (k - d) - block_base k) = signed_take_bit 63 (- int (BLOCK_SIZE * d))"
    using sint_sbintrunc' [where ?'a = 64, of "- int (BLOCK_SIZE * d)"] by (simp only:) simp
  also have "\<dots> = - int (BLOCK_SIZE * d)"
    using assms(1) by (simp add: BLOCK_SIZE_def signed_take_bit_int_eq_self_iff)
  finally show ?thesis
    by (simp add: BLOCK_SIZE_def signed_divide_int_eq_divide_int)
qed

lemma index_lookup:
  assumes inv: "index_inv c bi lo hi ad" and k: "lo \<le> i div BLOCK_SIZE" "i div BLOCK_SIZE < hi" and bound: "hi - lo \<le> 2 ^ 58"
  shows "get_block_index_index_for_index (word_of_nat i) bi = ring_pos bi (hi - 1 - i div BLOCK_SIZE)"
    and "ring bi (hi - 1 - i div BLOCK_SIZE) = (block_base (i div BLOCK_SIZE), Some (ad (i div BLOCK_SIZE)))"
proof -
  let ?d = "hi - 1 - i div BLOCK_SIZE"
  have ok: "ring_ok c bi"
    using inv by (rule index_invD)
  have kd: "i div BLOCK_SIZE = hi - 1 - ?d" "?d < 2 ^ 58" "?d \<le> hi - 1" "?d < hi - lo" "0 < hi - lo"
    using k bound by linarith+
  have "fst (bi_index bi ! unat (bi_tail bi)) = block_base (hi - 1)"
    using index_invD(4) [OF inv kd(5)] unfolding ring_def ring_pos_0 [OF ok] by simp
  moreover have "sint (block_base (i div BLOCK_SIZE) - block_base (hi - 1)) sdiv int BLOCK_SIZE = - int ?d"
    using index_offset [OF kd(2,3)] unfolding kd(1) [symmetric] .
  ultimately have "get_block_index_index_for_index (word_of_nat i) bi = unat ((bi_tail bi + word_of_int (- int ?d)) AND (bi_capacity bi - 1))"
    unfolding get_block_index_index_for_index_def Let_def index_base by (simp only:)
  also have "\<dots> = ring_pos bi ?d"
    using ring_word [of c "bi_tail bi" "- int ?d"] ok unfolding ring_pos_def uint_capacity [OF ok] by (simp add: ring_ok_def)
  finally show "get_block_index_index_for_index (word_of_nat i) bi = ring_pos bi ?d" .
  show "ring bi ?d = (block_base (i div BLOCK_SIZE), Some (ad (i div BLOCK_SIZE)))"
    using index_invD(4) [OF inv kd(4)] kd(1) by simp
qed

end
