(* ===== verification/Cq_Table.thy ===== *)
theory Cq_Table
  imports Cq_Index
begin

text \<open>
  The hash tables that map a thread to its producer (\<open>ImplicitProducerHash\<close> in
  \<open>lib/concurrentqueue/concurrentqueue.h\<close>): open addressing with linear probing, where a key that leaves is
  replaced by a second invalid key. A probing loop that meets no slot it can stop at runs for ever; with as many steps as there
  are slots it has seen them all, so \<open>None\<close> after that many steps stands for not returning.
\<close>

subsection \<open>Probing\<close>

record hash_table =
  capacity :: u64
  entries :: "(u64 \<times> nat) list"

definition invalid_thread_id :: u64 where
  "invalid_thread_id = 0"

definition invalid_thread_id2 :: u64 where
  "invalid_thread_id2 = 1"

definition INITIAL_IMPLICIT_PRODUCER_HASH_SIZE :: u64 where
  "INITIAL_IMPLICIT_PRODUCER_HASH_SIZE = 32"

definition empty_table :: "u64 \<Rightarrow> hash_table" where
  "empty_table n = \<lparr>capacity = n, entries = replicate (unat n) (invalid_thread_id, 0)\<rparr>"

fun probe :: "nat \<Rightarrow> (u64 \<Rightarrow> bool) \<Rightarrow> hash_table \<Rightarrow> u64 \<Rightarrow> nat option" where
  "probe 0 stop t idx = None"
| "probe (Suc n) stop t idx =
     (let i = unat (idx AND (capacity t - 1))
      in if stop (fst (entries t ! i)) then Some i else probe n stop t ((idx AND (capacity t - 1)) + 1))"

definition find_slot :: "(u64 \<Rightarrow> bool) \<Rightarrow> hash_table \<Rightarrow> u64 \<Rightarrow> nat option" where
  "find_slot stop t tid = probe (length (entries t)) stop t (hash_thread_id tid)"

definition lookup_slot :: "hash_table \<Rightarrow> u64 \<Rightarrow> nat option" where
  "lookup_slot t tid = find_slot (\<lambda>k. k = tid \<or> k = invalid_thread_id) t tid"

definition free_slot :: "hash_table \<Rightarrow> u64 \<Rightarrow> nat option" where
  "free_slot t tid = find_slot (\<lambda>k. k = invalid_thread_id \<or> k = invalid_thread_id2) t tid"

definition put_entry :: "nat \<Rightarrow> u64 \<Rightarrow> nat \<Rightarrow> hash_table \<Rightarrow> hash_table" where
  "put_entry i tid v t = t\<lparr>entries := (entries t)[i := (tid, v)]\<rparr>"

subsection \<open>Tables that probing can rely on\<close>

definition key :: "hash_table \<Rightarrow> nat \<Rightarrow> u64" where
  "key t i = fst (entries t ! i)"

definition probe_pos :: "hash_table \<Rightarrow> u64 \<Rightarrow> nat \<Rightarrow> nat" where
  "probe_pos t tid j = (unat (hash_thread_id tid) + j) mod length (entries t)"

definition valid_id :: "u64 \<Rightarrow> bool" where
  "valid_id k \<longleftrightarrow> k \<noteq> invalid_thread_id \<and> k \<noteq> invalid_thread_id2"

definition table_size :: "hash_table \<Rightarrow> bool" where
  "table_size t \<longleftrightarrow> (\<exists>c < 63. capacity t = 2 ^ c \<and> length (entries t) = 2 ^ c)"

definition reaches :: "hash_table \<Rightarrow> u64 \<Rightarrow> nat \<Rightarrow> bool" where
  "reaches t tid i \<longleftrightarrow> (\<exists>j < length (entries t). i = probe_pos t tid j \<and> (\<forall>j' < j. key t (probe_pos t tid j') \<noteq> invalid_thread_id))"

definition keys :: "hash_table \<Rightarrow> u64 set" where
  "keys t = {key t i | i. i < length (entries t) \<and> valid_id (key t i)}"

definition table_ok :: "(u64 \<rightharpoonup> nat) \<Rightarrow> hash_table \<Rightarrow> bool" where
  "table_ok owner t \<longleftrightarrow>
     table_size t \<and> (\<exists>i < length (entries t). key t i = invalid_thread_id) \<and>
     (\<forall>i < length (entries t). valid_id (key t i) \<longrightarrow> owner (key t i) = Some (snd (entries t ! i)) \<and> reaches t (key t i) i) \<and>
     inj_on (key t) {i. i < length (entries t) \<and> valid_id (key t i)}"

lemma find_map: "find P (map f xs) = map_option f (find (P \<circ> f) xs)"
  by (induction xs) auto

lemma probe_find:
  assumes c: "capacity t = 2 ^ c" "length (entries t) = 2 ^ c" "c < 63"
  shows "probe n stop t idx = map_option (\<lambda>j. (unat idx + j) mod 2 ^ c) (find (\<lambda>j. stop (key t ((unat idx + j) mod 2 ^ c))) [0..<n])"
proof (induction n arbitrary: idx)
  case (Suc n)
  have i: "unat (idx AND (2 ^ c - 1)) = unat idx mod 2 ^ c"
    using unat_and_mask [of c idx] c(3) by simp
  have "unat idx mod 2 ^ c < 2 ^ c" and "(2 :: nat) ^ c \<le> 2 ^ 62"
    using c(3) by (simp, intro power_increasing) simp_all
  then have "unat idx mod 2 ^ c < 2 ^ 62"
    by (rule less_le_trans)
  then have "unat ((idx AND (2 ^ c - 1)) + 1) = Suc (unat idx mod 2 ^ c)"
    using i by (simp add: unat_word_ariths)
  then have s: "(unat ((idx AND (2 ^ c - 1)) + 1) + j) mod 2 ^ c = (unat idx + Suc j) mod 2 ^ c" for j
    using mod_add_left_eq [of "unat idx" "2 ^ c" "Suc j"] by simp
  have "[0..<Suc n] = 0 # map Suc [0..<n]"
    by (simp add: map_Suc_upt upt_conv_Cons del: upt_Suc)
  then show ?case
    using Suc c by (simp add: i s Let_def key_def find_map option.map_comp comp_def del: upt_Suc)
qed simp

lemma probe_covers:
  assumes "i < length (entries t)"
  shows "\<exists>j < length (entries t). i = probe_pos t tid j"
proof -
  let ?n = "length (entries t)" and ?h = "unat (hash_thread_id tid)"
  let ?j = "(i + (?n - ?h mod ?n)) mod ?n"
  have "?h mod ?n < ?n"
    using assms by (intro mod_less_divisor) linarith
  then have "?h mod ?n + (i + (?n - ?h mod ?n)) = i + ?n"
    by simp
  moreover have "probe_pos t tid ?j = (?h mod ?n + (i + (?n - ?h mod ?n))) mod ?n"
    unfolding probe_pos_def by (simp add: mod_simps)
  ultimately have "i = probe_pos t tid ?j"
    using assms by simp
  moreover have "?j < ?n"
    using assms by (intro mod_less_divisor) linarith
  ultimately show ?thesis
    by blast
qed

lemma find_slot_spec:
  assumes t: "table_size t" and ex: "i < length (entries t)" "stop (key t i)"
  shows "\<exists>j < length (entries t). find_slot stop t tid = Some (probe_pos t tid j) \<and> stop (key t (probe_pos t tid j)) \<and>
    (\<forall>j' < j. \<not> stop (key t (probe_pos t tid j')))"
proof -
  let ?n = "length (entries t)"
  from t obtain c where c: "capacity t = 2 ^ c" "?n = 2 ^ c" "c < 63"
    by (auto simp: table_size_def)
  let ?P = "\<lambda>j. stop (key t (probe_pos t tid j))"
  have eq: "find_slot stop t tid = map_option (probe_pos t tid) (find ?P [0..<?n])"
    unfolding find_slot_def probe_find [OF c] probe_pos_def c(2) ..
  obtain j where "j < ?n" "?P j"
    using probe_covers [OF ex(1), of tid] ex(2) by blast
  then have "find ?P [0..<?n] \<noteq> None"
    by (auto simp: find_None_iff)
  then obtain j where j: "find ?P [0..<?n] = Some j"
    by blast
  then have "j < ?n" "?P j" "\<forall>j' < j. \<not> ?P j'"
    by (auto simp: find_Some_iff)
  then show ?thesis
    using eq j by auto
qed

lemma probe_pos_lt: "table_size t \<Longrightarrow> probe_pos t tid j < length (entries t)"
  by (auto simp: table_size_def probe_pos_def)

text \<open>Looking a thread up finds its slot, or an empty one when it is not in the table.\<close>

lemma lookup_spec:
  assumes ok: "table_ok owner t" and tid: "valid_id tid"
  shows "\<exists>i < length (entries t). lookup_slot t tid = Some i \<and>
    (if tid \<in> keys t then key t i = tid \<and> owner tid = Some (snd (entries t ! i)) else key t i = invalid_thread_id)"
proof -
  let ?n = "length (entries t)" and ?p = "probe_pos t tid"
  let ?stop = "\<lambda>k. k = tid \<or> k = invalid_thread_id"
  have t: "table_size t" and "\<exists>i < ?n. key t i = invalid_thread_id"
    using ok by (auto simp: table_ok_def)
  then obtain j where j: "j < ?n" "lookup_slot t tid = Some (?p j)" "?stop (key t (?p j))" "\<forall>j' < j. \<not> ?stop (key t (?p j'))"
    using find_slot_spec [OF t, of _ ?stop tid] unfolding lookup_slot_def by blast
  have "key t (?p j) = tid" if m: "tid \<in> keys t"
  proof -
    obtain i where i: "i < ?n" "key t i = tid"
      using m by (auto simp: keys_def)
    then obtain j2 where j2: "j2 < ?n" "i = ?p j2" "\<forall>j' < j2. key t (?p j') \<noteq> invalid_thread_id"
      using ok tid unfolding table_ok_def reaches_def by blast
    then have "j \<le> j2"
      using i(2) j(4) by (meson not_less)
    then show ?thesis
      using j(3) j2 i(2) by (cases "j = j2") auto
  qed
  moreover have "tid \<in> keys t" if "key t (?p j) = tid"
    using that tid probe_pos_lt [OF t, of tid j] by (auto simp: keys_def intro!: exI [of _ "?p j"])
  moreover have "owner tid = Some (snd (entries t ! ?p j))" if "key t (?p j) = tid"
    using that tid ok probe_pos_lt [OF t, of tid j] unfolding table_ok_def by metis
  ultimately show ?thesis
    using j probe_pos_lt [OF t] by metis
qed

subsection \<open>Adding and removing a thread\<close>

definition used_slots :: "hash_table \<Rightarrow> nat" where
  "used_slots t = card {i. i < length (entries t) \<and> key t i \<noteq> invalid_thread_id}"

lemma put_entry_simps [simp]:
  "length (entries (put_entry i tid v t)) = length (entries t)"
  "i < length (entries t) \<Longrightarrow> key (put_entry i tid v t) j = (if j = i then tid else key t j)"
  "probe_pos (put_entry i tid v t) k j = probe_pos t k j"
  "table_size (put_entry i tid v t) = table_size t"
  by (auto simp: put_entry_def key_def probe_pos_def table_size_def)

lemma table_ok_owner:
  assumes "table_ok owner t" and "\<And>k. k \<in> keys t \<Longrightarrow> owner' k = owner k"
  shows "table_ok owner' t"
proof -
  have "owner' (key t i) = owner (key t i)" if "i < length (entries t)" "valid_id (key t i)" for i
    using that by (intro assms(2)) (auto simp: keys_def)
  then show ?thesis
    using assms(1) by (simp add: table_ok_def)
qed

lemma reaches_put:
  assumes "i < length (entries t)" and "tid \<noteq> invalid_thread_id" and "reaches t k j"
  shows "reaches (put_entry i tid v t) k j"
  using assms by (auto simp: reaches_def)

lemma used_put:
  assumes "i < length (entries t)" and "tid \<noteq> invalid_thread_id"
  shows "used_slots (put_entry i tid v t) = (if key t i = invalid_thread_id then Suc (used_slots t) else used_slots t)"
proof -
  let ?U = "{j. j < length (entries t) \<and> key t j \<noteq> invalid_thread_id}"
  have "{j. j < length (entries t) \<and> key (put_entry i tid v t) j \<noteq> invalid_thread_id} = insert i ?U"
    using assms by auto
  moreover have "finite ?U"
    by simp
  ultimately show ?thesis
    using assms by (auto simp: used_slots_def card_insert_if)
qed

lemma empty_slot: "used_slots t < length (entries t) \<Longrightarrow> \<exists>i < length (entries t). key t i = invalid_thread_id"
proof (rule ccontr)
  assume "\<not> (\<exists>i < length (entries t). key t i = invalid_thread_id)" and lt: "used_slots t < length (entries t)"
  then have "{i. i < length (entries t) \<and> key t i \<noteq> invalid_thread_id} = {..<length (entries t)}"
    by auto
  then show False
    using lt by (simp add: used_slots_def)
qed

lemma insert_spec:
  assumes ok: "table_ok owner t" and tid: "valid_id tid" and new: "tid \<notin> keys t" and own: "owner tid = Some v"
    and room: "Suc (used_slots t) < length (entries t)"
  shows "\<exists>i < length (entries t). free_slot t tid = Some i \<and> table_ok owner (put_entry i tid v t) \<and>
    keys (put_entry i tid v t) = insert tid (keys t) \<and>
    used_slots (put_entry i tid v t) = (if key t i = invalid_thread_id2 then used_slots t else Suc (used_slots t))"
proof -
  let ?n = "length (entries t)" and ?p = "probe_pos t tid"
  let ?stop = "\<lambda>k. k = invalid_thread_id \<or> k = invalid_thread_id2"
  have t: "table_size t" and "\<exists>i < ?n. key t i = invalid_thread_id"
    using ok by (auto simp: table_ok_def)
  then obtain j where j: "j < ?n" "free_slot t tid = Some (?p j)" "?stop (key t (?p j))" "\<forall>j' < j. \<not> ?stop (key t (?p j'))"
    using find_slot_spec [OF t, of _ ?stop tid] unfolding free_slot_def by blast
  define i where "i = ?p j"
  define t' where "t' = put_entry i tid v t"
  have i: "i < ?n" "\<not> valid_id (key t i)" and tid0: "tid \<noteq> invalid_thread_id"
    using j(3) probe_pos_lt [OF t, of tid j] tid by (auto simp: i_def valid_id_def)
  have used: "used_slots t' = (if key t i = invalid_thread_id2 then used_slots t else Suc (used_slots t))"
    using used_put [OF i(1) tid0, of v] j(3) by (auto simp: i_def t'_def invalid_thread_id_def invalid_thread_id2_def)
  have keys: "keys t' = insert tid (keys t)"
    using i tid unfolding keys_def t'_def by (auto; metis)
  have "\<forall>j' < j. key t' (?p j') \<noteq> invalid_thread_id"
    using j(4) i(1) tid0 by (auto simp: t'_def)
  then have self: "reaches t' tid i"
    using j(1) unfolding reaches_def i_def t'_def by auto
  have "table_ok owner t'"
    unfolding table_ok_def
  proof (intro conjI allI impI)
    show "table_size t'"
      using t by (simp add: t'_def)
    show "\<exists>i < length (entries t'). key t' i = invalid_thread_id"
      by (rule empty_slot) (use used room in \<open>auto simp: t'_def\<close>)
    show "owner (key t' k) = Some (snd (entries t' ! k))" if "k < length (entries t')" "valid_id (key t' k)" for k
      using that ok own i(1) by (cases "k = i") (auto simp: t'_def put_entry_def table_ok_def key_def)
    show "reaches t' (key t' k) k" if "k < length (entries t')" "valid_id (key t' k)" for k
      using that self ok i(1) reaches_put [OF i(1) tid0, of "key t k" k v] by (cases "k = i") (auto simp: t'_def table_ok_def)
    have "key t m \<noteq> tid" if "m < ?n" for m
      using that new tid unfolding keys_def by blast
    then show "inj_on (key t') {i. i < length (entries t') \<and> valid_id (key t' i)}"
      using ok i(1) unfolding table_ok_def inj_on_def by (auto simp: t'_def split: if_splits)
  qed
  then show ?thesis
    using j(2) i(1) used keys unfolding i_def t'_def by blast
qed

definition remove_key :: "u64 \<Rightarrow> hash_table \<Rightarrow> hash_table option" where
  "remove_key tid t =
     map_option (\<lambda>i. if fst (entries t ! i) = tid then put_entry i invalid_thread_id2 (snd (entries t ! i)) t else t) (lookup_slot t tid)"

lemma remove_spec:
  assumes ok: "table_ok owner t" and tid: "valid_id tid"
  shows "\<exists>t'. remove_key tid t = Some t' \<and> table_ok (owner(tid := None)) t' \<and> keys t' = keys t - {tid} \<and> used_slots t' = used_slots t \<and>
    length (entries t') = length (entries t)"
proof (cases "tid \<in> keys t")
  case False
  then have "remove_key tid t = Some t"
    using lookup_spec [OF ok tid] tid by (auto simp: remove_key_def key_def valid_id_def)
  moreover have "table_ok (owner(tid := None)) t"
    using ok by (rule table_ok_owner) (use False in auto)
  ultimately show ?thesis
    using False by auto
next
  case True
  then obtain i where i: "i < length (entries t)" "lookup_slot t tid = Some i" "key t i = tid"
    using lookup_spec [OF ok tid] by auto
  define t' where "t' = put_entry i invalid_thread_id2 (snd (entries t ! i)) t"
  have id2: "invalid_thread_id2 \<noteq> invalid_thread_id" "\<not> valid_id invalid_thread_id2"
    by (simp_all add: invalid_thread_id_def invalid_thread_id2_def valid_id_def)
  have others: "k = i" if "k < length (entries t)" "key t k = tid" for k
    using that i ok tid unfolding table_ok_def by (auto dest!: inj_onD)
  have used: "used_slots t' = used_slots t"
    unfolding t'_def used_put [OF i(1) id2(1)] i(3) using tid by (simp add: valid_id_def)
  have "{k. k < length (entries t') \<and> valid_id (key t' k)} = {k. k < length (entries t) \<and> valid_id (key t k)} - {i}"
    using i(1) id2 by (auto simp: t'_def)
  moreover have "keys u = key u ` {k. k < length (entries u) \<and> valid_id (key u k)}" for u
    unfolding keys_def by (rule setcompr_eq_image)
  moreover have "key t' ` ({k. k < length (entries t) \<and> valid_id (key t k)} - {i}) =
      key t ` ({k. k < length (entries t) \<and> valid_id (key t k)} - {i})"
    using i(1) by (intro image_cong) (auto simp: t'_def)
  moreover have "inj_on (key t) {k. k < length (entries t) \<and> valid_id (key t k)}"
    using ok by (simp add: table_ok_def)
  ultimately have keys: "keys t' = keys t - {tid}"
    using i tid inj_on_image_set_diff [of "key t" "{k. k < length (entries t) \<and> valid_id (key t k)}" _ "{i}"] by simp
  have "table_ok (owner(tid := None)) t'"
    unfolding table_ok_def
  proof (intro conjI allI impI)
    show "table_size t'"
      using ok by (simp add: t'_def table_ok_def)
    show "\<exists>i < length (entries t'). key t' i = invalid_thread_id"
      using ok i tid unfolding table_ok_def t'_def by (auto simp: valid_id_def)
    show "(owner(tid := None)) (key t' k) = Some (snd (entries t' ! k))" if "k < length (entries t')" "valid_id (key t' k)" for k
      using that ok i(1) id2 others unfolding table_ok_def
      by (cases "k = i") (auto simp: t'_def put_entry_def key_def)
    show "reaches t' (key t' k) k" if "k < length (entries t')" "valid_id (key t' k)" for k
      using that ok i(1) id2 reaches_put [OF i(1) id2(1), of "key t k" k "snd (entries t ! i)"] unfolding table_ok_def
      by (cases "k = i") (auto simp: t'_def)
    show "inj_on (key t') {k. k < length (entries t') \<and> valid_id (key t' k)}"
      using ok i(1) id2 unfolding table_ok_def inj_on_def by (auto simp: t'_def split: if_splits)
  qed
  moreover have "remove_key tid t = Some t'"
    using i by (simp add: remove_key_def t'_def key_def)
  ultimately show ?thesis
    using used keys by (simp add: t'_def)
qed

lemma empty_table_ok:
  assumes "c < 63"
  shows "table_ok owner (empty_table (2 ^ c))" "keys (empty_table (2 ^ c)) = {}" "used_slots (empty_table (2 ^ c)) = 0"
proof -
  have n: "unat (2 ^ c :: u64) = 2 ^ c"
    using assms by (simp add: unat_exp_below)
  have k: "key (empty_table (2 ^ c)) i = invalid_thread_id" if "i < 2 ^ c" for i
    using that n by (simp add: empty_table_def key_def)
  then show "keys (empty_table (2 ^ c)) = {}" "used_slots (empty_table (2 ^ c)) = 0"
    using n by (auto simp: keys_def used_slots_def empty_table_def valid_id_def)
  show "table_ok owner (empty_table (2 ^ c))"
    unfolding table_ok_def
  proof (intro conjI allI impI)
    show "table_size (empty_table (2 ^ c))"
      using n assms by (auto simp: table_size_def empty_table_def)
    show "\<exists>i < length (entries (empty_table (2 ^ c))). key (empty_table (2 ^ c)) i = invalid_thread_id"
      using k [of 0] n by (intro exI [of _ 0]) (simp add: empty_table_def)
  qed (use k n in \<open>auto simp: empty_table_def valid_id_def inj_on_def\<close>)
qed

end
