(* ===== verification/Cq_Fifo.thy ===== *)
theory Cq_Fifo
  imports Cq_Index
begin

text \<open>
  The sub-queue of a producer is a first-in first-out queue: the invariant that ties the counters, the blocks and the block
  index to the list of elements, and what the operations do to that list.
\<close>

subsection \<open>The elements of a sub-queue\<close>

text \<open>
  \<open>H\<close> elements have been taken and \<open>xs\<close> are left; the blocks up to \<open>hi\<close> are open, block \<open>k\<close> lies at \<open>ad k\<close>.
\<close>

definition index_ok :: "producer \<Rightarrow> nat \<Rightarrow> nat \<Rightarrow> (nat \<Rightarrow> addr) \<Rightarrow> bool" where
  "index_ok pr lo hi ad \<longleftrightarrow>
     (case blockIndex pr of
        None \<Rightarrow> lo = hi
      | Some bi \<Rightarrow> \<exists>c. index_inv c bi lo hi ad \<and> nextBlockIndexCapacity pr = 2 ^ Suc c)"

definition counters_ok :: "producer \<Rightarrow> nat \<Rightarrow> nat \<Rightarrow> bool" where
  "counters_ok pr H n \<longleftrightarrow>
     tailIndex pr = word_of_nat (H + n) \<and> headIndex pr = word_of_nat H \<and>
     dequeueOptimisticCount pr - dequeueOvercommit pr = word_of_nat H"

definition blocks_ok :: "'a pool \<Rightarrow> nat \<Rightarrow> nat \<Rightarrow> (nat \<Rightarrow> addr) \<Rightarrow> 'a list \<Rightarrow> bool" where
  "blocks_ok p H hi ad xs \<longleftrightarrow>
     H + length xs \<le> BLOCK_SIZE * hi \<and> inj_on ad {H div BLOCK_SIZE..<hi} \<and>
     (\<forall>k \<in> {H div BLOCK_SIZE..<hi}.
        \<exists>b. memory p (ad k) = Some b \<and> elementsCompletelyDequeued b = word_of_nat (H - BLOCK_SIZE * k)) \<and>
     (\<forall>j < length xs. \<exists>b. memory p (ad ((H + j) div BLOCK_SIZE)) = Some b \<and> elements b ((H + j) mod BLOCK_SIZE) = Some (xs ! j))"

definition open_upto :: "'a pool \<Rightarrow> producer \<Rightarrow> nat \<Rightarrow> nat \<Rightarrow> (nat \<Rightarrow> addr) \<Rightarrow> 'a list \<Rightarrow> bool" where
  "open_upto p pr H hi ad xs \<longleftrightarrow>
     counters_ok pr H (length xs) \<and> blocks_ok p H hi ad xs \<and> index_ok pr (H div BLOCK_SIZE) hi ad \<and>
     BLOCK_SIZE * hi < H + 2 ^ 63 \<and> (H div BLOCK_SIZE < hi \<longrightarrow> tailBlock pr = Some (ad (hi - 1)))"

definition last_block :: "nat \<Rightarrow> nat" where
  "last_block T = (T + BLOCK_SIZE - 1) div BLOCK_SIZE"

definition holds :: "'a pool \<Rightarrow> producer \<Rightarrow> nat \<Rightarrow> (nat \<Rightarrow> addr) \<Rightarrow> 'a list \<Rightarrow> bool" where
  "holds p pr H ad xs \<longleftrightarrow> open_upto p pr H (last_block (H + length xs)) ad xs"

definition own_blocks :: "nat \<Rightarrow> (nat \<Rightarrow> addr) \<Rightarrow> nat \<Rightarrow> addr set" where
  "own_blocks H ad n = ad ` {H div BLOCK_SIZE..<last_block (H + n)}"

subsection \<open>Changes that leave it alone\<close>

lemma blocks_ok_frame:
  assumes "blocks_ok p H hi ad xs" and same: "\<And>x. x \<in> ad ` {H div BLOCK_SIZE..<hi} \<Longrightarrow> memory p' x = memory p x"
  shows "blocks_ok p' H hi ad xs"
proof -
  have "memory p' (ad ((H + j) div BLOCK_SIZE)) = memory p (ad ((H + j) div BLOCK_SIZE))" if "j < length xs" for j
  proof -
    have "H + j < BLOCK_SIZE * hi"
      using that assms(1) by (simp add: blocks_ok_def)
    then have "(H + j) div BLOCK_SIZE < hi"
      by (simp add: BLOCK_SIZE_def less_mult_imp_div_less mult.commute)
    then show ?thesis
      by (intro same imageI) (simp add: div_le_mono)
  qed
  then show ?thesis
    using assms unfolding blocks_ok_def by simp
qed

subsection \<open>Enqueue\<close>

lemma slot_of_nat: "slot (word_of_nat i) = i mod BLOCK_SIZE"
proof -
  have "slot (word_of_nat i) = unat (word_of_nat i :: u64) mod 2 ^ 5"
    using unat_and_mask [of 5 "word_of_nat i"] by (simp add: slot_def BLOCK_SIZE_def)
  also have "\<dots> = i mod BLOCK_SIZE"
    by (simp add: unat_of_nat BLOCK_SIZE_def mod_mod_cancel)
  finally show ?thesis .
qed

lemma index_blocks_bound: "BLOCK_SIZE * hi < H + 2 ^ 63 \<Longrightarrow> hi - H div BLOCK_SIZE \<le> 2 ^ 58"
  unfolding BLOCK_SIZE_def by simp

text \<open>A free entry of the block index, in a larger ring when there is none.\<close>

lemma insert_entry:
  assumes idx: "index_ok pr lo hi ad" and bound: "hi - lo \<le> 2 ^ 58"
  shows "\<exists>k. case insert_block_index_entry mem canAlloc base p pr of
      (None, p', pr') \<Rightarrow> p' = p\<lparr>allocations := k\<rparr> \<and> pr' = pr \<and> (blockIndex pr = None \<or> \<not> canAlloc \<or> \<not> (\<forall>n. mem n))
    | (Some i, p', pr') \<Rightarrow> p' = p\<lparr>allocations := k\<rparr> \<and> (\<exists>c bi. index_inv c bi lo hi ad \<and> hi - lo < 2 ^ c \<and> i = next_tail bi \<and>
        pr' = pr\<lparr>blockIndex := Some (advance_tail base bi), nextBlockIndexCapacity := 2 ^ Suc c\<rparr>)"
proof (cases "blockIndex pr")
  case None
  then show ?thesis
    by (auto simp: insert_block_index_entry_def intro: exI [of _ "allocations p"])
next
  case (Some bi)
  then obtain c where c: "index_inv c bi lo hi ad" "nextBlockIndexCapacity pr = 2 ^ Suc c"
    using idx by (auto simp: index_ok_def)
  show ?thesis
  proof (cases "hi - lo < 2 ^ c")
    case True
    then have "insert_block_index_entry mem canAlloc base p pr = (Some (next_tail bi), p, pr\<lparr>blockIndex := Some (advance_tail base bi)\<rparr>)"
      using index_full [OF c(1)] Some by (simp add: insert_block_index_entry_def free_entry_def Let_def)
    moreover have "pr\<lparr>blockIndex := v\<rparr> = pr\<lparr>blockIndex := v, nextBlockIndexCapacity := 2 ^ Suc c\<rparr>" for v
      using c(2) by (cases pr) simp
    ultimately have "case insert_block_index_entry mem canAlloc base p pr of (None, _) \<Rightarrow> False
      | (Some i, p', pr') \<Rightarrow> p' = p\<lparr>allocations := allocations p\<rparr> \<and> i = next_tail bi \<and>
          pr' = pr\<lparr>blockIndex := Some (advance_tail base bi), nextBlockIndexCapacity := 2 ^ Suc c\<rparr>"
      by simp
    then show ?thesis
      using c True by (intro exI [of _ "allocations p"]) (fastforce split: prod.splits option.splits)
  next
    case False
    then have full: "\<not> free_entry (bi_index bi ! next_tail bi)" and eq: "hi - lo = 2 ^ c"
      using index_full [OF c(1)] index_invD(3) [OF c(1)] by auto
    then have "c < 62"
      using bound power_le_imp_le_exp [of "2 :: nat" c 58] by simp
    then have "index_inv (Suc c) (next_header (2 ^ Suc c) (Some bi)) lo hi ad"
      using c(1) index_grow by blast
    moreover have "hi - lo < 2 ^ Suc c"
      using eq by simp
    moreover have "push_bit 1 (2 ^ Suc c) = (2 ^ Suc (Suc c) :: u64)"
      by (simp add: push_bit_eq_mult)
    moreover have "insert_block_index_entry mem canAlloc base p pr =
        (if canAlloc \<and> mem (allocations p)
         then let bi = next_header (2 ^ Suc c) (Some bi)
              in (Some (next_tail bi), p\<lparr>allocations := Suc (allocations p)\<rparr>,
                  pr\<lparr>blockIndex := Some (advance_tail base bi), nextBlockIndexCapacity := push_bit 1 (2 ^ Suc c)\<rparr>)
         else (None, p\<lparr>allocations := if canAlloc then Suc (allocations p) else allocations p\<rparr>, pr))"
      using full Some c(2)
      by (auto simp: insert_block_index_entry_def free_entry_def Let_def new_block_index_def allocate_def)
    ultimately show ?thesis
      apply (cases "canAlloc \<and> mem (allocations p)")
       apply (rule exI [of _ "Suc (allocations p)"])
       apply (auto simp: Let_def intro!: exI [of _ "Suc c"] exI [of _ "next_header (2 ^ Suc c) (Some bi)"])[1]
      apply (rule exI [of _ "if canAlloc then Suc (allocations p) else allocations p"])
      apply (auto simp: Let_def)
      done
  qed
qed

lemma room_test:
  assumes "n < 2 ^ 63"
  shows "circular_less_than (word_of_nat H) (word_of_nat (H + n) + word_of_nat BLOCK_SIZE :: u64) \<longleftrightarrow> n + BLOCK_SIZE < 2 ^ 63"
proof -
  have "word_of_nat (H + n) + word_of_nat BLOCK_SIZE - word_of_nat H = (word_of_nat (n + BLOCK_SIZE) :: u64)"
    by simp
  moreover have "unat (word_of_nat (n + BLOCK_SIZE) :: u64) = n + BLOCK_SIZE"
    using assms unfolding unat_of_nat by (simp add: BLOCK_SIZE_def)
  ultimately show ?thesis
    unfolding circular_less_than_diff by (simp only:) (simp add: BLOCK_SIZE_def)
qed

lemma tail_block_number:
  shows "last_block (Suc T) = Suc (T div BLOCK_SIZE)"
    and "T mod BLOCK_SIZE = 0 \<Longrightarrow> last_block T = T div BLOCK_SIZE"
    and "T mod BLOCK_SIZE = 0 \<Longrightarrow> BLOCK_SIZE * last_block T = T"
    and "T mod BLOCK_SIZE \<noteq> 0 \<Longrightarrow> last_block T = Suc (T div BLOCK_SIZE)"
    and "T \<le> BLOCK_SIZE * last_block T"
proof -
  have s: "BLOCK_SIZE = 32"
    by (simp add: BLOCK_SIZE_def)
  have T: "T = 32 * (T div 32) + T mod 32" "T mod 32 < 32"
    by simp_all
  have aligned: "(T + 31) div 32 = T div 32" if "T mod 32 = 0"
    by (rule div_nat_eqI) (use T that in \<open>simp; linarith\<close>)+
  then show "T mod BLOCK_SIZE = 0 \<Longrightarrow> last_block T = T div BLOCK_SIZE" "T mod BLOCK_SIZE = 0 \<Longrightarrow> BLOCK_SIZE * last_block T = T"
    using T by (simp_all add: last_block_def s add.commute)
  have inside: "(T + 31) div 32 = Suc (T div 32)" if "T mod 32 \<noteq> 0"
    by (rule div_nat_eqI) (use T that in \<open>simp; linarith\<close>)+
  then show "T mod BLOCK_SIZE \<noteq> 0 \<Longrightarrow> last_block T = Suc (T div BLOCK_SIZE)"
    by (simp add: last_block_def s)
  have "T \<le> 32 * ((T + 31) div 32)"
    using aligned inside T by (cases "T mod 32 = 0") (simp, linarith)
  then show "T \<le> BLOCK_SIZE * last_block T"
    by (simp add: last_block_def s)
qed (simp add: last_block_def BLOCK_SIZE_def)

text \<open>The block that an element goes to is open.\<close>

lemma put_element:
  fixes pr :: producer and H :: nat and xs :: "'a list"
  defines "hi \<equiv> Suc ((H + length xs) div BLOCK_SIZE)"
  assumes up: "open_upto p pr H (hi) ad xs" and inv: "pool_inv p used fl" and own: "ad ` {H div BLOCK_SIZE..<hi} \<subseteq> used"
  shows "\<exists>a p'. tailBlock pr = Some a \<and> modify a (construct (tailIndex pr) x) p = Some p' \<and>
    holds p' (pr\<lparr>tailIndex := 1 + tailIndex pr\<rparr>) H ad (xs @ [x]) \<and> pool_inv p' used fl \<and>
    (\<forall>y. y \<notin> ad ` {H div BLOCK_SIZE..<hi} \<longrightarrow> memory p' y = memory p y)"
proof -
  let ?T = "H + length xs" and ?lo = "H div BLOCK_SIZE"
  let ?k = "?T div BLOCK_SIZE"
  have k: "?k \<in> {?lo..<hi}" "hi - 1 = ?k"
    by (auto simp: hi_def div_le_mono)
  have blocks: "blocks_ok p H (hi) ad xs" and tail: "tailBlock pr = Some (ad ?k)" and idx: "tailIndex pr = word_of_nat ?T"
    using up k by (auto simp: open_upto_def counters_ok_def)
  have sl: "slot (tailIndex pr) = ?T mod BLOCK_SIZE"
    unfolding idx by (rule slot_of_nat)
  from blocks k obtain b where b: "memory p (ad ?k) = Some b" "elementsCompletelyDequeued b = word_of_nat (H - BLOCK_SIZE * ?k)"
    unfolding blocks_ok_def by blast
  let ?b = "construct (tailIndex pr) x b"
  let ?p = "p\<lparr>memory := (memory p)(ad ?k \<mapsto> ?b)\<rparr>"
  have "pool_inv ?p used fl"
    using inv own k b by (intro pool_inv_write) (auto simp: construct_def)
  moreover have "blocks_ok ?p H (hi) ad (xs @ [x])"
    unfolding blocks_ok_def
  proof (intro conjI ballI allI impI)
    show "H + length (xs @ [x]) \<le> BLOCK_SIZE * hi"
      by (simp add: hi_def BLOCK_SIZE_def)
    show "inj_on ad {?lo..<hi}"
      using blocks by (simp add: blocks_ok_def)
    show "\<exists>b. memory ?p (ad k) = Some b \<and> elementsCompletelyDequeued b = word_of_nat (H - BLOCK_SIZE * k)" if "k \<in> {?lo..<hi}" for k
    proof (cases "ad k = ad ?k")
      case True
      then have "k = ?k"
        using blocks k that by (auto simp: blocks_ok_def dest: inj_onD)
      then show ?thesis
        using b by (simp add: construct_def)
    next
      case False
      then show ?thesis
        using blocks that by (simp add: blocks_ok_def)
    qed
    show "\<exists>b. memory ?p (ad ((H + j) div BLOCK_SIZE)) = Some b \<and> elements b ((H + j) mod BLOCK_SIZE) = Some ((xs @ [x]) ! j)"
      if "j < length (xs @ [x])" for j
    proof (cases "j = length xs")
      case True
      then show ?thesis
        by (simp add: construct_def sl)
    next
      case False
      then have j: "j < length xs"
        using that by simp
      then obtain c where c: "memory p (ad ((H + j) div BLOCK_SIZE)) = Some c" "elements c ((H + j) mod BLOCK_SIZE) = Some (xs ! j)"
        using blocks by (auto simp: blocks_ok_def)
      have "(H + j) mod BLOCK_SIZE \<noteq> ?T mod BLOCK_SIZE" if "ad ((H + j) div BLOCK_SIZE) = ad ?k"
      proof -
        have "(H + j) div BLOCK_SIZE = ?k"
          using that j k blocks by (auto simp: blocks_ok_def hi_def div_le_mono less_Suc_eq_le dest!: inj_onD)
        then show ?thesis
          using j by (metis add_left_imp_eq mod_mult_div_eq nat_neq_iff)
      qed
      then show ?thesis
        using c b j by (auto simp: construct_def sl nth_append)
    qed
  qed
  moreover have "last_block (H + length (xs @ [x])) = hi"
    using tail_block_number(1) [of ?T] by (simp add: hi_def)
  moreover have "counters_ok (pr\<lparr>tailIndex := 1 + tailIndex pr\<rparr>) H (length (xs @ [x]))"
    using up by (simp add: open_upto_def counters_ok_def)
  moreover have "index_ok (pr\<lparr>tailIndex := 1 + tailIndex pr\<rparr>) ?lo hi ad"
    using up by (simp add: open_upto_def index_ok_def split: option.splits)
  ultimately have "holds ?p (pr\<lparr>tailIndex := 1 + tailIndex pr\<rparr>) H ad (xs @ [x])"
    using up by (simp add: holds_def open_upto_def)
  moreover have "modify (ad ?k) (construct (tailIndex pr) x) p = Some ?p"
    using b by (simp add: modify_def)
  moreover have "\<forall>y. y \<notin> ad ` {?lo..<hi} \<longrightarrow> memory ?p y = memory p y"
    using k by auto
  ultimately show ?thesis
    using tail \<open>pool_inv ?p used fl\<close> by blast
qed

text \<open>A new block at the tail, with its entry in the index.\<close>

lemma blocks_ok_extend:
  assumes blocks: "blocks_ok p H hi ad xs" and new: "a \<notin> ad ` {H div BLOCK_SIZE..<hi}"
    and b: "memory p a = Some b" "elementsCompletelyDequeued b = 0" and H: "H \<le> BLOCK_SIZE * hi"
  shows "blocks_ok p H (Suc hi) (ad(hi := a)) xs"
  unfolding blocks_ok_def
proof (intro conjI ballI allI impI)
  show "H + length xs \<le> BLOCK_SIZE * Suc hi"
    using blocks by (simp add: blocks_ok_def)
  show "inj_on (ad(hi := a)) {H div BLOCK_SIZE..<Suc hi}"
    using blocks new by (auto simp: blocks_ok_def inj_on_def less_Suc_eq)
  show "\<exists>b. memory p ((ad(hi := a)) k) = Some b \<and> elementsCompletelyDequeued b = word_of_nat (H - BLOCK_SIZE * k)"
    if "k \<in> {H div BLOCK_SIZE..<Suc hi}" for k
    using that blocks b H by (auto simp: blocks_ok_def less_Suc_eq)
  show "\<exists>b. memory p ((ad(hi := a)) ((H + j) div BLOCK_SIZE)) = Some b \<and> elements b ((H + j) mod BLOCK_SIZE) = Some (xs ! j)"
    if "j < length xs" for j
  proof -
    have "(H + j) div BLOCK_SIZE < hi"
      using that blocks by (simp add: blocks_ok_def BLOCK_SIZE_def less_mult_imp_div_less mult.commute)
    then show ?thesis
      using that blocks by (simp add: blocks_ok_def)
  qed
qed

lemma open_block:
  assumes h: "holds p pr H ad xs" and al: "(H + length xs) mod BLOCK_SIZE = 0" and hi: "hi = last_block (H + length xs)"
    and room: "length xs + BLOCK_SIZE < 2 ^ 63"
    and i: "index_inv c bi (H div BLOCK_SIZE) hi ad" "hi - H div BLOCK_SIZE < 2 ^ c"
    and new: "a \<notin> ad ` {H div BLOCK_SIZE..<hi}" and same: "\<And>x. x \<in> ad ` {H div BLOCK_SIZE..<hi} \<Longrightarrow> memory p' x = memory p x"
    and b: "memory p' a = Some b" "elementsCompletelyDequeued b = 0"
  shows "open_upto p' (store_value (next_tail bi) (Some a)
      (pr\<lparr>blockIndex := Some (advance_tail (tailIndex pr) bi), nextBlockIndexCapacity := 2 ^ Suc c\<rparr>)\<lparr>tailBlock := Some a\<rparr>)
    H (Suc hi) (ad(hi := a)) xs"
proof -
  have T: "BLOCK_SIZE * hi = H + length xs"
    using tail_block_number(3) [OF al] hi by simp
  have blocks: "blocks_ok p H hi ad xs" and cs: "counters_ok pr H (length xs)"
    using h hi by (simp_all add: holds_def open_upto_def)
  then have base: "tailIndex pr = block_base hi"
    by (simp add: counters_ok_def block_base_def T)
  have "blocks_ok p' H (Suc hi) (ad(hi := a)) xs"
    using blocks_ok_extend [OF blocks_ok_frame [OF blocks same] new b] T by simp
  moreover have "index_inv c (set_value (next_tail bi) (Some a) (advance_tail (tailIndex pr) bi)) (H div BLOCK_SIZE) (Suc hi) (ad(hi := a))"
    unfolding base using i by (rule index_push)
  moreover have "BLOCK_SIZE * Suc hi < H + 2 ^ 63"
    using room T by simp
  ultimately show ?thesis
    using cs by (auto simp: open_upto_def counters_ok_def index_ok_def store_value_def)
qed

text \<open>Without a block the entry is given back.\<close>

lemma undo_block:
  assumes h: "holds p pr H ad xs" and i: "index_inv c bi (H div BLOCK_SIZE) (last_block (H + length xs)) ad"
      "last_block (H + length xs) - H div BLOCK_SIZE < 2 ^ c"
    and same: "memory p' = memory p"
  shows "holds p' (store_value (next_tail bi) None (rewind_block_index_tail
      (pr\<lparr>blockIndex := Some (advance_tail base bi), nextBlockIndexCapacity := 2 ^ Suc c\<rparr>))) H ad xs"
proof -
  have "blocks_ok p' H (last_block (H + length xs)) ad xs"
    using h same unfolding holds_def open_upto_def blocks_ok_def by simp
  then show ?thesis
    using h index_undo [OF i, of base]
    by (auto simp: holds_def open_upto_def counters_ok_def index_ok_def store_value_def rewind_block_index_tail_def)
qed

lemma holds_allocations: "holds (p\<lparr>allocations := k\<rparr>) pr H ad xs = holds p pr H ad xs"
  by (simp add: holds_def open_upto_def blocks_ok_def)

lemma requisition_block_allocations:
  assumes "pool_inv p used fl"
  shows "\<exists>r p'. requisition_block mem canAlloc (p\<lparr>allocations := k\<rparr>) = Some (r, p') \<and> (\<forall>x \<in> used. memory p' x = memory p x) \<and>
    (case r of
       None \<Rightarrow> pool_inv p' used fl \<and> memory p' = memory p \<and> (\<not> canAlloc \<or> \<not> (\<forall>n. mem n))
     | Some a \<Rightarrow> a \<notin> used \<and> (\<exists>fl'. pool_inv p' (insert a used) fl'))"
proof -
  let ?q = "p\<lparr>allocations := k\<rparr>"
  obtain r p' where req: "requisition_block mem canAlloc ?q = Some (r, p')"
    and r: "case r of None \<Rightarrow> pool_inv p' used fl \<and> memory p' = memory ?q \<and> \<not> (canAlloc \<and> mem (allocations ?q))
      | Some a \<Rightarrow> a \<notin> used \<and> (\<exists>fl'. pool_inv p' (insert a used) fl') \<and> (\<forall>x \<in> used. memory p' x = memory ?q x)"
    using requisition_block_inv [OF pool_inv_allocations [THEN iffD2, OF assms], of mem canAlloc k] by blast
  have "(\<forall>x \<in> used. memory p' x = memory p x) \<and>
    (case r of None \<Rightarrow> pool_inv p' used fl \<and> memory p' = memory p \<and> (\<not> canAlloc \<or> \<not> (\<forall>n. mem n))
      | Some a \<Rightarrow> a \<notin> used \<and> (\<exists>fl'. pool_inv p' (insert a used) fl'))"
    using r by (cases r) auto
  with req show ?thesis
    by blast
qed

lemma start_block_spec:
  assumes h: "holds p pr H ad xs" and al: "(H + length xs) mod BLOCK_SIZE = 0" and hi: "hi = last_block (H + length xs)"
    and inv: "pool_inv p used fl" and own: "ad ` {H div BLOCK_SIZE..<hi} \<subseteq> used"
  shows "\<exists>ok p' pr'. start_block mem canAlloc p pr = Some (ok, p', pr') \<and> (\<forall>y \<in> used. memory p' y = memory p y) \<and>
    (if ok then \<exists>a fl'. a \<notin> used \<and> pool_inv p' (insert a used) fl' \<and> open_upto p' pr' H (Suc hi) (ad(hi := a)) xs
     else (\<exists>fl'. pool_inv p' used fl') \<and> holds p' pr' H ad xs \<and>
       (blockIndex pr = None \<or> \<not> canAlloc \<or> \<not> (\<forall>n. mem n) \<or> 2 ^ 63 \<le> length xs + BLOCK_SIZE))"
proof (cases "length xs + BLOCK_SIZE < 2 ^ 63")
  case False
  moreover have "length xs < 2 ^ 63"
    using h unfolding holds_def open_upto_def blocks_ok_def by linarith
  ultimately have "start_block mem canAlloc p pr = Some (False, p, pr)"
    using room_test [of "length xs" H] h
    unfolding start_block_def holds_def open_upto_def counters_ok_def by simp
  then show ?thesis
    using h inv False by auto
next
  case True
  have idx: "index_ok pr (H div BLOCK_SIZE) hi ad" and bound: "hi - H div BLOCK_SIZE \<le> 2 ^ 58"
    using h hi index_blocks_bound [of hi H] by (simp_all add: holds_def open_upto_def)
  have test: "circular_less_than (headIndex pr) (tailIndex pr + word_of_nat BLOCK_SIZE)"
    using room_test [of "length xs" H] h True unfolding holds_def open_upto_def counters_ok_def by simp
  obtain r p1 pr1 where ins: "insert_block_index_entry mem canAlloc (tailIndex pr) p pr = (r, p1, pr1)"
    by (metis prod_cases3)
  obtain k where entry: "case r of
      None \<Rightarrow> p1 = p\<lparr>allocations := k\<rparr> \<and> pr1 = pr \<and> (blockIndex pr = None \<or> \<not> canAlloc \<or> \<not> (\<forall>n. mem n))
    | Some i \<Rightarrow> p1 = p\<lparr>allocations := k\<rparr> \<and> (\<exists>c bi. index_inv c bi (H div BLOCK_SIZE) hi ad \<and> hi - H div BLOCK_SIZE < 2 ^ c \<and> i = next_tail bi \<and>
        pr1 = pr\<lparr>blockIndex := Some (advance_tail (tailIndex pr) bi), nextBlockIndexCapacity := 2 ^ Suc c\<rparr>)"
    using insert_entry [OF idx bound, where mem = mem and canAlloc = canAlloc and base = "tailIndex pr" and p = p]
    unfolding ins prod.case by blast
  show ?thesis
  proof (cases r)
    case None
    then show ?thesis
      using entry test ins h pool_inv_allocations [THEN iffD2, OF inv, of k] by (auto simp: start_block_def holds_allocations)
  next
    case (Some i)
    then obtain c bi where k: "p1 = p\<lparr>allocations := k\<rparr>"
        and i: "index_inv c bi (H div BLOCK_SIZE) hi ad" "hi - H div BLOCK_SIZE < 2 ^ c" "i = next_tail bi"
        and pr1: "pr1 = pr\<lparr>blockIndex := Some (advance_tail (tailIndex pr) bi), nextBlockIndexCapacity := 2 ^ Suc c\<rparr>"
      using entry by (simp only: option.case) blast
    from requisition_block_allocations [OF inv, of mem canAlloc k] obtain q p2
      where req: "requisition_block mem canAlloc p1 = Some (q, p2)" and same: "\<forall>x \<in> used. memory p2 x = memory p x"
        and q: "case q of None \<Rightarrow> pool_inv p2 used fl \<and> memory p2 = memory p \<and> (\<not> canAlloc \<or> \<not> (\<forall>n. mem n))
          | Some a \<Rightarrow> a \<notin> used \<and> (\<exists>fl'. pool_inv p2 (insert a used) fl')"
      unfolding k by blast
    show ?thesis
    proof (cases q)
      case None
      then have "holds p2 (store_value i None (rewind_block_index_tail pr1)) H ad xs"
        using undo_block [OF h, of c bi p2 "tailIndex pr"] i q hi pr1 by simp
      then show ?thesis
        using None \<open>r = Some i\<close> test ins req same q by (auto simp: start_block_def)
    next
      case (Some a)
      then obtain fl' b where a: "a \<notin> used" "pool_inv p2 (insert a used) fl'" "memory p2 a = Some b"
        using q pool_inv_used [where used = "insert a used"] by fastforce
      let ?p = "p2\<lparr>memory := (memory p2)(a \<mapsto> reset_empty b)\<rparr>"
      have "pool_inv ?p (insert a used) fl'"
        using a by (intro pool_inv_write) (auto simp: reset_empty_def)
      moreover have "open_upto ?p ((store_value i (Some a) pr1)\<lparr>tailBlock := Some a\<rparr>) H (Suc hi) (ad(hi := a)) xs"
        unfolding i(3) pr1
        by (rule open_block [OF h al hi True i(1,2)]) (use own a same in \<open>auto simp: reset_empty_def\<close>)
      ultimately show ?thesis
        using Some \<open>r = Some i\<close> test ins req same a by (auto simp: start_block_def modify_def)
    qed
  qed
qed

lemma enqueue_spec:
  assumes h: "holds p pr H ad xs" and inv: "pool_inv p used fl" and own: "own_blocks H ad (length xs) \<subseteq> used"
  shows "\<exists>ok p' pr'. implicit_enqueue mem canAlloc x p pr = Some (ok, p', pr') \<and>
    (\<forall>y \<in> used - own_blocks H ad (length xs). memory p' y = memory p y) \<and>
    (if ok then \<exists>ad' fl'. holds p' pr' H ad' (xs @ [x]) \<and> pool_inv p' (used \<union> own_blocks H ad' (Suc (length xs))) fl' \<and>
        own_blocks H ad' (Suc (length xs)) \<inter> used = own_blocks H ad (length xs)
     else (\<exists>fl'. pool_inv p' used fl') \<and> holds p' pr' H ad xs \<and>
       (blockIndex pr = None \<or> \<not> canAlloc \<or> \<not> (\<forall>n. mem n) \<or> 2 ^ 63 \<le> length xs + BLOCK_SIZE))"
proof -
  let ?T = "H + length xs" and ?lo = "H div BLOCK_SIZE" and ?hi = "last_block (H + length xs)"
  have slot: "slot (tailIndex pr) = ?T mod BLOCK_SIZE"
    using h slot_of_nat [of ?T] by (simp add: holds_def open_upto_def counters_ok_def)
  have own_suc: "own_blocks H ad' (Suc (length xs)) = ad' ` {?lo..<Suc (?T div BLOCK_SIZE)}" for ad'
    using tail_block_number(1) [of ?T] by (simp add: own_blocks_def)
  show ?thesis
  proof (cases "?T mod BLOCK_SIZE = 0")
    case False
    then have hi: "?hi = Suc (?T div BLOCK_SIZE)"
      by (rule tail_block_number)
    then have same: "own_blocks H ad (Suc (length xs)) = own_blocks H ad (length xs)"
      unfolding own_suc unfolding own_blocks_def by simp
    obtain a p' where p': "tailBlock pr = Some a" "modify a (construct (tailIndex pr) x) p = Some p'"
      "holds p' (pr\<lparr>tailIndex := 1 + tailIndex pr\<rparr>) H ad (xs @ [x])" "pool_inv p' used fl"
      "\<forall>y. y \<notin> own_blocks H ad (length xs) \<longrightarrow> memory p' y = memory p y"
      using put_element [of p pr H xs ad used fl x] h inv own unfolding holds_def own_blocks_def hi by blast
    have eq: "implicit_enqueue mem canAlloc x p pr = Some (True, p', pr\<lparr>tailIndex := 1 + tailIndex pr\<rparr>)"
      using False slot p' by (simp add: implicit_enqueue_def)
    have "used \<union> own_blocks H ad (Suc (length xs)) = used" "own_blocks H ad (Suc (length xs)) \<inter> used = own_blocks H ad (length xs)"
      using own same by auto
    then have "\<exists>ad' fl'. holds p' (pr\<lparr>tailIndex := 1 + tailIndex pr\<rparr>) H ad' (xs @ [x]) \<and>
        pool_inv p' (used \<union> own_blocks H ad' (Suc (length xs))) fl' \<and> own_blocks H ad' (Suc (length xs)) \<inter> used = own_blocks H ad (length xs)"
      using p' by (intro exI [of _ ad] exI [of _ fl]) simp
    then show ?thesis
      unfolding eq using p'(5) by (simp, blast)
  next
    case True
    then have hi: "?hi = ?T div BLOCK_SIZE"
      by (rule tail_block_number)
    obtain ok p1 pr1 where st: "start_block mem canAlloc p pr = Some (ok, p1, pr1)" and same: "\<forall>y \<in> used. memory p1 y = memory p y"
      and ok: "if ok then \<exists>a fl'. a \<notin> used \<and> pool_inv p1 (insert a used) fl' \<and> open_upto p1 pr1 H (Suc ?hi) (ad(?hi := a)) xs
        else (\<exists>fl'. pool_inv p1 used fl') \<and> holds p1 pr1 H ad xs \<and>
          (blockIndex pr = None \<or> \<not> canAlloc \<or> \<not> (\<forall>n. mem n) \<or> 2 ^ 63 \<le> length xs + BLOCK_SIZE)"
      using start_block_spec [OF h True refl inv own [unfolded own_blocks_def], of mem canAlloc] by blast
    show ?thesis
    proof (cases ok)
      case False
      then show ?thesis
        using True slot st same ok by (simp add: implicit_enqueue_def, blast)
    next
      case ok': True
      then obtain a fl' where a: "a \<notin> used" "pool_inv p1 (insert a used) fl'" "open_upto p1 pr1 H (Suc (?T div BLOCK_SIZE)) (ad(?hi := a)) xs"
        using ok hi by auto
      have new: "own_blocks H (ad(?hi := a)) (Suc (length xs)) = insert a (own_blocks H ad (length xs))"
        unfolding own_suc unfolding own_blocks_def hi by (auto simp: atLeastLessThanSuc div_le_mono)
      then obtain b p' where p': "tailBlock pr1 = Some b" "modify b (construct (tailIndex pr1) x) p1 = Some p'"
        "holds p' (pr1\<lparr>tailIndex := 1 + tailIndex pr1\<rparr>) H (ad(?hi := a)) (xs @ [x])" "pool_inv p' (insert a used) fl'"
        "\<forall>y. y \<notin> insert a (own_blocks H ad (length xs)) \<longrightarrow> memory p' y = memory p1 y"
        using put_element [OF a(3,2), where x = x] own unfolding own_suc by blast
      have "used \<union> insert a (own_blocks H ad (length xs)) = insert a used" "insert a (own_blocks H ad (length xs)) \<inter> used = own_blocks H ad (length xs)"
        using own a(1) by auto
      then have "\<exists>ad' fl'. holds p' (pr1\<lparr>tailIndex := 1 + tailIndex pr1\<rparr>) H ad' (xs @ [x]) \<and>
          pool_inv p' (used \<union> own_blocks H ad' (Suc (length xs))) fl' \<and> own_blocks H ad' (Suc (length xs)) \<inter> used = own_blocks H ad (length xs)"
        using p' new by (intro exI [of _ "ad(?hi := a)"] exI [of _ fl']) simp
      moreover have "\<forall>y \<in> used - own_blocks H ad (length xs). memory p' y = memory p y"
        using p'(5) same a(1) by auto
      moreover have eq: "implicit_enqueue mem canAlloc x p pr = Some (True, p', pr1\<lparr>tailIndex := 1 + tailIndex pr1\<rparr>)"
        using True slot st ok' p' by (simp add: implicit_enqueue_def)
      ultimately show ?thesis
        unfolding eq by (simp, blast)
    qed
  qed
qed

end
