(* ===== verification/Cq_Dequeue.thy ===== *)
theory Cq_Dequeue
  imports Cq_Fifo
begin

text \<open>
  Taking elements out of a sub-queue: dequeue removes the oldest element and gives a block back once all of its elements
  are taken.
\<close>

subsection \<open>The oldest element\<close>

lemma nonempty_test:
  assumes "n < 2 ^ 63"
  shows "circular_less_than (word_of_nat H) (word_of_nat (H + n) :: u64) \<longleftrightarrow> 0 < n"
proof -
  have "word_of_nat (H + n) - word_of_nat H = (word_of_nat n :: u64)"
    by simp
  moreover have "unat (word_of_nat n :: u64) = n"
    using assms unfolding unat_of_nat by simp
  ultimately show ?thesis
    using assms unfolding circular_less_than_diff by (simp only:) simp
qed

lemma holds_length: "holds p pr H ad xs \<Longrightarrow> length xs < 2 ^ 63"
  unfolding holds_def open_upto_def blocks_ok_def by linarith

text \<open>The last element of a block empties it.\<close>

lemma set_empty_last:
  assumes "elementsCompletelyDequeued b = word_of_nat (H - BLOCK_SIZE * (H div BLOCK_SIZE))"
  shows "fst (set_empty b) \<longleftrightarrow> Suc H mod BLOCK_SIZE = 0"
proof -
  have m: "H - BLOCK_SIZE * (H div BLOCK_SIZE) = H mod BLOCK_SIZE"
    by (simp add: minus_mult_div_eq_mod)
  have lt: "H mod BLOCK_SIZE < 32"
    by (simp add: BLOCK_SIZE_def)
  then have "word_of_nat (H mod BLOCK_SIZE) = (31 :: u64) \<longleftrightarrow> H mod BLOCK_SIZE = 31"
    by (simp add: word_eq_iff_unsigned [where ?'a = nat] unat_of_nat)
  also have "\<dots> \<longleftrightarrow> Suc H mod BLOCK_SIZE = 0"
    using lt by (simp add: BLOCK_SIZE_def mod_Suc)
  finally show ?thesis
    using assms unfolding set_empty_def m by (simp add: BLOCK_SIZE_def)
qed

text \<open>The blocks after the oldest element is taken out of its block.\<close>

lemma blocks_ok_take:
  assumes blocks: "blocks_ok p H hi ad (x # xs)" and b: "memory p (ad (H div BLOCK_SIZE)) = Some b"
    and p': "\<And>k. k \<in> {Suc H div BLOCK_SIZE..<hi} \<Longrightarrow>
      memory p' (ad k) = (if k = H div BLOCK_SIZE then Some (snd (set_empty (destruct (word_of_nat H) b))) else memory p (ad k))"
  shows "blocks_ok p' (Suc H) hi ad xs"
  unfolding blocks_ok_def
proof (intro conjI ballI allI impI)
  let ?lo = "H div BLOCK_SIZE"
  have lo: "?lo \<le> Suc H div BLOCK_SIZE" and H: "BLOCK_SIZE * ?lo \<le> H" "H < BLOCK_SIZE * Suc ?lo"
    by (auto simp: div_le_mono BLOCK_SIZE_def)
  show le: "Suc H + length xs \<le> BLOCK_SIZE * hi"
    using blocks by (simp add: blocks_ok_def)
  have "inj_on ad {?lo..<hi}"
    using blocks by (simp add: blocks_ok_def)
  then show "inj_on ad {Suc H div BLOCK_SIZE..<hi}"
    by (rule inj_on_subset) (use lo in auto)
  have lt: "?lo < hi"
    using le by (intro less_mult_imp_div_less) (simp add: mult.commute)
  show "\<exists>b. memory p' (ad k) = Some b \<and> elementsCompletelyDequeued b = word_of_nat (Suc H - BLOCK_SIZE * k)"
    if k: "k \<in> {Suc H div BLOCK_SIZE..<hi}" for k
  proof (cases "k = ?lo")
    case True
    then have "elementsCompletelyDequeued b = word_of_nat (H - BLOCK_SIZE * k)"
      using blocks b lt unfolding blocks_ok_def by (metis atLeastLessThan_iff le_refl option.inject)
    then show ?thesis
      using p' [OF k] True H(1) by (simp add: set_empty_def destruct_def Suc_diff_le)
  next
    case False
    then have "Suc ?lo \<le> k"
      using le_trans [OF lo, of k] k by simp
    then have "BLOCK_SIZE * Suc ?lo \<le> BLOCK_SIZE * k"
      by (rule mult_le_mono2)
    then have "H - BLOCK_SIZE * k = 0" "Suc H - BLOCK_SIZE * k = 0"
      using H(2) by linarith+
    then show ?thesis
      using p' [OF k] False blocks k le_trans [OF lo, of k] unfolding blocks_ok_def by (metis atLeastLessThan_iff)
  qed
  show "\<exists>b. memory p' (ad ((Suc H + j) div BLOCK_SIZE)) = Some b \<and> elements b ((Suc H + j) mod BLOCK_SIZE) = Some (xs ! j)"
    if j: "j < length xs" for j
  proof -
    let ?k = "(Suc H + j) div BLOCK_SIZE"
    have "?k < hi"
      using le j by (simp add: BLOCK_SIZE_def less_mult_imp_div_less mult.commute)
    then have k: "?k \<in> {Suc H div BLOCK_SIZE..<hi}"
      by (simp add: div_le_mono)
    obtain c where c: "memory p (ad ?k) = Some c" "elements c ((Suc H + j) mod BLOCK_SIZE) = Some (xs ! j)"
      using blocks j unfolding blocks_ok_def by (metis Suc_less_eq add_Suc_shift length_Cons nth_Cons_Suc)
    show ?thesis
    proof (cases "?k = ?lo")
      case True
      then have "(Suc H + j) mod BLOCK_SIZE \<noteq> H mod BLOCK_SIZE"
        using div_mult_mod_eq [of "Suc H + j" BLOCK_SIZE] div_mult_mod_eq [of H BLOCK_SIZE] by (metis add_Suc less_add_Suc1 less_irrefl)
      then show ?thesis
        using p' [OF k] True c b by (simp add: set_empty_def destruct_def slot_of_nat)
    next
      case False
      then show ?thesis
        using p' [OF k] c by simp
    qed
  qed
qed

lemma next_block_number:
  "Suc H mod BLOCK_SIZE = 0 \<Longrightarrow> Suc H div BLOCK_SIZE = Suc (H div BLOCK_SIZE)"
  "Suc H mod BLOCK_SIZE \<noteq> 0 \<Longrightarrow> Suc H div BLOCK_SIZE = H div BLOCK_SIZE"
  by (simp_all add: div_Suc)

lemma take_element_spec:
  assumes blocks: "blocks_ok p H hi ad (x # xs)" and idx: "index_ok pr (H div BLOCK_SIZE) hi ad" and bound: "BLOCK_SIZE * hi < H + 2 ^ 63"
    and inv: "pool_inv p used fl" and own: "ad ` {H div BLOCK_SIZE..<hi} \<subseteq> used"
  shows "\<exists>p' v fl'. take_element (word_of_nat H) p pr = Some (x, p', pr\<lparr>blockIndex := v\<rparr>) \<and>
    index_ok (pr\<lparr>blockIndex := v\<rparr>) (Suc H div BLOCK_SIZE) hi ad \<and> blocks_ok p' (Suc H) hi ad xs \<and>
    pool_inv p' (used - (ad ` {H div BLOCK_SIZE..<hi} - ad ` {Suc H div BLOCK_SIZE..<hi})) fl' \<and>
    (\<forall>y \<in> used - ad ` {H div BLOCK_SIZE..<hi}. memory p' y = memory p y)"
proof -
  let ?lo = "H div BLOCK_SIZE"
  have lt: "?lo < hi"
    using blocks by (intro less_mult_imp_div_less) (simp add: blocks_ok_def mult.commute)
  then obtain bi c where bi: "blockIndex pr = Some bi" "index_inv c bi ?lo hi ad" "nextBlockIndexCapacity pr = 2 ^ Suc c"
    using idx by (auto simp: index_ok_def split: option.splits)
  define i where "i = ring_pos bi (hi - 1 - ?lo)"
  have look: "get_block_index_index_for_index (word_of_nat H) bi = i" "snd (bi_index bi ! i) = Some (ad ?lo)"
    using index_lookup [OF bi(2) le_refl lt index_blocks_bound [OF bound]] by (simp_all add: ring_def i_def)
  obtain b where b: "memory p (ad ?lo) = Some b" "elementsCompletelyDequeued b = word_of_nat (H - BLOCK_SIZE * ?lo)"
    using blocks lt unfolding blocks_ok_def by (metis atLeastLessThan_iff le_refl)
  have x: "elements b (slot (word_of_nat H)) = Some x"
    using blocks b(1) unfolding slot_of_nat blocks_ok_def
    by (metis add.right_neutral length_greater_0_conv list.discI nth_Cons_0 option.inject)
  define b' where "b' = snd (set_empty (destruct (word_of_nat H) b))"
  let ?p = "p\<lparr>memory := (memory p)(ad ?lo \<mapsto> b')\<rparr>"
  have em: "set_empty (destruct (word_of_nat H) b) = (Suc H mod BLOCK_SIZE = 0, b')"
    using set_empty_last [of "destruct (word_of_nat H) b" H] b(2) by (simp add: destruct_def prod_eq_iff b'_def)
  have take: "take_element (word_of_nat H) p pr =
      (if Suc H mod BLOCK_SIZE = 0 then add_block_to_free_list (ad ?lo) ?p \<bind> (\<lambda>p. Some (x, p, store_value i None pr))
       else Some (x, ?p, pr))"
    using bi(1) look b(1) x em by (simp add: take_element_def modify_def Let_def)
  have mem: "ad ?lo \<in> used"
    using own lt by auto
  have inv': "pool_inv ?p used fl"
    using inv mem b(1) by (intro pool_inv_write) (auto simp: b'_def set_empty_def destruct_def)
  have inj: "inj_on ad {?lo..<hi}"
    using blocks by (simp add: blocks_ok_def)
  have other: "ad k \<noteq> ad ?lo" if "k \<in> {Suc ?lo..<hi}" for k
    using that inj lt by (auto dest: inj_onD)
  show ?thesis
  proof (cases "Suc H mod BLOCK_SIZE = 0")
    case True
    note n = next_block_number(1) [OF True]
    obtain p' fl' where p': "add_block_to_free_list (ad ?lo) ?p = Some p'" "pool_inv p' (used - {ad ?lo}) fl'"
      "\<forall>y \<in> used - {ad ?lo}. memory p' y = memory ?p y"
      using add_block_to_free_list_inv [OF inv' mem] by blast
    have "ad ?lo \<notin> ad ` {Suc ?lo..<hi}"
      using other by (metis imageE)
    moreover have "{?lo..<hi} = insert ?lo {Suc ?lo..<hi}"
      using lt by auto
    then have "ad ` {?lo..<hi} = insert (ad ?lo) (ad ` {Suc ?lo..<hi})"
      by simp
    ultimately have "ad ` {?lo..<hi} - ad ` {Suc ?lo..<hi} = {ad ?lo}"
      by auto
    moreover have "ad k \<in> used - {ad ?lo}" if "k \<in> {Suc ?lo..<hi}" for k
      using that own other [OF that] image_subset_iff [of ad "{?lo..<hi}" used] by simp
    then have "blocks_ok p' (Suc H) hi ad xs"
      by (intro blocks_ok_take [OF blocks b(1)]) (use p'(3) n in auto)
    moreover have "index_ok (pr\<lparr>blockIndex := Some (set_value i None bi)\<rparr>) (Suc ?lo) hi ad"
      using index_pop [OF bi(2) lt] bi(3) by (auto simp: index_ok_def i_def)
    moreover have "take_element (word_of_nat H) p pr = Some (x, p', pr\<lparr>blockIndex := Some (set_value i None bi)\<rparr>)"
      using take True p' bi(1) by (simp add: store_value_def)
    moreover have "\<forall>y \<in> used - ad ` {?lo..<hi}. memory p' y = memory p y"
      using p'(3) lt by auto
    ultimately show ?thesis
      unfolding n using p'(2) by metis
  next
    case False
    note n = next_block_number(2) [OF False]
    have "blocks_ok ?p (Suc H) hi ad xs"
      by (rule blocks_ok_take [OF blocks b(1)]) (use other n in \<open>auto simp: b'_def\<close>)
    moreover have "pr = pr\<lparr>blockIndex := blockIndex pr\<rparr>"
      by simp
    moreover have "\<forall>y \<in> used - ad ` {?lo..<hi}. memory ?p y = memory p y"
      using lt by auto
    ultimately show ?thesis
      unfolding n using take False inv' idx by (metis Diff_cancel Diff_empty)
  qed
qed

subsection \<open>Dequeue\<close>

lemma own_blocks_shrink: "own_blocks (Suc H) ad n \<subseteq> own_blocks H ad (Suc n)"
  unfolding own_blocks_def by (intro image_mono ivl_subset [THEN iffD2]) (simp add: div_le_mono)

lemma dequeue_empty:
  assumes "holds p pr H ad []"
  shows "implicit_dequeue p pr = Some (None, p, pr)"
  using assms nonempty_test [of 0 H] by (simp add: implicit_dequeue_def holds_def open_upto_def counters_ok_def)

lemma dequeue_spec:
  assumes h: "holds p pr H ad (x # xs)" and inv: "pool_inv p used fl" and own: "own_blocks H ad (length (x # xs)) \<subseteq> used"
  shows "\<exists>p' pr' fl'. implicit_dequeue p pr = Some (Some x, p', pr') \<and> holds p' pr' (Suc H) ad xs \<and>
    pool_inv p' (used - (own_blocks H ad (length (x # xs)) - own_blocks (Suc H) ad (length xs))) fl' \<and>
    (\<forall>y \<in> used - own_blocks H ad (length (x # xs)). memory p' y = memory p y)"
proof -
  let ?hi = "last_block (H + length (x # xs))"
  have c: "tailIndex pr = word_of_nat (H + length (x # xs))" "headIndex pr = word_of_nat H"
    "dequeueOptimisticCount pr - dequeueOvercommit pr = word_of_nat H"
    and up: "blocks_ok p H ?hi ad (x # xs)" "index_ok pr (H div BLOCK_SIZE) ?hi ad" "BLOCK_SIZE * ?hi < H + 2 ^ 63"
      "H div BLOCK_SIZE < ?hi \<longrightarrow> tailBlock pr = Some (ad (?hi - 1))"
    using h unfolding holds_def open_upto_def counters_ok_def by blast+
  let ?pr = "pr\<lparr>dequeueOptimisticCount := dequeueOptimisticCount pr + 1, headIndex := headIndex pr + 1\<rparr>"
  have idx: "index_ok ?pr (H div BLOCK_SIZE) ?hi ad"
    using up(2) by (simp add: index_ok_def split: option.splits)
  obtain p' v fl' where t: "take_element (word_of_nat H) p ?pr = Some (x, p', ?pr\<lparr>blockIndex := v\<rparr>)"
    "index_ok (?pr\<lparr>blockIndex := v\<rparr>) (Suc H div BLOCK_SIZE) ?hi ad" "blocks_ok p' (Suc H) ?hi ad xs"
    "pool_inv p' (used - (ad ` {H div BLOCK_SIZE..<?hi} - ad ` {Suc H div BLOCK_SIZE..<?hi})) fl'"
    "\<forall>y \<in> used - ad ` {H div BLOCK_SIZE..<?hi}. memory p' y = memory p y"
    using take_element_spec [OF up(1) idx up(3) inv own [unfolded own_blocks_def]] by blast
  have "circular_less_than (word_of_nat H) (word_of_nat (H + length (x # xs)) :: u64)"
    using nonempty_test [OF holds_length [OF h], of H] by simp
  then have "implicit_dequeue p pr = Some (Some x, p', ?pr\<lparr>blockIndex := v\<rparr>)"
    using t(1) c unfolding implicit_dequeue_def by (simp add: Let_def)
  moreover have "counters_ok (?pr\<lparr>blockIndex := v\<rparr>) (Suc H) (length xs)"
    using c unfolding counters_ok_def by (simp add: algebra_simps)
  moreover have "H div BLOCK_SIZE < ?hi"
    using up(1) by (intro less_mult_imp_div_less) (simp add: blocks_ok_def mult.commute)
  then have "tailBlock (?pr\<lparr>blockIndex := v\<rparr>) = Some (ad (?hi - 1))"
    using up(4) by simp
  ultimately show ?thesis
    using t up(3) unfolding holds_def open_upto_def own_blocks_def by auto
qed

text \<open>A producer that got its first block index keeps having one.\<close>

lemma enqueue_index:
  "implicit_enqueue mem canAlloc x p pr = Some (ok, p', pr') \<Longrightarrow> blockIndex pr' = None \<longleftrightarrow> blockIndex pr = None"
  by (auto simp: implicit_enqueue_def start_block_def insert_block_index_entry_def new_block_index_def store_value_def
      rewind_block_index_tail_def Let_def split: bind_splits if_splits option.splits prod.splits)

lemma dequeue_index: "implicit_dequeue p pr = Some (r, p', pr') \<Longrightarrow> blockIndex pr' = None \<longleftrightarrow> blockIndex pr = None"
  by (auto simp: implicit_dequeue_def take_element_def store_value_def Let_def split: bind_splits if_splits prod.splits)

subsection \<open>A new sub-queue\<close>

lemma implicit_producer_spec:
  "\<exists>pr. implicit_producer mem p = (p\<lparr>allocations := Suc (allocations p)\<rparr>, pr) \<and> holds p pr 0 ad [] \<and>
     (blockIndex pr = None \<longleftrightarrow> \<not> mem (allocations p)) \<and> \<not> inactive pr"
proof -
  have "index_inv 5 (next_header 32 None) 0 0 ad"
    using ring_first_header by (simp add: index_inv_def free_entry_def)
  then show ?thesis
    by (auto simp: implicit_producer_def new_block_index_def allocate_def Let_def holds_def open_upto_def counters_ok_def blocks_ok_def
        index_ok_def IMPLICIT_INITIAL_INDEX_SIZE_def last_block_def BLOCK_SIZE_def push_bit_eq_mult intro!: exI [of _ 5])
qed

lemma producer_size_exact:
  assumes "holds p pr H ad xs"
  shows "producer_size_approx pr = word_of_nat (length xs)"
  using assms nonempty_test [OF holds_length [OF assms], of H]
  by (simp add: producer_size_approx_def holds_def open_upto_def counters_ok_def)

end
