(* ===== verification/Cq_Queue.thy ===== *)
theory Cq_Queue
  imports Cq_Table Cq_Dequeue
begin

text \<open>
  The queue as a whole (\<open>ConcurrentQueue\<close> in \<open>lib/concurrentqueue/concurrentqueue.h\<close>): every thread that enqueues
  has a producer of its own, found through a chain of hash tables, and dequeuing looks at the producers. Operations run one at
  a time; a producer is its number in the order of creation, so that the list that starts at \<open>producerListTail\<close> runs from
  the last number to the first.
\<close>

subsection \<open>Threads and their producers\<close>

record 'a queue =
  q_pool :: "'a pool"
  producers :: "producer list"
  hashes :: "hash_table list"
  hashCount :: u64

definition producer_list :: "'a queue \<Rightarrow> nat list" where
  "producer_list q = rev [0..<length (producers q)]"

definition new_queue :: "(nat \<Rightarrow> bool) \<Rightarrow> nat \<Rightarrow> 'a queue" where
  "new_queue mem cap =
     \<lparr>q_pool = populate_initial_block_list mem (cap div BLOCK_SIZE + (if cap mod BLOCK_SIZE = 0 then 0 else 1)),
      producers = [], hashes = [empty_table INITIAL_IMPLICIT_PRODUCER_HASH_SIZE], hashCount = 0\<rparr>"

definition recycle_or_create_producer :: "(nat \<Rightarrow> bool) \<Rightarrow> 'a queue \<Rightarrow> nat option \<times> 'a queue" where
  "recycle_or_create_producer mem q =
     (case find (\<lambda>i. inactive (producers q ! i)) (producer_list q) of
        Some i \<Rightarrow> (Some i, q\<lparr>producers := (producers q)[i := (producers q ! i)\<lparr>inactive := False\<rparr>]\<rparr>)
      | None \<Rightarrow>
          (let (ok, p) = allocate mem (q_pool q)
           in if \<not> ok then (None, q\<lparr>q_pool := p\<rparr>)
              else let (p, pr) = implicit_producer mem p
                   in (Some (length (producers q)), q\<lparr>q_pool := p, producers := producers q @ [pr]\<rparr>)))"

text \<open>The thread in the current and all previous tables, with the number of tables before the one that has it.\<close>

primrec search_tables :: "u64 \<Rightarrow> hash_table list \<Rightarrow> (nat \<times> nat) option option" where
  "search_tables tid [] = Some None"
| "search_tables tid (t # ts) =
     (case lookup_slot t tid of
        None \<Rightarrow> None
      | Some i \<Rightarrow>
          if fst (entries t ! i) = tid then Some (Some (0, snd (entries t ! i)))
          else map_option (map_option (\<lambda>(d, v). (Suc d, v))) (search_tables tid ts))"

fun double_capacity :: "nat \<Rightarrow> u64 \<Rightarrow> u64 \<Rightarrow> u64 option" where
  "double_capacity 0 newCount newCapacity = None"
| "double_capacity (Suc n) newCount newCapacity =
     (if newCount \<ge> drop_bit 1 newCapacity then double_capacity n newCount (push_bit 1 newCapacity) else Some newCapacity)"

definition resize_hash :: "(nat \<Rightarrow> bool) \<Rightarrow> u64 \<Rightarrow> 'a queue \<Rightarrow> (bool \<times> 'a queue) option" where
  "resize_hash mem newCount q =
     do {
       newCapacity \<leftarrow> double_capacity 64 newCount (push_bit 1 (capacity (hd (hashes q))));
       let (ok, p) = allocate mem (q_pool q);
       Some (ok, if ok then q\<lparr>q_pool := p, hashes := empty_table newCapacity # hashes q\<rparr> else q\<lparr>q_pool := p\<rparr>)
     }"

definition register_producer :: "(nat \<Rightarrow> bool) \<Rightarrow> u64 \<Rightarrow> 'a queue \<Rightarrow> (nat option \<times> 'a queue) option" where
  "register_producer mem tid q =
     (case recycle_or_create_producer mem q of
        (None, q) \<Rightarrow> Some (None, q\<lparr>hashCount := hashCount q - 1\<rparr>)
      | (Some v, q) \<Rightarrow> do {
          let mainHash = hd (hashes q);
          i \<leftarrow> free_slot mainHash tid;
          Some (Some v, q\<lparr>hashes := put_entry i tid v mainHash # tl (hashes q),
            hashCount := if fst (entries mainHash ! i) = invalid_thread_id2 then hashCount q - 1 else hashCount q\<rparr>)
        })"

text \<open>A thread that finds the table three quarters full waits for the thread that is enlarging it; alone it never does.\<close>

definition add_implicit_producer :: "(nat \<Rightarrow> bool) \<Rightarrow> u64 \<Rightarrow> 'a queue \<Rightarrow> (nat option \<times> 'a queue) option" where
  "add_implicit_producer mem tid q =
     (let newCount = 1 + hashCount q; q = q\<lparr>hashCount := newCount\<rparr>
      in do {
        (ok, q) \<leftarrow> (if newCount \<ge> drop_bit 1 (capacity (hd (hashes q))) then resize_hash mem newCount q else Some (True, q));
        if \<not> ok then Some (None, q\<lparr>hashCount := hashCount q - 1\<rparr>)
        else if newCount < drop_bit 1 (capacity (hd (hashes q))) + drop_bit 2 (capacity (hd (hashes q)))
        then register_producer mem tid q
        else None
      })"

definition get_or_add_implicit_producer :: "(nat \<Rightarrow> bool) \<Rightarrow> u64 \<Rightarrow> 'a queue \<Rightarrow> (nat option \<times> 'a queue) option" where
  "get_or_add_implicit_producer mem tid q =
     do {
       found \<leftarrow> search_tables tid (hashes q);
       (case found of
          Some (d, v) \<Rightarrow>
            if d = 0 then Some (Some v, q)
            else do {
              i \<leftarrow> free_slot (hd (hashes q)) tid;
              Some (Some v, q\<lparr>hashes := put_entry i tid v (hd (hashes q)) # tl (hashes q)\<rparr>)
            }
        | None \<Rightarrow> add_implicit_producer mem tid q)
     }"

definition implicit_producer_thread_exited :: "u64 \<Rightarrow> nat \<Rightarrow> 'a queue \<Rightarrow> 'a queue option" where
  "implicit_producer_thread_exited tid v q =
     do {
       ts \<leftarrow> those (map (remove_key tid) (hashes q));
       Some (q\<lparr>hashes := ts, producers := (producers q)[v := (producers q ! v)\<lparr>inactive := True\<rparr>]\<rparr>)
     }"

subsection \<open>The operations\<close>

text \<open>\<open>canAlloc\<close> tells \<open>enqueue\<close> from \<open>try_enqueue\<close>.\<close>

definition inner_enqueue :: "(nat \<Rightarrow> bool) \<Rightarrow> bool \<Rightarrow> u64 \<Rightarrow> 'a \<Rightarrow> 'a queue \<Rightarrow> (bool \<times> 'a queue) option" where
  "inner_enqueue mem canAlloc tid x q =
     do {
       (r, q) \<leftarrow> get_or_add_implicit_producer mem tid q;
       (case r of
          None \<Rightarrow> Some (False, q)
        | Some v \<Rightarrow> do {
            (ok, p, pr) \<leftarrow> implicit_enqueue mem canAlloc x (q_pool q) (producers q ! v);
            Some (ok, q\<lparr>q_pool := p, producers := (producers q)[v := pr]\<rparr>)
          })
     }"

definition cq_enqueue :: "(nat \<Rightarrow> bool) \<Rightarrow> u64 \<Rightarrow> 'a \<Rightarrow> 'a queue \<Rightarrow> (bool \<times> 'a queue) option" where
  "cq_enqueue mem tid x q = inner_enqueue mem True tid x q"

definition cq_try_enqueue :: "(nat \<Rightarrow> bool) \<Rightarrow> u64 \<Rightarrow> 'a \<Rightarrow> 'a queue \<Rightarrow> (bool \<times> 'a queue) option" where
  "cq_try_enqueue mem tid x q = inner_enqueue mem False tid x q"

text \<open>The largest of the first three producers that have elements, and how many of them were seen.\<close>

fun best_producer :: "producer list \<Rightarrow> nat list \<Rightarrow> nat \<Rightarrow> nat option \<Rightarrow> u64 \<Rightarrow> nat \<times> nat option" where
  "best_producer prs [] nonEmptyCount best bestSize = (nonEmptyCount, best)"
| "best_producer prs (i # is) nonEmptyCount best bestSize =
     (if nonEmptyCount < 3
      then let size = producer_size_approx (prs ! i)
           in if size > 0
              then if size > bestSize then best_producer prs is (nonEmptyCount + 1) (Some i) size
                   else best_producer prs is (nonEmptyCount + 1) best bestSize
              else best_producer prs is nonEmptyCount best bestSize
      else (nonEmptyCount, best))"

definition dequeue_from :: "nat \<Rightarrow> 'a queue \<Rightarrow> ('a option \<times> 'a queue) option" where
  "dequeue_from i q =
     do {
       (r, p, pr) \<leftarrow> implicit_dequeue (q_pool q) (producers q ! i);
       Some (r, q\<lparr>q_pool := p, producers := (producers q)[i := pr]\<rparr>)
     }"

fun dequeue_others :: "nat \<Rightarrow> nat list \<Rightarrow> 'a queue \<Rightarrow> ('a option \<times> 'a queue) option" where
  "dequeue_others best [] q = Some (None, q)"
| "dequeue_others best (i # is) q =
     (if i \<noteq> best
      then do {
        (r, q) \<leftarrow> dequeue_from i q;
        (case r of Some x \<Rightarrow> Some (Some x, q) | None \<Rightarrow> dequeue_others best is q)
      }
      else dequeue_others best is q)"

definition cq_try_dequeue :: "'a queue \<Rightarrow> ('a option \<times> 'a queue) option" where
  "cq_try_dequeue q =
     (let (nonEmptyCount, best) = best_producer (producers q) (producer_list q) 0 None 0
      in if nonEmptyCount > 0
         then do {
           b \<leftarrow> best;
           (r, q) \<leftarrow> dequeue_from b q;
           (case r of Some x \<Rightarrow> Some (Some x, q) | None \<Rightarrow> dequeue_others b (producer_list q) q)
         }
         else Some (None, q))"

definition cq_size_approx :: "'a queue \<Rightarrow> u64" where
  "cq_size_approx q = sum_list (map (\<lambda>i. producer_size_approx (producers q ! i)) (producer_list q))"

end
