(* ===== verification/Cq_Threads.thy ===== *)
theory Cq_Threads
  imports Cq_Queue
begin

text \<open>
  Every thread finds its own producer: the search through the tables ends, a thread that comes back gets the producer it had,
  and no two live threads share one, also after tables have been enlarged and producers of exited threads reused.
\<close>

subsection \<open>The invariant\<close>

text \<open>
  \<open>owner\<close> maps the live threads to their producers. Every used slot of the current table and every live thread that is still
  only in an older table has been counted, so that there is room for all of them.
\<close>

definition tables_ok :: "(u64 \<rightharpoonup> nat) \<Rightarrow> hash_table list \<Rightarrow> u64 \<Rightarrow> bool" where
  "tables_ok owner ts n \<longleftrightarrow>
     finite (dom owner) \<and> (\<forall>k \<in> dom owner. valid_id k) \<and>
     ts \<noteq> [] \<and> (\<forall>t \<in> set ts. table_ok owner t) \<and> dom owner \<subseteq> \<Union>(keys ` set ts) \<and>
     32 \<le> length (entries (hd ts)) \<and>
     used_slots (hd ts) + card (dom owner - keys (hd ts)) \<le> unat n \<and> 4 * unat n < 3 * length (entries (hd ts))"

definition owners_ok :: "(u64 \<rightharpoonup> nat) \<Rightarrow> producer list \<Rightarrow> bool" where
  "owners_ok owner prs \<longleftrightarrow>
     inj_on owner (dom owner) \<and> (\<forall>v \<in> ran owner. v < length prs) \<and> (\<forall>i < length prs. inactive (prs ! i) \<longleftrightarrow> i \<notin> ran owner)"

definition threads_ok :: "(u64 \<rightharpoonup> nat) \<Rightarrow> 'a queue \<Rightarrow> bool" where
  "threads_ok owner q \<longleftrightarrow> tables_ok owner (hashes q) (hashCount q) \<and> owners_ok owner (producers q)"

lemma keys_owned: "table_ok owner t \<Longrightarrow> keys t \<subseteq> dom owner"
  by (auto simp: table_ok_def keys_def)

lemma card_keys: "card (keys t) \<le> used_slots t" "finite (keys t)"
proof -
  let ?V = "{i. i < length (entries t) \<and> valid_id (key t i)}"
  have k: "keys t = key t ` ?V"
    unfolding keys_def by (rule setcompr_eq_image)
  then have "card (keys t) \<le> card ?V"
    by (simp add: card_image_le)
  also have "\<dots> \<le> used_slots t"
    unfolding used_slots_def by (intro card_mono) (auto simp: valid_id_def)
  finally show "card (keys t) \<le> used_slots t" .
  show "finite (keys t)"
    unfolding k by simp
qed

subsection \<open>Searching\<close>

lemma search_tables_spec:
  assumes "\<forall>t \<in> set ts. table_ok owner t" and "valid_id tid"
  shows "\<exists>r. search_tables tid ts = Some r \<and>
    (case r of None \<Rightarrow> tid \<notin> \<Union>(keys ` set ts)
     | Some (d, v) \<Rightarrow> owner tid = Some v \<and> (d = 0 \<longleftrightarrow> ts \<noteq> [] \<and> tid \<in> keys (hd ts)) \<and> tid \<in> \<Union>(keys ` set ts))"
  using assms(1)
proof (induction ts)
  case (Cons t ts)
  then obtain r where r: "search_tables tid ts = Some r" "case r of None \<Rightarrow> tid \<notin> \<Union>(keys ` set ts)
     | Some (d, v) \<Rightarrow> owner tid = Some v \<and> (d = 0 \<longleftrightarrow> ts \<noteq> [] \<and> tid \<in> keys (hd ts)) \<and> tid \<in> \<Union>(keys ` set ts)"
    by auto
  obtain i where i: "lookup_slot t tid = Some i"
    "if tid \<in> keys t then key t i = tid \<and> owner tid = Some (snd (entries t ! i)) else key t i = invalid_thread_id"
    using lookup_spec [of owner t tid] Cons.prems assms(2) by auto
  show ?case
  proof (cases "tid \<in> keys t")
    case True
    then show ?thesis
      using i by (simp add: key_def)
  next
    case False
    then have "fst (entries t ! i) \<noteq> tid"
      using i(2) assms(2) False by (auto simp: key_def valid_id_def)
    then show ?thesis
      using False i r by (auto split: option.splits)
  qed
qed simp

subsection \<open>The tables\<close>

lemma table_words:
  assumes "table_size t"
  shows "unat (capacity t) = length (entries t)" "length (entries t) < 2 ^ 63"
    "unat (drop_bit 1 (capacity t)) = length (entries t) div 2"
    "unat (drop_bit 1 (capacity t) + drop_bit 2 (capacity t)) = length (entries t) div 2 + length (entries t) div 4"
proof -
  obtain c where c: "c < 63" "capacity t = 2 ^ c" "length (entries t) = 2 ^ c"
    using assms by (auto simp: table_size_def)
  then show u: "unat (capacity t) = length (entries t)"
    by (simp add: unat_exp_below)
  show lt: "length (entries t) < 2 ^ 63"
    unfolding c(3) using c(1) by (intro power_strict_increasing) simp_all
  have d: "unat (drop_bit n (capacity t)) = length (entries t) div 2 ^ n" for n
    using u unat_drop_bit_eq [of n "capacity t"] drop_bit_eq_div [of n "unat (capacity t)"] by simp
  then show "unat (drop_bit 1 (capacity t)) = length (entries t) div 2"
    by (metis power_one_right)
  then show "unat (drop_bit 1 (capacity t) + drop_bit 2 (capacity t)) = length (entries t) div 2 + length (entries t) div 4"
    using d [of 2] lt by (simp add: unat_word_ariths)
qed

lemma tables_okD:
  assumes "tables_ok owner ts n"
  shows "table_ok owner (hd ts)" "table_size (hd ts)" "hd ts # tl ts = ts"
  using assms by (auto simp: tables_ok_def table_ok_def)

text \<open>A thread that is in an older table only is added to the current one.\<close>

lemma adopt_thread:
  assumes ok: "tables_ok owner ts n" and tid: "owner tid = Some v" "tid \<notin> keys (hd ts)"
  shows "\<exists>i. free_slot (hd ts) tid = Some i \<and> tables_ok owner (put_entry i tid v (hd ts) # tl ts) n"
proof -
  let ?t = "hd ts"
  have fin: "finite (dom owner)" and valid: "valid_id tid"
    using ok tid by (auto simp: tables_ok_def)
  have "tid \<in> dom owner - keys ?t"
    using tid by auto
  then have c: "Suc (card (dom owner - insert tid (keys ?t))) = card (dom owner - keys ?t)"
    using fin by (metis Diff_insert card_Suc_Diff1 finite_Diff)
  have n: "used_slots ?t + card (dom owner - keys ?t) \<le> unat n" "4 * unat n < 3 * length (entries ?t)"
    using ok by (auto simp: tables_ok_def)
  then have "Suc (used_slots ?t) < length (entries ?t)"
    using c by linarith
  from insert_spec [OF tables_okD(1) [OF ok] valid tid(2,1) this] obtain i where i: "free_slot ?t tid = Some i"
      "table_ok owner (put_entry i tid v ?t)" "keys (put_entry i tid v ?t) = insert tid (keys ?t)"
      "used_slots (put_entry i tid v ?t) \<le> Suc (used_slots ?t)"
    by (auto split: if_splits)
  have "tables_ok owner (put_entry i tid v ?t # tl ts) n"
    using ok i c n tables_okD(3) [OF ok] by (cases ts) (auto simp: tables_ok_def)
  then show ?thesis
    using i(1) by blast
qed

lemma unat_Suc_count: "unat n < 2 ^ 60 \<Longrightarrow> unat (1 + n :: u64) = Suc (unat n)"
  by (simp add: unat_word_ariths)

text \<open>A larger table has room for every live thread.\<close>

lemma enlarged:
  assumes ok: "tables_ok owner ts n" and n: "unat n < 2 ^ 60" and full: "drop_bit 1 (capacity (hd ts)) \<le> 1 + n"
  shows "\<exists>c < 63. double_capacity 64 (1 + n) (push_bit 1 (capacity (hd ts))) = Some (2 ^ c) \<and>
    tables_ok owner (empty_table (2 ^ c) # ts) n \<and> Suc (unat n) < 2 ^ c div 2"
proof -
  let ?t = "hd ts"
  obtain c where c: "c < 63" "capacity ?t = 2 ^ c" "length (entries ?t) = 2 ^ c"
    using tables_okD(2) [OF ok] by (auto simp: table_size_def)
  have bounds: "32 \<le> (2 :: nat) ^ c" "4 * unat n < 3 * 2 ^ c" "used_slots ?t + card (dom owner - keys ?t) \<le> unat n"
    using ok c(3) by (auto simp: tables_ok_def)
  have "2 ^ c div 2 \<le> Suc (unat n)"
    using full table_words(3) [OF tables_okD(2) [OF ok]] c(3) unat_Suc_count [OF n] by (simp add: word_le_nat_alt)
  then have "(2 :: nat) ^ c < 2 ^ 62"
    using n by simp
  then have c62: "c < 62"
    by (rule power_less_imp_less_exp [rotated]) simp
  then have up: "unat (2 ^ Suc c :: u64) = 2 ^ Suc c" "push_bit 1 (capacity ?t) = 2 ^ Suc c"
    using c(2) by (simp_all add: unat_exp_below push_bit_eq_mult del: power_Suc) simp
  have "unat (drop_bit 1 (2 ^ Suc c :: u64)) = 2 ^ c"
    using unat_drop_bit_eq [of 1 "2 ^ Suc c :: u64"] unfolding up by (simp add: drop_bit_eq_div)
  then have "\<not> drop_bit 1 (2 ^ Suc c) \<le> 1 + n"
    using bounds unat_Suc_count [OF n] by (simp add: word_le_nat_alt)
  then have "double_capacity (Suc k) (1 + n) (push_bit 1 (capacity ?t)) = Some (2 ^ Suc c)" for k
    unfolding up by simp
  from this [of 63] have double: "double_capacity 64 (1 + n) (push_bit 1 (capacity ?t)) = Some (2 ^ Suc c)"
    by simp
  have e: "table_ok owner (empty_table (2 ^ Suc c))" "keys (empty_table (2 ^ Suc c)) = {}" "used_slots (empty_table (2 ^ Suc c)) = 0"
      "length (entries (empty_table (2 ^ Suc c))) = 2 ^ Suc c"
    using empty_table_ok [of "Suc c"] c62 up(1) by (simp_all add: empty_table_def del: power_Suc)
  have "dom owner \<subseteq> keys ?t \<union> (dom owner - keys ?t)"
    by blast
  then have "card (dom owner) \<le> card (keys ?t \<union> (dom owner - keys ?t))"
    using ok card_keys(2) by (intro card_mono) (auto simp: tables_ok_def)
  then have "card (dom owner) \<le> unat n"
    using card_Un_le [of "keys ?t" "dom owner - keys ?t"] card_keys(1) [of ?t] bounds(3) by linarith
  then have "tables_ok owner (empty_table (2 ^ Suc c) # ts) n"
    using ok e bounds unfolding tables_ok_def by auto
  then show ?thesis
    using double c62 bounds by (intro exI [of _ "Suc c"]) simp
qed

text \<open>A new thread gets a slot of its own.\<close>

lemma new_thread:
  assumes ok: "tables_ok owner ts n" and n: "unat n < 2 ^ 60" and tid: "valid_id tid" "owner tid = None"
    and room: "4 * Suc (unat n) < 3 * length (entries (hd ts))"
  shows "\<exists>i. free_slot (hd ts) tid = Some i \<and>
    tables_ok (owner(tid \<mapsto> v)) (put_entry i tid v (hd ts) # tl ts) (if fst (entries (hd ts) ! i) = invalid_thread_id2 then n else 1 + n)"
proof -
  let ?t = "hd ts" and ?owner = "owner(tid \<mapsto> v)"
  have tab: "table_ok owner t" if "t \<in> set ts" for t
    using that ok by (simp add: tables_ok_def)
  have new: "tid \<notin> keys t" if "t \<in> set ts" for t
    using keys_owned [OF tab [OF that]] tid(2) by blast
  have ok': "table_ok ?owner t" if "t \<in> set ts" for t
    using tab [OF that] by (rule table_ok_owner) (use new [OF that] in auto)
  have hd: "?t \<in> set ts" and c: "used_slots ?t + card (dom owner - keys ?t) \<le> unat n"
    using ok by (auto simp: tables_ok_def)
  have "Suc (used_slots ?t) < length (entries ?t)"
    using add_leD1 [OF c] room by simp
  then obtain i where i: "free_slot ?t tid = Some i" "table_ok ?owner (put_entry i tid v ?t)"
      "keys (put_entry i tid v ?t) = insert tid (keys ?t)"
      "used_slots (put_entry i tid v ?t) = (if key ?t i = invalid_thread_id2 then used_slots ?t else Suc (used_slots ?t))"
    using insert_spec [OF ok' [OF hd] tid(1) new [OF hd], of v] by auto
  have "dom ?owner - insert tid (keys ?t) = dom owner - keys ?t"
    using tid(2) by auto
  then have "tables_ok ?owner (put_entry i tid v ?t # tl ts) (if fst (entries ?t ! i) = invalid_thread_id2 then n else 1 + n)"
    using ok ok' i c room tid unat_Suc_count [OF n] by (cases ts) (auto simp: tables_ok_def key_def)
  then show ?thesis
    using i(1) by blast
qed

subsection \<open>Producers\<close>

text \<open>What getting a producer may change: allocations are made, producers are reactivated, and new ones start empty.\<close>

definition extends :: "(nat \<Rightarrow> bool) \<Rightarrow> 'a queue \<Rightarrow> 'a queue \<Rightarrow> bool" where
  "extends mem q q' \<longleftrightarrow>
     (\<exists>k. q_pool q' = (q_pool q)\<lparr>allocations := k\<rparr>) \<and> length (producers q) \<le> length (producers q') \<and>
     (\<forall>i < length (producers q). \<exists>b. producers q' ! i = (producers q ! i)\<lparr>inactive := b\<rparr>) \<and>
     (\<forall>i. length (producers q) \<le> i \<and> i < length (producers q') \<longrightarrow>
        (\<forall>ad. holds (q_pool q) (producers q' ! i) 0 ad []) \<and> (blockIndex (producers q' ! i) = None \<longrightarrow> \<not> (\<forall>n. mem n)))"

lemma extends_same:
  assumes "q_pool q' = (q_pool q)\<lparr>allocations := k\<rparr>" and "producers q' = producers q"
  shows "extends mem q q'"
proof -
  have "\<exists>b. pr = pr\<lparr>inactive := b\<rparr>" for pr :: producer
    by (rule exI [of _ "inactive pr"]) simp
  then show ?thesis
    using assms by (auto simp: extends_def)
qed

lemma inactive_ok:
  assumes own: "owners_ok owner prs" and v: "v < length prs" "v \<notin> ran owner" and tid: "owner tid = None"
  shows "owners_ok (owner(tid \<mapsto> v)) (prs[v := (prs ! v)\<lparr>inactive := False\<rparr>])"
proof -
  have "ran (owner(tid \<mapsto> v)) = insert v (ran owner)"
    using tid by (rule ran_map_upd)
  moreover have "inj_on (owner(tid \<mapsto> v)) (dom (owner(tid \<mapsto> v)))"
    using own v tid by (auto simp: owners_ok_def inj_on_def ran_def)
  ultimately show ?thesis
    using own v by (auto simp: owners_ok_def nth_list_update)
qed

lemma new_owner_ok:
  assumes own: "owners_ok owner prs" and pr: "\<not> inactive pr" and tid: "owner tid = None"
  shows "owners_ok (owner(tid \<mapsto> length prs)) (prs @ [pr])"
proof -
  have "ran (owner(tid \<mapsto> length prs)) = insert (length prs) (ran owner)"
    using tid by (rule ran_map_upd)
  moreover have "length prs \<notin> ran owner"
    using own by (auto simp: owners_ok_def)
  moreover from this have "inj_on (owner(tid \<mapsto> length prs)) (dom (owner(tid \<mapsto> length prs)))"
    using own tid by (auto simp: owners_ok_def inj_on_def ran_def)
  ultimately show ?thesis
    using own pr by (auto simp: owners_ok_def nth_append less_Suc_eq)
qed

lemma recycle_spec:
  assumes own: "owners_ok owner (producers q)" and tid: "owner tid = None"
  shows "\<exists>r q'. recycle_or_create_producer mem q = (r, q') \<and> hashes q' = hashes q \<and> hashCount q' = hashCount q \<and> extends mem q q' \<and>
    (case r of None \<Rightarrow> producers q' = producers q \<and> \<not> (\<forall>n. mem n)
     | Some v \<Rightarrow> v \<notin> ran owner \<and> owners_ok (owner(tid \<mapsto> v)) (producers q'))"
proof (cases "find (\<lambda>i. inactive (producers q ! i)) (producer_list q)")
  case (Some v)
  then have v: "v < length (producers q)" "inactive (producers q ! v)"
    by (auto simp: find_Some_iff producer_list_def rev_nth)
  let ?q = "q\<lparr>producers := (producers q)[v := (producers q ! v)\<lparr>inactive := False\<rparr>]\<rparr>"
  have "\<exists>b. producers ?q ! i = (producers q ! i)\<lparr>inactive := b\<rparr>" if "i < length (producers q)" for i
    using that v by (cases "i = v") (auto intro: exI [of _ "inactive (producers q ! i)"])
  then have "extends mem q ?q"
    unfolding extends_def by (auto intro: exI [of _ "allocations (q_pool q)"])
  moreover have "v \<notin> ran owner"
    using own v by (auto simp: owners_ok_def)
  ultimately show ?thesis
    using Some inactive_ok [OF own v(1) _ tid] by (simp add: recycle_or_create_producer_def)
next
  case None
  show ?thesis
  proof (cases "mem (allocations (q_pool q))")
    case False
    then show ?thesis
      using None by (auto simp: recycle_or_create_producer_def allocate_def intro: extends_same)
  next
    case True
    let ?p = "(q_pool q)\<lparr>allocations := Suc (allocations (q_pool q))\<rparr>"
    obtain pr where pr: "implicit_producer mem ?p = (?p\<lparr>allocations := Suc (Suc (allocations (q_pool q)))\<rparr>, pr)"
        "\<forall>ad. holds ?p pr 0 ad []" "blockIndex pr = None \<longleftrightarrow> \<not> mem (Suc (allocations (q_pool q)))" "\<not> inactive pr"
      using implicit_producer_spec [of mem ?p] by (auto; metis prod.inject)
    let ?q = "q\<lparr>q_pool := (q_pool q)\<lparr>allocations := Suc (Suc (allocations (q_pool q)))\<rparr>, producers := producers q @ [pr]\<rparr>"
    have "recycle_or_create_producer mem q = (Some (length (producers q)), ?q)"
      using None True pr(1) by (simp add: recycle_or_create_producer_def allocate_def)
    moreover have "\<exists>b. pr = pr\<lparr>inactive := b\<rparr>" for pr :: producer
      by (rule exI [of _ "inactive pr"]) simp
    then have "extends mem q ?q"
      using pr(2,3) unfolding extends_def by (auto simp: nth_append holds_allocations less_Suc_eq)
    moreover have "length (producers q) \<notin> ran owner"
      using own by (auto simp: owners_ok_def)
    ultimately show ?thesis
      using new_owner_ok [OF own pr(4) tid] by simp
  qed
qed

subsection \<open>Getting a producer\<close>

lemma room_words:
  assumes "table_size t" and "unat n < 2 ^ 60"
  shows "1 + n < drop_bit 1 (capacity t) + drop_bit 2 (capacity t) \<longleftrightarrow> Suc (unat n) < length (entries t) div 2 + length (entries t) div 4"
    and "1 + n < drop_bit 1 (capacity t) \<longleftrightarrow> Suc (unat n) < length (entries t) div 2"
  unfolding word_less_nat_alt table_words [OF assms(1)] unat_Suc_count [OF assms(2)] by (rule refl)+

lemma extends_after_allocation:
  assumes "extends mem (q\<lparr>q_pool := (q_pool q)\<lparr>allocations := k\<rparr>, hashes := ts, hashCount := n\<rparr>) q'"
  shows "extends mem q (q'\<lparr>hashes := ts', hashCount := n'\<rparr>)"
  using assms by (simp add: extends_def holds_allocations)

text \<open>Adding a thread once there is room in the current table.\<close>

lemma add_with_room:
  assumes ok: "tables_ok owner ts n" "owners_ok owner (producers q)" and n: "unat n < 2 ^ 60" and tid: "valid_id tid" "owner tid = None"
    and room: "Suc (unat n) < length (entries (hd ts)) div 2" and q: "q1 = q\<lparr>q_pool := (q_pool q)\<lparr>allocations := k\<rparr>, hashes := ts, hashCount := 1 + n\<rparr>"
  shows "\<exists>r q'. register_producer mem tid q1 = Some (r, q') \<and> extends mem q q' \<and> unat (hashCount q') \<le> Suc (unat n) \<and>
      (case r of None \<Rightarrow> threads_ok owner q' \<and> \<not> (\<forall>n. mem n)
       | Some v \<Rightarrow> v \<notin> ran owner \<and> threads_ok (owner(tid \<mapsto> v)) q')"
proof -
  have q1: "hashes q1 = ts" "hashCount q1 = 1 + n" "producers q1 = producers q"
    unfolding q by simp_all
  obtain r q2 where r: "recycle_or_create_producer mem q1 = (r, q2)" "hashes q2 = ts" "hashCount q2 = 1 + n" "extends mem q1 q2"
    "case r of None \<Rightarrow> producers q2 = producers q \<and> \<not> (\<forall>n. mem n)
     | Some v \<Rightarrow> v \<notin> ran owner \<and> owners_ok (owner(tid \<mapsto> v)) (producers q2)"
    using recycle_spec [OF ok(2) [folded q1(3)] tid(2), of mem] unfolding q1 by blast
  have ext: "extends mem q (q2\<lparr>hashes := ts', hashCount := n'\<rparr>)" for ts' n'
    using r(4) unfolding q by (rule extends_after_allocation)
  show ?thesis
  proof (cases r)
    case None
    have "extends mem q (q2\<lparr>hashCount := n\<rparr>)"
      using ext [where ts' = ts and n' = n] r(2) by (simp add: extends_def)
    then show ?thesis
      using None r ok by (simp add: register_producer_def threads_ok_def)
  next
    case (Some v)
    have "4 * Suc (unat n) < 3 * length (entries (hd ts))"
      using room by simp
    then obtain i where i: "free_slot (hd ts) tid = Some i"
        "tables_ok (owner(tid \<mapsto> v)) (put_entry i tid v (hd ts) # tl ts) (if fst (entries (hd ts) ! i) = invalid_thread_id2 then n else 1 + n)"
      using new_thread [OF ok(1) n tid] by blast
    then show ?thesis
      using Some r ext n unat_Suc_count [OF n] by (auto simp: register_producer_def threads_ok_def Let_def)
  qed
qed

lemma add_implicit_producer_spec:
  assumes ok: "threads_ok owner q" and n: "unat (hashCount q) < 2 ^ 60" and tid: "valid_id tid" "owner tid = None"
  shows "\<exists>r q'. add_implicit_producer mem tid q = Some (r, q') \<and> extends mem q q' \<and> unat (hashCount q') \<le> Suc (unat (hashCount q)) \<and>
    (case r of None \<Rightarrow> threads_ok owner q' \<and> \<not> (\<forall>n. mem n)
     | Some v \<Rightarrow> v \<notin> ran owner \<and> threads_ok (owner(tid \<mapsto> v)) q')"
proof -
  let ?n = "hashCount q" and ?ts = "hashes q"
  have t: "tables_ok owner ?ts ?n" and own: "owners_ok owner (producers q)"
    using ok by (auto simp: threads_ok_def)
  have room: "1 + ?n < drop_bit 1 (capacity u) + drop_bit 2 (capacity u)" if "table_size u" "Suc (unat ?n) < length (entries u) div 2" for u
    using that room_words(1) [OF that(1) n] by simp
  show ?thesis
  proof (cases "drop_bit 1 (capacity (hd ?ts)) \<le> 1 + ?n")
    case False
    have lt: "Suc (unat ?n) < length (entries (hd ?ts)) div 2"
      using False room_words(2) [OF tables_okD(2) [OF t] n] by (simp add: not_le)
    have "q\<lparr>hashCount := 1 + ?n\<rparr> = q\<lparr>q_pool := (q_pool q)\<lparr>allocations := allocations (q_pool q)\<rparr>, hashes := ?ts, hashCount := 1 + ?n\<rparr>"
      by simp
    then show ?thesis
      using add_with_room [OF t own n tid lt, of "q\<lparr>hashCount := 1 + ?n\<rparr>" "allocations (q_pool q)" mem] False
        room [OF tables_okD(2) [OF t] lt] by (simp add: add_implicit_producer_def Let_def)
  next
    case True
    obtain c where c: "c < 63" "double_capacity 64 (1 + ?n) (push_bit 1 (capacity (hd ?ts))) = Some (2 ^ c)"
        "tables_ok owner (empty_table (2 ^ c) # ?ts) ?n" "Suc (unat ?n) < 2 ^ c div 2"
      using enlarged [OF t n True] by blast
    let ?t = "empty_table (2 ^ c)"
    have lt: "Suc (unat ?n) < length (entries (hd (?t # ?ts))) div 2"
      using c by (simp add: empty_table_def unat_exp_below)
    let ?k = "Suc (allocations (q_pool q))"
    let ?q = "q\<lparr>q_pool := (q_pool q)\<lparr>allocations := ?k\<rparr>, hashes := ?t # ?ts, hashCount := 1 + ?n\<rparr>"
    show ?thesis
    proof (cases "mem (allocations (q_pool q))")
      case False
      then have "add_implicit_producer mem tid q = Some (None, q\<lparr>q_pool := (q_pool q)\<lparr>allocations := ?k\<rparr>\<rparr>)"
        using True c(2) by (simp add: add_implicit_producer_def resize_hash_def allocate_def Let_def)
      then show ?thesis
        using False ok by (auto simp: threads_ok_def intro: extends_same)
    next
      case m: True
      then have "resize_hash mem (1 + ?n) (q\<lparr>hashCount := 1 + ?n\<rparr>) = Some (True, ?q)"
        using c(2) by (simp add: resize_hash_def allocate_def)
      then show ?thesis
        using add_with_room [OF c(3) own n tid lt refl, where mem = mem and k = ?k] True
          room [OF tables_okD(2) [OF c(3)] lt] by (simp add: add_implicit_producer_def Let_def)
    qed
  qed
qed

lemma get_or_add_spec:
  assumes ok: "threads_ok owner q" and n: "unat (hashCount q) < 2 ^ 60" and tid: "valid_id tid"
  shows "\<exists>r q'. get_or_add_implicit_producer mem tid q = Some (r, q') \<and> extends mem q q' \<and>
    unat (hashCount q') \<le> Suc (unat (hashCount q)) \<and>
    (case r of None \<Rightarrow> threads_ok owner q' \<and> owner tid = None \<and> \<not> (\<forall>n. mem n)
     | Some v \<Rightarrow> threads_ok (owner(tid \<mapsto> v)) q' \<and> (if owner tid = None then v \<notin> ran owner else owner tid = Some v))"
proof -
  have t: "tables_ok owner (hashes q) (hashCount q)" and own: "owners_ok owner (producers q)"
    using ok by (auto simp: threads_ok_def)
  have tabs: "\<forall>t \<in> set (hashes q). table_ok owner t" and cover: "dom owner \<subseteq> \<Union>(keys ` set (hashes q))"
    using t by (auto simp: tables_ok_def)
  obtain r where r: "search_tables tid (hashes q) = Some r"
    "case r of None \<Rightarrow> tid \<notin> \<Union>(keys ` set (hashes q))
     | Some (d, v) \<Rightarrow> owner tid = Some v \<and> (d = 0 \<longleftrightarrow> hashes q \<noteq> [] \<and> tid \<in> keys (hd (hashes q))) \<and> tid \<in> \<Union>(keys ` set (hashes q))"
    using search_tables_spec [OF tabs tid] by blast
  show ?thesis
  proof (cases r)
    case None
    then have "owner tid = None"
      using r(2) cover by auto
    moreover from this obtain a q' where "add_implicit_producer mem tid q = Some (a, q')" "extends mem q q'"
        "unat (hashCount q') \<le> Suc (unat (hashCount q))"
        "case a of None \<Rightarrow> threads_ok owner q' \<and> \<not> (\<forall>n. mem n) | Some v \<Rightarrow> v \<notin> ran owner \<and> threads_ok (owner(tid \<mapsto> v)) q'"
      using add_implicit_producer_spec [OF ok n tid] by blast
    ultimately show ?thesis
      using None r(1) by (cases a) (auto simp: get_or_add_implicit_producer_def)
  next
    case (Some dv)
    then obtain d v where dv: "r = Some (d, v)" "owner tid = Some v" "d = 0 \<longleftrightarrow> tid \<in> keys (hd (hashes q))"
      using r(2) t by (cases dv) (auto simp: tables_ok_def)
    have same: "owner(tid \<mapsto> v) = owner"
      using dv(2) by (auto simp: fun_upd_idem)
    have ext: "extends mem q q'" if "q_pool q' = q_pool q" "producers q' = producers q" for q' :: "'a queue"
      using that by (intro extends_same [where k = "allocations (q_pool q)"]) simp_all
    show ?thesis
    proof (cases "d = 0")
      case True
      then show ?thesis
        using dv r(1) ok same ext [of q] by (simp add: get_or_add_implicit_producer_def)
    next
      case False
      then obtain i where i: "free_slot (hd (hashes q)) tid = Some i"
          "tables_ok owner (put_entry i tid v (hd (hashes q)) # tl (hashes q)) (hashCount q)"
        using adopt_thread [OF t dv(2)] dv(3) by blast
      then show ?thesis
        using False dv r(1) own same ext by (simp add: get_or_add_implicit_producer_def threads_ok_def)
    qed
  qed
qed

subsection \<open>A thread that exits\<close>

lemma remove_all:
  assumes "\<forall>t \<in> set ts. table_ok owner t" and "valid_id tid"
  shows "\<exists>ts'. those (map (remove_key tid) ts) = Some ts' \<and> (\<forall>t \<in> set ts'. table_ok (owner(tid := None)) t) \<and>
    map keys ts' = map (\<lambda>t. keys t - {tid}) ts \<and> map used_slots ts' = map used_slots ts \<and>
    map (\<lambda>t. length (entries t)) ts' = map (\<lambda>t. length (entries t)) ts"
  using assms(1)
proof (induction ts)
  case (Cons t ts)
  have "table_ok owner t" "\<forall>t \<in> set ts. table_ok owner t"
    using Cons.prems by simp_all
  moreover obtain t' where "remove_key tid t = Some t'" "table_ok (owner(tid := None)) t'" "keys t' = keys t - {tid}"
      "used_slots t' = used_slots t" "length (entries t') = length (entries t)"
    using remove_spec [OF calculation(1) assms(2)] by blast
  moreover obtain ts' where "those (map (remove_key tid) ts) = Some ts'" "\<forall>t \<in> set ts'. table_ok (owner(tid := None)) t"
      "map keys ts' = map (\<lambda>t. keys t - {tid}) ts" "map used_slots ts' = map used_slots ts"
      "map (\<lambda>t. length (entries t)) ts' = map (\<lambda>t. length (entries t)) ts"
    using Cons.IH [OF calculation(2)] by blast
  ultimately show ?case
    by (intro exI [of _ "t' # ts'"]) (simp del: fun_upd_apply)
qed simp

lemma tables_remove:
  assumes ok: "tables_ok owner ts n" and ts': "\<forall>t \<in> set ts'. table_ok (owner(tid := None)) t"
    "map keys ts' = map (\<lambda>t. keys t - {tid}) ts" "map used_slots ts' = map used_slots ts"
    "map (\<lambda>t. length (entries t)) ts' = map (\<lambda>t. length (entries t)) ts"
  shows "tables_ok (owner(tid := None)) ts' n"
proof -
  obtain t us where ts: "ts = t # us"
    using ok by (cases ts) (auto simp: tables_ok_def)
  then obtain t' us' where ts'': "ts' = t' # us'"
    using ts'(2) by (cases ts') auto
  have hd: "keys t' = keys t - {tid}" "used_slots t' = used_slots t" "length (entries t') = length (entries t)"
    using ts'(2-4) ts ts'' by auto
  have "set (map keys ts') = set (map (\<lambda>t. keys t - {tid}) ts)"
    using ts'(2) by (rule arg_cong)
  then have "\<Union>(keys ` set ts') = \<Union>(keys ` set ts) - {tid}"
    by simp
  moreover have "dom (owner(tid := None)) - keys t' \<subseteq> dom owner - keys t"
    using hd by auto
  then have "card (dom (owner(tid := None)) - keys t') \<le> card (dom owner - keys t)"
    using ok by (intro card_mono) (auto simp: tables_ok_def)
  ultimately show ?thesis
    using ok ts'(1) ts ts'' hd unfolding tables_ok_def by auto
qed

lemma owners_remove:
  assumes own: "owners_ok owner prs" and tid: "owner tid = Some v"
  shows "owners_ok (owner(tid := None)) (prs[v := (prs ! v)\<lparr>inactive := True\<rparr>])"
proof -
  have inj: "inj_on owner (dom owner)"
    using own by (simp add: owners_ok_def)
  then have "ran (owner(tid := None)) = ran owner - {v}"
    using tid by (auto simp: ran_def inj_on_def dom_def) (metis option.inject)+
  moreover have "inj_on (owner(tid := None)) (dom (owner(tid := None)))"
    using inj by (auto simp: inj_on_def)
  moreover have "v < length prs"
    using own ranI [of owner tid v] tid by (auto simp: owners_ok_def)
  ultimately show ?thesis
    using own by (auto simp: owners_ok_def nth_list_update)
qed

lemma thread_exited_spec:
  assumes ok: "threads_ok owner q" and tid: "owner tid = Some v"
  shows "\<exists>q'. implicit_producer_thread_exited tid v q = Some q' \<and> extends mem q q' \<and> hashCount q' = hashCount q \<and>
    threads_ok (owner(tid := None)) q'"
proof -
  have t: "tables_ok owner (hashes q) (hashCount q)" and own: "owners_ok owner (producers q)"
    using ok by (auto simp: threads_ok_def)
  have tabs: "\<forall>t \<in> set (hashes q). table_ok owner t" and valid: "valid_id tid"
    using t tid by (auto simp: tables_ok_def)
  obtain ts where ts: "those (map (remove_key tid) (hashes q)) = Some ts" "tables_ok (owner(tid := None)) ts (hashCount q)"
    using remove_all [OF tabs valid] tables_remove [OF t] by blast
  let ?prs = "(producers q)[v := (producers q ! v)\<lparr>inactive := True\<rparr>]"
  have "\<exists>b. ?prs ! i = (producers q ! i)\<lparr>inactive := b\<rparr>" if "i < length (producers q)" for i
    using that by (cases "i = v") (auto intro: exI [of _ "inactive (producers q ! i)"])
  then have "extends mem q (q\<lparr>hashes := ts, producers := ?prs\<rparr>)"
    unfolding extends_def by (auto intro: exI [of _ "allocations (q_pool q)"])
  then show ?thesis
    using ts owners_remove [OF own tid] by (auto simp: implicit_producer_thread_exited_def threads_ok_def)
qed

lemma new_queue_threads: "threads_ok Map.empty (new_queue mem cap)"
  using empty_table_ok [of 5]
  by (simp add: threads_ok_def tables_ok_def owners_ok_def new_queue_def empty_table_def INITIAL_IMPLICIT_PRODUCER_HASH_SIZE_def)

end
