(* ===== verification/Cq_Refinement.thy ===== *)
theory Cq_Refinement
  imports Cq_Threads
begin

text \<open>
  The queue implements one first-in first-out list per producer: nothing is lost, duplicated or reordered within a
  producer, and a dequeue fails only when every list is empty.
\<close>

subsection \<open>The elements of all producers\<close>

definition own_of :: "(nat \<Rightarrow> nat) \<Rightarrow> (nat \<Rightarrow> nat \<Rightarrow> addr) \<Rightarrow> (nat \<Rightarrow> 'a list) \<Rightarrow> nat \<Rightarrow> addr set" where
  "own_of H ad cs i = own_blocks (H i) (ad i) (length (cs i))"

definition data_ok :: "'a queue \<Rightarrow> (nat \<Rightarrow> nat) \<Rightarrow> (nat \<Rightarrow> nat \<Rightarrow> addr) \<Rightarrow> (nat \<Rightarrow> 'a list) \<Rightarrow> bool" where
  "data_ok q H ad cs \<longleftrightarrow>
     (\<forall>i < length (producers q). holds (q_pool q) (producers q ! i) (H i) (ad i) (cs i)) \<and>
     (\<forall>i \<ge> length (producers q). H i = 0 \<and> cs i = []) \<and>
     (\<forall>i j. i \<noteq> j \<longrightarrow> own_of H ad cs i \<inter> own_of H ad cs j = {}) \<and>
     (\<exists>fl. pool_inv (q_pool q) (\<Union>i. own_of H ad cs i) fl)"

lemma holds_frame:
  assumes "holds p pr H ad xs" and "\<And>y. y \<in> own_blocks H ad (length xs) \<Longrightarrow> memory p' y = memory p y"
  shows "holds p' pr H ad xs"
  using assms blocks_ok_frame [of p H "last_block (H + length xs)" ad xs p'] by (simp add: holds_def open_upto_def own_blocks_def)

lemma holds_inactive: "holds p (pr\<lparr>inactive := b\<rparr>) H ad xs = holds p pr H ad xs"
  by (simp add: holds_def open_upto_def counters_ok_def index_ok_def cong: option.case_cong)

lemma own_of_new: "H i = 0 \<Longrightarrow> cs i = [] \<Longrightarrow> own_of H ad cs i = {}"
  by (simp add: own_of_def own_blocks_def last_block_def BLOCK_SIZE_def)

lemma data_extends:
  assumes data: "data_ok q H ad cs" and ext: "extends mem q q'"
  shows "data_ok q' H ad cs"
proof -
  obtain k where k: "q_pool q' = (q_pool q)\<lparr>allocations := k\<rparr>"
    using ext by (auto simp: extends_def)
  have "holds (q_pool q') (producers q' ! i) (H i) (ad i) (cs i)" if "i < length (producers q')" for i
  proof (cases "i < length (producers q)")
    case True
    then obtain b where "producers q' ! i = (producers q ! i)\<lparr>inactive := b\<rparr>"
      using ext by (auto simp: extends_def)
    then show ?thesis
      using data True k by (simp add: data_ok_def holds_inactive holds_allocations)
  next
    case False
    then show ?thesis
      using data that ext k by (simp add: data_ok_def extends_def holds_allocations)
  qed
  moreover have "\<exists>fl. pool_inv (q_pool q') (\<Union>i. own_of H ad cs i) fl"
    using data pool_inv_allocations [THEN iffD2] unfolding k data_ok_def by blast
  ultimately show ?thesis
    using data ext unfolding data_ok_def extends_def by auto
qed

text \<open>An operation on one sub-queue leaves the others alone.\<close>

lemma data_update:
  assumes data: "data_ok q H ad cs" and v: "v < length (producers q)"
    and h: "holds p pr h a xs" and frame: "\<And>y. y \<in> (\<Union>i. own_of H ad cs i) - own_of H ad cs v \<Longrightarrow> memory p y = memory (q_pool q) y"
    and inv: "pool_inv p ((\<Union>i. own_of H ad cs i) - own_of H ad cs v \<union> own_blocks h a (length xs)) fl"
    and sep: "own_blocks h a (length xs) \<inter> (\<Union>i. own_of H ad cs i) \<subseteq> own_of H ad cs v"
  shows "data_ok (q\<lparr>q_pool := p, producers := (producers q)[v := pr]\<rparr>) (H(v := h)) (ad(v := a)) (cs(v := xs))"
proof -
  let ?own = "own_of H ad cs" and ?own' = "own_of (H(v := h)) (ad(v := a)) (cs(v := xs))"
  have own': "?own' i = (if i = v then own_blocks h a (length xs) else ?own i)" for i
    by (simp add: own_of_def)
  have dis: "?own i \<inter> ?own j = {}" if "i \<noteq> j" for i j
    using data that by (simp add: data_ok_def)
  have other: "?own j \<subseteq> (\<Union>i. ?own i) - ?own v" if "j \<noteq> v" for j
    using dis [OF that] by blast
  have "holds p (producers q ! i) (H i) (ad i) (cs i)" if "i < length (producers q)" "i \<noteq> v" for i
  proof (rule holds_frame)
    show "holds (q_pool q) (producers q ! i) (H i) (ad i) (cs i)"
      using data that by (simp add: data_ok_def)
    show "memory p y = memory (q_pool q) y" if "y \<in> own_blocks (H i) (ad i) (length (cs i))" for y
      using frame other [OF \<open>i \<noteq> v\<close>] that unfolding own_of_def by blast
  qed
  moreover have "(\<Union>i. ?own i) - ?own v = (\<Union>i \<in> - {v}. ?own i)"
    using other by blast
  then have "(\<Union>i. ?own' i) = (\<Union>i. ?own i) - ?own v \<union> own_blocks h a (length xs)"
    unfolding own' by (auto split: if_splits)
  moreover have "?own' i \<inter> ?own' j = {}" if "i \<noteq> j" for i j
    using dis [OF that] sep that other unfolding own' by (auto split: if_splits)
  ultimately show ?thesis
    using data h inv v unfolding data_ok_def by (auto simp: nth_list_update)
qed

text \<open>Enqueuing and dequeuing keep a producer active, so the threads keep theirs.\<close>

lemma enqueue_inactive: "implicit_enqueue mem canAlloc x p pr = Some (ok, p', pr') \<Longrightarrow> inactive pr' = inactive pr"
  by (auto simp: implicit_enqueue_def start_block_def insert_block_index_entry_def new_block_index_def store_value_def
      rewind_block_index_tail_def Let_def split: bind_splits if_splits option.splits prod.splits)

lemma dequeue_inactive: "implicit_dequeue p pr = Some (r, p', pr') \<Longrightarrow> inactive pr' = inactive pr"
  by (auto simp: implicit_dequeue_def take_element_def store_value_def Let_def split: bind_splits if_splits prod.splits)

lemma threads_update:
  assumes "threads_ok owner q" and "v < length (producers q)" and "inactive pr = inactive (producers q ! v)"
  shows "threads_ok owner (q\<lparr>q_pool := p, producers := (producers q)[v := pr]\<rparr>)"
  using assms by (simp add: threads_ok_def owners_ok_def nth_list_update)

text \<open>The contents of a queue: the list of every producer, and who owns which.\<close>

definition indexed :: "'a queue \<Rightarrow> bool" where
  "indexed q \<longleftrightarrow> (\<forall>pr \<in> set (producers q). blockIndex pr \<noteq> None)"

definition contents :: "'a queue \<Rightarrow> (u64 \<rightharpoonup> nat) \<Rightarrow> (nat \<Rightarrow> 'a list) \<Rightarrow> bool" where
  "contents q owner cs \<longleftrightarrow> threads_ok owner q \<and> (\<exists>H ad. data_ok q H ad cs)"

lemma indexed_extends:
  assumes ext: "extends mem q q'" and idx: "indexed q" and mem: "\<forall>n. mem n"
  shows "indexed q'"
proof -
  have "blockIndex (producers q' ! i) \<noteq> None" if "i < length (producers q')" for i
  proof (cases "i < length (producers q)")
    case True
    then obtain b where "producers q' ! i = (producers q ! i)\<lparr>inactive := b\<rparr>"
      using ext by (auto simp: extends_def)
    then show ?thesis
      using idx True by (simp add: indexed_def)
  next
    case False
    then show ?thesis
      using ext mem that by (auto simp: extends_def)
  qed
  then show ?thesis
    by (simp add: indexed_def all_set_conv_all_nth)
qed

lemma indexed_update:
  "indexed q \<Longrightarrow> (blockIndex pr = None \<longleftrightarrow> blockIndex (producers q ! v) = None) \<Longrightarrow> v < length (producers q) \<Longrightarrow>
    indexed (q\<lparr>q_pool := p, producers := (producers q)[v := pr]\<rparr>)"
  unfolding indexed_def all_set_conv_all_nth by (simp add: nth_list_update) fastforce

text \<open>Enqueuing on the sub-queue of a producer.\<close>

lemma enqueue_on_producer:
  assumes thr: "threads_ok owner q" and data: "data_ok q H ad cs" and v: "v < length (producers q)"
  shows "\<exists>ok p pr. implicit_enqueue mem canAlloc x (q_pool q) (producers q ! v) = Some (ok, p, pr) \<and>
    contents (q\<lparr>q_pool := p, producers := (producers q)[v := pr]\<rparr>) owner (if ok then cs(v := cs v @ [x]) else cs) \<and>
    (blockIndex pr = None \<longleftrightarrow> blockIndex (producers q ! v) = None) \<and>
    (ok \<or> blockIndex (producers q ! v) = None \<or> \<not> canAlloc \<or> \<not> (\<forall>n. mem n) \<or> 2 ^ 63 \<le> length (cs v) + BLOCK_SIZE)"
proof -
  let ?used = "\<Union>i. own_of H ad cs i" and ?own = "own_of H ad cs v"
  obtain fl where fl: "pool_inv (q_pool q) ?used fl" and h: "holds (q_pool q) (producers q ! v) (H v) (ad v) (cs v)"
    using data v by (auto simp: data_ok_def)
  have sub: "own_blocks (H v) (ad v) (length (cs v)) \<subseteq> ?used"
    unfolding own_of_def by blast
  obtain ok p pr where e: "implicit_enqueue mem canAlloc x (q_pool q) (producers q ! v) = Some (ok, p, pr)"
    "\<forall>y \<in> ?used - ?own. memory p y = memory (q_pool q) y"
    "if ok then \<exists>a fl. holds p pr (H v) a (cs v @ [x]) \<and> pool_inv p (?used \<union> own_blocks (H v) a (Suc (length (cs v)))) fl \<and>
        own_blocks (H v) a (Suc (length (cs v))) \<inter> ?used = ?own
     else (\<exists>fl. pool_inv p ?used fl) \<and> holds p pr (H v) (ad v) (cs v) \<and>
       (blockIndex (producers q ! v) = None \<or> \<not> canAlloc \<or> \<not> (\<forall>n. mem n) \<or> 2 ^ 63 \<le> length (cs v) + BLOCK_SIZE)"
    using enqueue_spec [OF h fl sub, where mem = mem and canAlloc = canAlloc and x = x] unfolding own_of_def by blast
  let ?q = "q\<lparr>q_pool := p, producers := (producers q)[v := pr]\<rparr>"
  have "\<exists>H' ad'. data_ok ?q H' ad' (if ok then cs(v := cs v @ [x]) else cs)"
  proof (cases ok)
    case True
    then obtain a fl where a: "holds p pr (H v) a (cs v @ [x])" "pool_inv p (?used \<union> own_blocks (H v) a (length (cs v @ [x]))) fl"
        "own_blocks (H v) a (length (cs v @ [x])) \<inter> ?used = ?own"
      using e(3) by auto
    have "?used - ?own \<union> own_blocks (H v) a (length (cs v @ [x])) = ?used \<union> own_blocks (H v) a (length (cs v @ [x]))"
      using a(3) by blast
    then have "data_ok ?q (H(v := H v)) (ad(v := a)) (cs(v := cs v @ [x]))"
      using data_update [OF data v a(1)] e(2) a(2,3) by simp
    then show ?thesis
      using True by auto
  next
    case False
    then obtain fl where a: "holds p pr (H v) (ad v) (cs v)" "pool_inv p ?used fl"
      using e(3) by auto
    have "?used - ?own \<union> ?own = ?used"
      by blast
    then have "data_ok ?q (H(v := H v)) (ad(v := ad v)) (cs(v := cs v))"
      using data_update [OF data v a(1)] e(2) a(2) unfolding own_of_def by auto
    then show ?thesis
      using False by auto
  qed
  then have "contents ?q owner (if ok then cs(v := cs v @ [x]) else cs)"
    using threads_update [OF thr v enqueue_inactive [OF e(1)]] by (simp add: contents_def)
  then show ?thesis
    using e(1,3) enqueue_index [OF e(1)] by (auto split: if_splits)
qed

lemma owner_lt: "threads_ok owner q \<Longrightarrow> owner k = Some v \<Longrightarrow> v < length (producers q)"
  by (auto simp: threads_ok_def owners_ok_def ran_def)

subsection \<open>Enqueue\<close>

lemma enqueue_contents:
  assumes con: "contents q owner cs" and n: "unat (hashCount q) < 2 ^ 60" and tid: "valid_id tid"
  shows "\<exists>r q1 ok q'. get_or_add_implicit_producer mem tid q = Some (r, q1) \<and> inner_enqueue mem canAlloc tid x q = Some (ok, q') \<and>
    unat (hashCount q') \<le> Suc (unat (hashCount q)) \<and> (indexed q \<and> (\<forall>n. mem n) \<longrightarrow> indexed q') \<and>
    (case r of
       None \<Rightarrow> \<not> ok \<and> contents q' owner cs \<and> owner tid = None \<and> \<not> (\<forall>n. mem n)
     | Some v \<Rightarrow> (if owner tid = None then v \<notin> ran owner else owner tid = Some v) \<and>
         contents q' (owner(tid \<mapsto> v)) (if ok then cs(v := cs v @ [x]) else cs) \<and>
         (ok \<or> \<not> indexed q \<or> \<not> canAlloc \<or> \<not> (\<forall>n. mem n) \<or> 2 ^ 63 \<le> length (cs v) + BLOCK_SIZE))"
proof -
  obtain H ad where thr: "threads_ok owner q" and data: "data_ok q H ad cs"
    using con by (auto simp: contents_def)
  obtain r q1 where g: "get_or_add_implicit_producer mem tid q = Some (r, q1)" "extends mem q q1"
      "unat (hashCount q1) \<le> Suc (unat (hashCount q))"
      "case r of None \<Rightarrow> threads_ok owner q1 \<and> owner tid = None \<and> \<not> (\<forall>n. mem n)
       | Some v \<Rightarrow> threads_ok (owner(tid \<mapsto> v)) q1 \<and> (if owner tid = None then v \<notin> ran owner else owner tid = Some v)"
    using get_or_add_spec [OF thr n tid] by blast
  have data1: "data_ok q1 H ad cs"
    using data g(2) by (rule data_extends)
  have idx1: "indexed q1" if "indexed q" "\<forall>n. mem n"
    using g(2) that by (rule indexed_extends)
  show ?thesis
  proof (cases r)
    case None
    then have "inner_enqueue mem canAlloc tid x q = Some (False, q1)"
      using g(1) by (simp add: inner_enqueue_def)
    moreover have "contents q1 owner cs"
      using None g(4) data1 by (auto simp: contents_def)
    ultimately show ?thesis
      using None g by auto
  next
    case (Some v)
    then have thr1: "threads_ok (owner(tid \<mapsto> v)) q1" and v: "if owner tid = None then v \<notin> ran owner else owner tid = Some v"
      using g(4) by auto
    have lt: "v < length (producers q1)"
      using owner_lt [OF thr1, of tid v] by simp
    obtain ok p pr where e: "implicit_enqueue mem canAlloc x (q_pool q1) (producers q1 ! v) = Some (ok, p, pr)"
        "contents (q1\<lparr>q_pool := p, producers := (producers q1)[v := pr]\<rparr>) (owner(tid \<mapsto> v)) (if ok then cs(v := cs v @ [x]) else cs)"
        "blockIndex pr = None \<longleftrightarrow> blockIndex (producers q1 ! v) = None"
        "ok \<or> blockIndex (producers q1 ! v) = None \<or> \<not> canAlloc \<or> \<not> (\<forall>n. mem n) \<or> 2 ^ 63 \<le> length (cs v) + BLOCK_SIZE"
      using enqueue_on_producer [OF thr1 data1 lt, where mem = mem and canAlloc = canAlloc and x = x] by (elim exE conjE) (rule that)
    let ?q = "q1\<lparr>q_pool := p, producers := (producers q1)[v := pr]\<rparr>"
    have enq: "inner_enqueue mem canAlloc tid x q = Some (ok, ?q)"
      using g(1) Some e(1) by (simp add: inner_enqueue_def)
    have idx: "indexed q \<and> (\<forall>n. mem n) \<longrightarrow> indexed ?q"
      using indexed_update [OF idx1 e(3) lt] by blast
    have "ok \<or> \<not> indexed q \<or> \<not> canAlloc \<or> \<not> (\<forall>n. mem n) \<or> 2 ^ 63 \<le> length (cs v) + BLOCK_SIZE"
      using e(4) idx1 lt unfolding indexed_def by (metis nth_mem)
    then have "case r of None \<Rightarrow> \<not> ok \<and> contents ?q owner cs \<and> owner tid = None \<and> \<not> (\<forall>n. mem n)
     | Some v \<Rightarrow> (if owner tid = None then v \<notin> ran owner else owner tid = Some v) \<and>
         contents ?q (owner(tid \<mapsto> v)) (if ok then cs(v := cs v @ [x]) else cs) \<and>
         (ok \<or> \<not> indexed q \<or> \<not> canAlloc \<or> \<not> (\<forall>n. mem n) \<or> 2 ^ 63 \<le> length (cs v) + BLOCK_SIZE)"
      using Some v e(2) by simp
    moreover have "unat (hashCount ?q) \<le> Suc (unat (hashCount q))"
      using g(3) by simp
    ultimately show ?thesis
      using g(1) enq idx by blast
  qed
qed

subsection \<open>Dequeue\<close>

lemma size_positive:
  assumes "holds p pr H ad xs"
  shows "producer_size_approx pr > 0 \<longleftrightarrow> xs \<noteq> []"
proof -
  have "unat (word_of_nat (length xs) :: u64) = length xs"
    using holds_length [OF assms] unfolding unat_of_nat by simp
  then show ?thesis
    unfolding producer_size_exact [OF assms] word_less_nat_alt by simp
qed

text \<open>A producer is chosen exactly when one has elements, and it has some.\<close>

lemma best_producer_spec:
  assumes "best_producer prs is n best bestSize = (n', best')" and "n = 0 \<longleftrightarrow> best = None" and "best = None \<Longrightarrow> bestSize = 0"
  shows "(n' = 0 \<longleftrightarrow> best' = None) \<and> (best' = None \<longrightarrow> best = None \<and> (\<forall>i \<in> set is. \<not> producer_size_approx (prs ! i) > 0)) \<and>
    (\<forall>i. best' = Some i \<longrightarrow> best = Some i \<or> i \<in> set is \<and> producer_size_approx (prs ! i) > 0)"
  using assms
proof (induction prs "is" n best bestSize rule: best_producer.induct)
  case (2 prs i "is" n best bestSize)
  let ?s = "producer_size_approx (prs ! i)"
  show ?case
  proof (cases "n < 3")
    case False
    then show ?thesis
      using "2.prems" by auto
  next
    case lt: True
    show ?thesis
    proof (cases "?s > 0")
      case zero: False
      then have eq: "best_producer prs is n best bestSize = (n', best')"
        using "2.prems"(1) lt by (simp add: Let_def)
      show ?thesis
        using "2.IH"(3) [OF lt refl zero eq "2.prems"(2,3)] zero by auto
    next
      case pos: True
      show ?thesis
      proof (cases "?s > bestSize")
        case gt: True
        then have eq: "best_producer prs is (n + 1) (Some i) ?s = (n', best')"
          using "2.prems"(1) lt pos by (simp add: Let_def)
        show ?thesis
          using "2.IH"(1) [OF lt refl pos gt eq] pos by auto
      next
        case le: False
        then have eq: "best_producer prs is (n + 1) best bestSize = (n', best')"
          using "2.prems"(1) lt pos by (simp add: Let_def)
        have some: "best \<noteq> None"
          using le pos "2.prems"(3) by metis
        then show ?thesis
          using "2.IH"(2) [OF lt refl pos le eq] by auto
      qed
    qed
  qed
qed auto

lemma dequeue_head:
  assumes "implicit_dequeue p pr = Some (Some x, p', pr')"
  shows "headIndex pr' = headIndex pr + 1"
  using assms by (auto simp: implicit_dequeue_def take_element_def store_value_def Let_def split: bind_splits if_splits prod.splits)

lemma dequeue_on_producer:
  assumes thr: "threads_ok owner q" and data: "data_ok q H ad cs" and v: "v < length (producers q)" and cs: "cs v = x # xs"
  shows "\<exists>q'. dequeue_from v q = Some (Some x, q') \<and> contents q' owner (cs(v := xs)) \<and> hashCount q' = hashCount q \<and>
    (\<forall>i < length (producers q). headIndex (producers q' ! i) \<noteq> headIndex (producers q ! i) \<longleftrightarrow> i = v) \<and> (indexed q \<longrightarrow> indexed q')"
proof -
  let ?used = "\<Union>i. own_of H ad cs i" and ?own = "own_of H ad cs v" and ?own' = "own_blocks (Suc (H v)) (ad v) (length xs)"
  obtain fl where fl: "pool_inv (q_pool q) ?used fl" and h: "holds (q_pool q) (producers q ! v) (H v) (ad v) (x # xs)"
    using data v cs by (fastforce simp: data_ok_def)
  have own: "own_blocks (H v) (ad v) (length (x # xs)) = ?own"
    using cs by (simp add: own_of_def)
  then have sub: "own_blocks (H v) (ad v) (length (x # xs)) \<subseteq> ?used"
    by blast
  obtain p pr fl' where d: "implicit_dequeue (q_pool q) (producers q ! v) = Some (Some x, p, pr)" "holds p pr (Suc (H v)) (ad v) xs"
      "pool_inv p (?used - (?own - ?own')) fl'" "\<forall>y \<in> ?used - ?own. memory p y = memory (q_pool q) y"
    using dequeue_spec [OF h fl sub] unfolding own by blast
  let ?q = "q\<lparr>q_pool := p, producers := (producers q)[v := pr]\<rparr>"
  have shrink: "?own' \<subseteq> ?own"
    using own_blocks_shrink [of "H v" "ad v" "length xs"] cs by (simp add: own_of_def)
  then have "?used - (?own - ?own') = ?used - ?own \<union> ?own'" and sep: "?own' \<inter> ?used \<subseteq> ?own"
    by blast+
  then have inv: "pool_inv p (?used - ?own \<union> ?own') fl'"
    using d(3) by simp
  have "data_ok ?q (H(v := Suc (H v))) (ad(v := ad v)) (cs(v := xs))"
    by (rule data_update [OF data v d(2) _ inv sep]) (use d(4) in blast)
  then have "contents ?q owner (cs(v := xs))"
    using threads_update [OF thr v dequeue_inactive [OF d(1)]] by (auto simp: contents_def)
  moreover have "headIndex (producers ?q ! i) \<noteq> headIndex (producers q ! i) \<longleftrightarrow> i = v" if "i < length (producers q)" for i
    using that v dequeue_head [OF d(1)] by (cases "i = v") simp_all
  moreover have "indexed q \<longrightarrow> indexed ?q"
    using indexed_update [OF _ dequeue_index [OF d(1)] v] by blast
  moreover have "dequeue_from v q = Some (Some x, ?q)"
    using d(1) by (simp add: dequeue_from_def)
  ultimately show ?thesis
    by auto
qed

lemma try_dequeue_contents:
  assumes con: "contents q owner cs"
  shows "(\<forall>v. cs v = []) \<and> cq_try_dequeue q = Some (None, q) \<or>
    (\<exists>v x xs q'. v < length (producers q) \<and> cs v = x # xs \<and> cq_try_dequeue q = Some (Some x, q') \<and> contents q' owner (cs(v := xs)) \<and>
       hashCount q' = hashCount q \<and> (indexed q \<longrightarrow> indexed q') \<and>
       (\<forall>i < length (producers q). headIndex (producers q' ! i) \<noteq> headIndex (producers q ! i) \<longleftrightarrow> i = v))"
proof -
  obtain H ad where thr: "threads_ok owner q" and data: "data_ok q H ad cs"
    using con by (auto simp: contents_def)
  obtain n best where b: "best_producer (producers q) (producer_list q) 0 None 0 = (n, best)"
    by (metis surj_pair)
  have size: "producer_size_approx (producers q ! i) > 0 \<longleftrightarrow> cs i \<noteq> []" if "i < length (producers q)" for i
    using data that unfolding data_ok_def by (intro size_positive) blast
  have list: "i \<in> set (producer_list q) \<longleftrightarrow> i < length (producers q)" for i
    by (simp add: producer_list_def)
  have spec: "(n = 0 \<longleftrightarrow> best = None) \<and> (best = None \<longrightarrow> (\<forall>i < length (producers q). \<not> producer_size_approx (producers q ! i) > 0)) \<and>
      (\<forall>i. best = Some i \<longrightarrow> i < length (producers q) \<and> producer_size_approx (producers q ! i) > 0)"
    using best_producer_spec [OF b] list by auto
  show ?thesis
  proof (cases best)
    case None
    then have "cs v = []" for v
      using spec size data by (cases "v < length (producers q)") (auto simp: data_ok_def)
    then show ?thesis
      using None b spec by (simp add: cq_try_dequeue_def)
  next
    case (Some v)
    then have v: "v < length (producers q)" "cs v \<noteq> []"
      using spec size by auto
    then obtain x xs where cs: "cs v = x # xs"
      by (cases "cs v") auto
    obtain q' where q': "dequeue_from v q = Some (Some x, q')" "contents q' owner (cs(v := xs))" "hashCount q' = hashCount q"
        "\<forall>i < length (producers q). headIndex (producers q' ! i) \<noteq> headIndex (producers q ! i) \<longleftrightarrow> i = v" "indexed q \<longrightarrow> indexed q'"
      using dequeue_on_producer [OF thr data v(1) cs] by blast
    have "cq_try_dequeue q = Some (Some x, q')"
      using Some b spec q'(1) by (simp add: cq_try_dequeue_def)
    then show ?thesis
      using v(1) cs q' by blast
  qed
qed

lemma size_contents:
  assumes con: "contents q owner cs"
  shows "cq_size_approx q = word_of_nat (\<Sum>i < length (producers q). length (cs i))"
proof -
  obtain H ad where data: "data_ok q H ad cs"
    using con by (auto simp: contents_def)
  have "map (\<lambda>i. producer_size_approx (producers q ! i)) (producer_list q) = map (\<lambda>i. word_of_nat (length (cs i))) (producer_list q)"
    using data unfolding data_ok_def producer_list_def by (intro map_cong refl producer_size_exact) auto
  then have "cq_size_approx q = sum_list (map (\<lambda>i. word_of_nat (length (cs i))) (producer_list q))"
    unfolding cq_size_approx_def by (rule arg_cong)
  also have "\<dots> = word_of_nat (\<Sum>i < length (producers q). length (cs i))"
    by (simp add: producer_list_def rev_map [symmetric] sum_list_rev interv_sum_list_conv_sum_set_nat atLeast0LessThan)
  finally show ?thesis .
qed

end
