(* ===== verification/Cq_Runs.thy ===== *)
theory Cq_Runs
  imports Cq_Refinement "HOL-Library.Sublist"
begin

text \<open>
  What the users of a queue can rely on in every state that a sequence of operations leads to: the threads keep their
  producers, elements come out in the order in which their producer put them in, and enqueuing succeeds while there is memory.
\<close>

subsection \<open>Runs\<close>

text \<open>
  A run of at most \<open>n\<close> enqueues, with what has happened: the producers of the live threads, and the elements that were put into
  and taken out of every producer. The producer that an element came from is the one whose head index has moved.
\<close>

inductive cq_run :: "(nat \<Rightarrow> bool) \<Rightarrow> nat \<Rightarrow> (u64 \<rightharpoonup> nat) \<Rightarrow> (nat \<Rightarrow> 'a list) \<Rightarrow> (nat \<Rightarrow> 'a list) \<Rightarrow> nat \<Rightarrow> 'a queue \<Rightarrow> bool"
  for mem cap where
  Start: "cq_run mem cap Map.empty (\<lambda>_. []) (\<lambda>_. []) 0 (new_queue mem cap)"
| Enqueue: "cq_run mem cap owner E D n q \<Longrightarrow> valid_id tid \<Longrightarrow> get_or_add_implicit_producer mem tid q = Some (r, q1) \<Longrightarrow>
    inner_enqueue mem canAlloc tid x q = Some (ok, q') \<Longrightarrow>
    cq_run mem cap (case r of None \<Rightarrow> owner | Some v \<Rightarrow> owner(tid \<mapsto> v))
      (case r of None \<Rightarrow> E | Some v \<Rightarrow> if ok then E(v := E v @ [x]) else E) D (Suc n) q'"
| Dequeue: "cq_run mem cap owner E D n q \<Longrightarrow> cq_try_dequeue q = Some (Some x, q') \<Longrightarrow> i < length (producers q) \<Longrightarrow>
    headIndex (producers q' ! i) \<noteq> headIndex (producers q ! i) \<Longrightarrow> cq_run mem cap owner E (D(i := D i @ [x])) n q'"
| Dequeue_Empty: "cq_run mem cap owner E D n q \<Longrightarrow> cq_try_dequeue q = Some (None, q') \<Longrightarrow> cq_run mem cap owner E D n q'"
| Exit: "cq_run mem cap owner E D n q \<Longrightarrow> owner tid = Some v \<Longrightarrow> implicit_producer_thread_exited tid v q = Some q' \<Longrightarrow>
    cq_run mem cap (owner(tid := None)) E D n q'"

definition run_inv :: "(nat \<Rightarrow> bool) \<Rightarrow> (u64 \<rightharpoonup> nat) \<Rightarrow> (nat \<Rightarrow> 'a list) \<Rightarrow> (nat \<Rightarrow> 'a list) \<Rightarrow> nat \<Rightarrow> 'a queue \<Rightarrow> (nat \<Rightarrow> 'a list) \<Rightarrow> bool" where
  "run_inv mem owner E D n q cs \<longleftrightarrow>
     contents q owner cs \<and> (\<forall>i. E i = D i @ cs i) \<and> unat (hashCount q) \<le> n \<and> ((\<forall>k. mem k) \<longrightarrow> indexed q) \<and> (\<forall>i. length (E i) \<le> n)"

lemma new_queue_inv:
  assumes "cap < 2 ^ 60"
  shows "run_inv mem Map.empty (\<lambda>_. []) (\<lambda>_. []) 0 (new_queue mem cap :: 'a queue) (\<lambda>_. [])"
proof -
  have none: "own_of (\<lambda>_. 0) ad (\<lambda>_. [] :: 'a list) i = {}" for ad i
    by (simp add: own_of_new)
  have "cap div BLOCK_SIZE + (if cap mod BLOCK_SIZE = 0 then 0 else 1) < 2 ^ 64"
    using le_less_trans [OF div_le_dividend [of cap BLOCK_SIZE] assms] by simp
  then have "pool_inv (q_pool (new_queue mem cap :: 'a queue)) {} []"
    unfolding new_queue_def queue.simps by (rule populate_initial_block_list_inv)
  then have "data_ok (new_queue mem cap :: 'a queue) (\<lambda>_. 0) (\<lambda>_ _. 0) (\<lambda>_. [])"
    unfolding data_ok_def none by (auto simp: new_queue_def)
  moreover have "hashCount (new_queue mem cap :: 'a queue) = 0" "indexed (new_queue mem cap :: 'a queue)"
    by (simp_all add: new_queue_def indexed_def)
  ultimately show ?thesis
    using new_queue_threads [of mem cap] unfolding run_inv_def contents_def by auto
qed

lemma run_inv_enqueue:
  assumes inv: "run_inv mem owner E D n q cs" and n: "n < 2 ^ 60" and tid: "valid_id tid"
    and get: "get_or_add_implicit_producer mem tid q = Some (r, q1)" and enq: "inner_enqueue mem canAlloc tid x q = Some (ok, q')"
  shows "\<exists>cs'. run_inv mem (case r of None \<Rightarrow> owner | Some v \<Rightarrow> owner(tid \<mapsto> v))
      (case r of None \<Rightarrow> E | Some v \<Rightarrow> if ok then E(v := E v @ [x]) else E) D (Suc n) q' cs'"
proof -
  have con: "contents q owner cs" and h: "unat (hashCount q) < 2 ^ 60" "unat (hashCount q) \<le> n" and len: "\<forall>i. length (E i) \<le> n"
      and eq: "\<forall>i. E i = D i @ cs i" and idx: "(\<forall>k. mem k) \<longrightarrow> indexed q"
    using inv n by (auto simp: run_inv_def)
  have spec: "unat (hashCount q') \<le> Suc (unat (hashCount q))" "indexed q \<and> (\<forall>n. mem n) \<longrightarrow> indexed q'"
    "case r of None \<Rightarrow> contents q' owner cs
     | Some v \<Rightarrow> contents q' (owner(tid \<mapsto> v)) (if ok then cs(v := cs v @ [x]) else cs)"
    using enqueue_contents [OF con h(1) tid, where mem = mem and canAlloc = canAlloc and x = x] unfolding get enq
    by (auto split: option.splits)
  have len': "length (E i) \<le> Suc n" for i
    using len by (simp add: le_SucI)
  show ?thesis
  proof (cases r)
    case None
    then have "run_inv mem owner E D (Suc n) q' cs"
      using spec eq idx h len' by (auto simp: run_inv_def)
    then show ?thesis
      using None by auto
  next
    case (Some v)
    then have "run_inv mem (owner(tid \<mapsto> v)) (if ok then E(v := E v @ [x]) else E) D (Suc n) q' (if ok then cs(v := cs v @ [x]) else cs)"
      using spec eq idx h len len' by (auto simp: run_inv_def)
    then show ?thesis
      using Some by auto
  qed
qed

lemma run_inv_dequeue:
  assumes inv: "run_inv mem owner E D n q cs" and deq: "cq_try_dequeue q = Some (Some x, q')"
    and i: "i < length (producers q)" "headIndex (producers q' ! i) \<noteq> headIndex (producers q ! i)"
  shows "\<exists>cs'. run_inv mem owner E (D(i := D i @ [x])) n q' cs'"
proof -
  have con: "contents q owner cs"
    using inv by (simp add: run_inv_def)
  have "\<exists>v xs. cs v = x # xs \<and> contents q' owner (cs(v := xs)) \<and> hashCount q' = hashCount q \<and> (indexed q \<longrightarrow> indexed q') \<and> i = v"
    using try_dequeue_contents [OF con] i unfolding deq by auto
  then obtain v xs where "cs v = x # xs" "contents q' owner (cs(v := xs))" "hashCount q' = hashCount q"
      "indexed q \<longrightarrow> indexed q'" "i = v"
    by blast
  then have "run_inv mem owner E (D(i := D i @ [x])) n q' (cs(v := xs))"
    using inv by (auto simp: run_inv_def)
  then show ?thesis
    by blast
qed

lemma run_inv_exit:
  assumes cs: "run_inv mem owner E D n q cs" and own: "owner tid = Some v" and ex: "implicit_producer_thread_exited tid v q = Some q'"
  shows "run_inv mem (owner(tid := None)) E D n q' cs"
proof -
  obtain H ad where thr: "threads_ok owner q" and data: "data_ok q H ad cs"
    using cs by (auto simp: run_inv_def contents_def)
  have "extends mem q q'" "hashCount q' = hashCount q" "threads_ok (owner(tid := None)) q'"
    using thread_exited_spec [OF thr own, of mem] ex by auto
  then show ?thesis
    using cs data_extends [OF data] indexed_extends by (auto simp: run_inv_def contents_def)
qed

text \<open>What is left of a producer is determined by what went in and what came out.\<close>

lemma run_inv_left: "run_inv mem owner E D n q cs \<Longrightarrow> cs = (\<lambda>i. drop (length (D i)) (E i))"
  by (auto simp: run_inv_def)

lemma cq_run_inv:
  assumes "cq_run mem cap owner E D n q" and "cap < 2 ^ 60" and "n < 2 ^ 60"
  shows "\<exists>cs. run_inv mem owner E D n q cs"
  using assms
proof (induction rule: cq_run.induct)
  case Start
  show ?case
    by (rule exI, rule new_queue_inv) (use Start.prems in simp)
next
  case (Enqueue owner E D n q tid r q1 canAlloc x ok q')
  then have "\<exists>cs. run_inv mem owner E D n q cs" and n: "n < 2 ^ 60"
    by simp_all
  then obtain cs where "run_inv mem owner E D n q cs"
    by (elim exE)
  from run_inv_enqueue [OF this n Enqueue.hyps(2-4)] show ?case .
next
  case (Dequeue owner E D n q x q' i)
  obtain cs where "run_inv mem owner E D n q cs"
    using Dequeue.IH [OF Dequeue.prems] by (elim exE)
  from run_inv_dequeue [OF this Dequeue.hyps(2-4)] show ?case .
next
  case (Dequeue_Empty owner E D n q q')
  obtain cs where cs: "run_inv mem owner E D n q cs"
    using Dequeue_Empty.IH [OF Dequeue_Empty.prems] by (elim exE)
  then have "contents q owner cs"
    by (simp add: run_inv_def)
  then have "q' = q"
    using try_dequeue_contents [of q owner cs] Dequeue_Empty.hyps(2) by auto
  then show ?case
    using cs by (intro exI) simp
next
  case (Exit owner E D n q tid v q')
  obtain cs where cs: "run_inv mem owner E D n q cs"
    using Exit.IH [OF Exit.prems] by (elim exE)
  from run_inv_exit [OF cs Exit.hyps(2,3)] show ?case
    by blast
qed

subsection \<open>The properties\<close>

text \<open>
  C5. Elements come out in the order their producer put them in. In every state that fewer than 2^60 enqueues and any number of
  dequeues and thread exits lead to, what was taken out of a producer is an initial piece of what was put in; \<open>try_dequeue\<close>
  returns, fails exactly when everything put in has been taken out, and otherwise gives the next element of some producer;
  and \<open>size_approx\<close> is the number of elements left.
\<close>

theorem cq_run_fifo:
  assumes "cq_run mem cap owner E D n q" and "cap < 2 ^ 60" and "n < 2 ^ 60"
  shows "\<exists>r q'. cq_try_dequeue q = Some (r, q') \<and> (\<forall>i. prefix (D i) (E i)) \<and> (r = None \<longleftrightarrow> D = E) \<and>
    (\<forall>x. r = Some x \<longrightarrow> (\<exists>i. prefix (D i @ [x]) (E i))) \<and>
    cq_size_approx q = word_of_nat (\<Sum>i < length (producers q). length (E i) - length (D i))"
proof -
  obtain cs where inv: "run_inv mem owner E D n q cs"
    using cq_run_inv [OF assms] by (elim exE)
  then have con: "contents q owner cs" and eq: "E i = D i @ cs i" for i
    by (auto simp: run_inv_def)
  have empty: "D = E \<longleftrightarrow> (\<forall>v. cs v = [])"
    using eq by (simp add: fun_eq_iff)
  have "cq_size_approx q = word_of_nat (\<Sum>i < length (producers q). length (E i) - length (D i))"
    unfolding size_contents [OF con] by (simp add: eq)
  moreover have "prefix (D i) (E i)" for i
    using eq by (simp add: prefix_def)
  moreover have "prefix (D v @ [x]) (E v)" if "cs v = x # xs" for v x xs
    using eq [of v] that by (simp add: prefix_def)
  ultimately show ?thesis
    using try_dequeue_contents [OF con] empty by fastforce
qed

text \<open>
  C7. Every thread has a producer of its own. In every such state getting the producer of a thread returns; a thread that has one gets
  it again, a new thread gets one that no live thread has, and no two live threads share one.
\<close>

theorem cq_producers_distinct:
  assumes "cq_run mem cap owner E D n q" and "cap < 2 ^ 60" and "n < 2 ^ 60" and "valid_id tid"
  shows "\<exists>r q'. get_or_add_implicit_producer mem tid q = Some (r, q') \<and> inj_on owner (dom owner) \<and>
    (if owner tid = None then case r of None \<Rightarrow> \<not> (\<forall>k. mem k) | Some v \<Rightarrow> v \<notin> ran owner else r = owner tid)"
proof -
  obtain cs where inv: "run_inv mem owner E D n q cs"
    using cq_run_inv [OF assms(1-3)] by (elim exE)
  then have thr: "threads_ok owner q" and h: "unat (hashCount q) < 2 ^ 60"
    using assms(3) by (auto simp: run_inv_def contents_def)
  then have inj: "inj_on owner (dom owner)"
    by (simp add: threads_ok_def owners_ok_def)
  obtain r q' where r: "get_or_add_implicit_producer mem tid q = Some (r, q')"
      "case r of None \<Rightarrow> threads_ok owner q' \<and> owner tid = None \<and> \<not> (\<forall>n. mem n)
       | Some v \<Rightarrow> threads_ok (owner(tid \<mapsto> v)) q' \<and> (if owner tid = None then v \<notin> ran owner else owner tid = Some v)"
    using get_or_add_spec [OF thr h assms(4)] by blast
  then show ?thesis
    using inj by (cases r) auto
qed

text \<open>
  Enqueuing succeeds while there is memory. In every such state in which no allocation has failed or fails, \<open>enqueue\<close> returns true.
\<close>

theorem cq_enqueue_succeeds:
  assumes "cq_run (\<lambda>_. True) cap owner E D n q" and "cap < 2 ^ 60" and "n < 2 ^ 60" and "valid_id tid"
  shows "\<exists>q'. cq_enqueue (\<lambda>_. True) tid x q = Some (True, q')"
proof -
  obtain cs where inv: "run_inv (\<lambda>_. True) owner E D n q cs"
    using cq_run_inv [OF assms(1-3)] by (elim exE)
  then have con: "contents q owner cs" and h: "unat (hashCount q) < 2 ^ 60" and idx: "indexed q"
      and len: "length (D v) + length (cs v) \<le> n" for v
    using assms(3) by (auto simp: run_inv_def)
  have "length (cs v) + BLOCK_SIZE < 2 ^ 63" for v
    using add_leD2 [OF len [of v]] assms(3) by (simp add: BLOCK_SIZE_def)
  moreover obtain r ok q' where "inner_enqueue (\<lambda>_. True) True tid x q = Some (ok, q')" "r \<noteq> None"
      "\<forall>v. r = Some v \<longrightarrow> ok \<or> 2 ^ 63 \<le> length (cs v) + BLOCK_SIZE"
    using enqueue_contents [OF con h assms(4), where mem = "\<lambda>_. True" and canAlloc = True and x = x] idx
    by (auto split: option.splits)
  ultimately show ?thesis
    unfolding cq_enqueue_def by (auto simp: not_less [symmetric])
qed

text \<open>
  C8. The queue never follows a dangling pointer and never gets stuck. In every state that a run of fewer than 2^60 enqueues leads to, an enqueue by
  any thread, with or without leave to allocate and whatever allocations fail, a dequeue and the exit of any thread that has a
  producer return, and lead to such a state again.
\<close>

theorem cq_memory_safe:
  assumes "cq_run mem cap owner E D n q" and "cap < 2 ^ 60" and "n < 2 ^ 60"
  shows "(valid_id tid \<longrightarrow> (\<exists>ok q' owner' E'. inner_enqueue mem canAlloc tid x q = Some (ok, q') \<and> cq_run mem cap owner' E' D (Suc n) q')) \<and>
    (\<exists>r q' D'. cq_try_dequeue q = Some (r, q') \<and> cq_run mem cap owner E D' n q') \<and>
    (owner tid = Some v \<longrightarrow> (\<exists>q'. implicit_producer_thread_exited tid v q = Some q' \<and> cq_run mem cap (owner(tid := None)) E D n q'))"
proof (intro conjI impI)
  obtain cs where "run_inv mem owner E D n q cs"
    using cq_run_inv [OF assms] by (elim exE)
  then have con: "contents q owner cs" and thr: "threads_ok owner q" and h: "unat (hashCount q) < 2 ^ 60"
    using assms(3) by (auto simp: run_inv_def contents_def)
  show "\<exists>ok q' owner' E'. inner_enqueue mem canAlloc tid x q = Some (ok, q') \<and> cq_run mem cap owner' E' D (Suc n) q'" if tid: "valid_id tid"
  proof -
    obtain r q1 ok q' where "get_or_add_implicit_producer mem tid q = Some (r, q1)" "inner_enqueue mem canAlloc tid x q = Some (ok, q')"
      using enqueue_contents [OF con h tid, where mem = mem and canAlloc = canAlloc and x = x] by (elim exE conjE) (rule that)
    with cq_run.Enqueue [OF assms(1) tid this] show ?thesis
      by (intro exI conjI)
  qed
  show "\<exists>r q' D'. cq_try_dequeue q = Some (r, q') \<and> cq_run mem cap owner E D' n q'"
    using try_dequeue_contents [OF con]
  proof (elim disjE exE conjE)
    assume "cq_try_dequeue q = Some (None, q)"
    with cq_run.Dequeue_Empty [OF assms(1) this] show ?thesis
      by (intro exI conjI)
  next
    fix v x xs q' assume d: "v < length (producers q)" "cq_try_dequeue q = Some (Some x, q')"
      "\<forall>i < length (producers q). headIndex (producers q' ! i) \<noteq> headIndex (producers q ! i) \<longleftrightarrow> i = v"
    then have "headIndex (producers q' ! v) \<noteq> headIndex (producers q ! v)"
      by blast
    with cq_run.Dequeue [OF assms(1) d(2,1) this] d(2) show ?thesis
      by (intro exI conjI)
  qed
  show "\<exists>q'. implicit_producer_thread_exited tid v q = Some q' \<and> cq_run mem cap (owner(tid := None)) E D n q'" if "owner tid = Some v"
    using thread_exited_spec [OF thr that, of mem] cq_run.Exit [OF assms(1) that] by blast
qed

subsection \<open>A run of one enqueue\<close>

lemma sample_cq_run:
  "\<exists>owner E q v. cq_run (\<lambda>_. True) 64 owner E (\<lambda>_. []) 1 q \<and> owner 7 = Some v \<and> E v = [42 :: nat]"
proof -
  let ?q = "new_queue (\<lambda>_. True) 64 :: nat queue"
  have "run_inv (\<lambda>_. True) Map.empty (\<lambda>_. []) (\<lambda>_. []) 0 ?q (\<lambda>_. [])"
    by (rule new_queue_inv) simp
  then have con: "contents ?q Map.empty (\<lambda>_. [])" and h: "unat (hashCount ?q) < 2 ^ 60" and idx: "indexed ?q"
    by (auto simp: run_inv_def)
  have tid: "valid_id 7"
    by (simp add: valid_id_def invalid_thread_id_def invalid_thread_id2_def)
  obtain r q1 ok q' where e: "get_or_add_implicit_producer (\<lambda>_. True) 7 ?q = Some (r, q1)"
      "inner_enqueue (\<lambda>_. True) True 7 42 ?q = Some (ok, q')" "r \<noteq> None" "ok"
    using enqueue_contents [OF con h tid, where mem = "\<lambda>_. True" and canAlloc = True and x = 42] idx
    by (auto simp: BLOCK_SIZE_def split: option.splits)
  then obtain v where "r = Some v"
    by blast
  then have "cq_run (\<lambda>_. True) 64 (Map.empty(7 \<mapsto> v)) ((\<lambda>_. [])(v := [42])) (\<lambda>_. []) 1 q'"
    using cq_run.Enqueue [OF cq_run.Start tid e(1,2)] e(4) by simp
  then show ?thesis
    by (intro exI [of _ "Map.empty(7 \<mapsto> v)"] exI [of _ "(\<lambda>_. [])(v := [42])"] exI [of _ q'] exI [of _ v]) simp
qed

theorem cq_run_fifo_witness:
  "\<exists>owner E q r q'. cq_run (\<lambda>_. True) 64 owner E (\<lambda>_. []) 1 q \<and> (\<exists>v. E v = [42 :: nat]) \<and> cq_try_dequeue q = Some (r, q') \<and> r \<noteq> None"
proof -
  obtain owner E q v where run: "cq_run (\<lambda>_. True) 64 owner E (\<lambda>_. []) 1 q" and v: "E v = [42 :: nat]"
    using sample_cq_run by blast
  moreover from v have "(\<lambda>_. []) \<noteq> E"
    by auto
  ultimately show ?thesis
    using cq_run_fifo [OF run] by fastforce
qed

theorem cq_producers_distinct_witness:
  "\<exists>owner E q v q'. cq_run (\<lambda>_. True) 64 owner E (\<lambda>_ :: nat. [] :: nat list) 1 q \<and> owner 7 = Some v \<and>
    get_or_add_implicit_producer (\<lambda>_. True) 7 q = Some (Some v, q')"
proof -
  obtain owner E q v where run: "cq_run (\<lambda>_. True) 64 owner E (\<lambda>_ :: nat. [] :: nat list) 1 q" "owner 7 = Some v"
    using sample_cq_run by blast
  then show ?thesis
    using cq_producers_distinct [OF run(1), of 7]
    by (fastforce simp: valid_id_def invalid_thread_id_def invalid_thread_id2_def)
qed

theorem cq_enqueue_succeeds_witness:
  "\<exists>owner E q q'. cq_run (\<lambda>_. True) 64 owner E (\<lambda>_ :: nat. [] :: nat list) 1 q \<and> cq_enqueue (\<lambda>_. True) 9 43 q = Some (True, q')"
proof -
  obtain owner E q where run: "cq_run (\<lambda>_. True) 64 owner E (\<lambda>_ :: nat. [] :: nat list) 1 q"
    using sample_cq_run by blast
  then show ?thesis
    using cq_enqueue_succeeds [OF run, of 9 43]
    by (fastforce simp: valid_id_def invalid_thread_id_def invalid_thread_id2_def)
qed

theorem cq_memory_safe_witness:
  "\<exists>owner E q ok q' v q''. cq_run (\<lambda>_. True) 64 owner E (\<lambda>_ :: nat. [] :: nat list) 1 q \<and>
    inner_enqueue (\<lambda>_. True) False 9 43 q = Some (ok, q') \<and> owner 7 = Some v \<and> implicit_producer_thread_exited 7 v q = Some q''"
proof -
  obtain owner E q v where run: "cq_run (\<lambda>_. True) 64 owner E (\<lambda>_ :: nat. [] :: nat list) 1 q" and v: "owner 7 = Some v"
    using sample_cq_run by blast
  have "valid_id 9"
    by (simp add: valid_id_def invalid_thread_id_def invalid_thread_id2_def)
  then obtain ok q' where "inner_enqueue (\<lambda>_. True) False 9 43 q = Some (ok, q')"
    using cq_memory_safe [OF run, of 9 False 43 v] by auto
  moreover obtain q'' where "implicit_producer_thread_exited 7 v q = Some q''"
    using cq_memory_safe [OF run, of 7 False 43 v] v by auto
  ultimately show ?thesis
    using run v by blast
qed

end
