(* ===== verification/Cq_Blocking.thy ===== *)
theory Cq_Blocking
  imports Cq_Runs
begin

text \<open>
  The queue of a core thread (\<open>lib/concurrentqueue/blockingconcurrentqueue.h\<close>): a concurrent queue with a semaphore that
  counts its elements. The semaphore is not part of the sources; what the queue uses of it is the record of its operations, and
  \<open>semaphore_laws\<close> says what its documentation promises. The loops that dequeue after the semaphore was taken may run for ever in
  principle, so they are partial.
\<close>

subsection \<open>The semaphore\<close>

record 's semaphore_ops =
  sema_init :: 's
  signal :: "'s \<Rightarrow> 's"
  tryWait :: "'s \<Rightarrow> bool \<times> 's"
  wait_usecs :: "int \<Rightarrow> 's \<Rightarrow> bool \<times> 's"
  availableApprox :: "'s \<Rightarrow> u64"

text \<open>The count goes up with a signal and down with a successful wait, and a wait that does not block for ever (a
  negative time limit means none) succeeds when the count is positive.\<close>

definition semaphore_laws :: "'s semaphore_ops \<Rightarrow> ('s \<Rightarrow> nat) \<Rightarrow> bool" where
  "semaphore_laws S count \<longleftrightarrow>
     count (sema_init S) = 0 \<and> (\<forall>s. count (signal S s) = Suc (count s)) \<and>
     (\<forall>s. fst (tryWait S s) = (0 < count s) \<and> count (snd (tryWait S s)) = count s - 1) \<and>
     (\<forall>t s. 0 \<le> t \<longrightarrow> fst (wait_usecs S t s) = (0 < count s) \<and> count (snd (wait_usecs S t s)) = count s - 1) \<and>
     (\<forall>s. availableApprox S s = word_of_nat (count s))"

subsection \<open>The queue\<close>

record ('a, 's) blocking_queue =
  inner :: "'a queue"
  sema :: 's

text \<open>\<open>None\<close> stands for the exception \<open>std::bad_alloc\<close>.\<close>

definition new_blocking_queue :: "'s semaphore_ops \<Rightarrow> (nat \<Rightarrow> bool) \<Rightarrow> nat \<Rightarrow> ('a, 's) blocking_queue option" where
  "new_blocking_queue S mem cap =
     (let q = new_queue mem cap; (ok, p) = allocate mem (q_pool q)
      in if ok then Some \<lparr>inner = q\<lparr>q_pool := p\<rparr>, sema = sema_init S\<rparr> else None)"

definition bq_signalled :: "'s semaphore_ops \<Rightarrow> 's \<Rightarrow> bool \<times> 'a queue \<Rightarrow> bool \<times> ('a, 's) blocking_queue" where
  "bq_signalled S s r = (fst r, \<lparr>inner = snd r, sema = if fst r then signal S s else s\<rparr>)"

definition bq_enqueue ::
  "'s semaphore_ops \<Rightarrow> (nat \<Rightarrow> bool) \<Rightarrow> u64 \<Rightarrow> 'a \<Rightarrow> ('a, 's) blocking_queue \<Rightarrow> (bool \<times> ('a, 's) blocking_queue) option" where
  "bq_enqueue S mem tid x bq = map_option (bq_signalled S (sema bq)) (cq_enqueue mem tid x (inner bq))"

definition bq_try_enqueue ::
  "'s semaphore_ops \<Rightarrow> (nat \<Rightarrow> bool) \<Rightarrow> u64 \<Rightarrow> 'a \<Rightarrow> ('a, 's) blocking_queue \<Rightarrow> (bool \<times> ('a, 's) blocking_queue) option" where
  "bq_try_enqueue S mem tid x bq = map_option (bq_signalled S (sema bq)) (cq_try_enqueue mem tid x (inner bq))"

partial_function (option) dequeue_loop :: "'a queue \<Rightarrow> ('a \<times> 'a queue) option" where
  "dequeue_loop q =
     do {
       (r, q) \<leftarrow> cq_try_dequeue q;
       (case r of Some x \<Rightarrow> Some (x, q) | None \<Rightarrow> dequeue_loop q)
     }"

definition bq_dequeue_if :: "bool \<times> 's \<Rightarrow> ('a, 's) blocking_queue \<Rightarrow> ('a option \<times> ('a, 's) blocking_queue) option" where
  "bq_dequeue_if w bq =
     (if fst w then do {
        (x, q) \<leftarrow> dequeue_loop (inner bq);
        Some (Some x, \<lparr>inner = q, sema = snd w\<rparr>)
      } else Some (None, bq\<lparr>sema := snd w\<rparr>))"

definition bq_try_dequeue :: "'s semaphore_ops \<Rightarrow> ('a, 's) blocking_queue \<Rightarrow> ('a option \<times> ('a, 's) blocking_queue) option" where
  "bq_try_dequeue S bq = bq_dequeue_if (tryWait S (sema bq)) bq"

definition wait_dequeue_timed ::
  "'s semaphore_ops \<Rightarrow> int \<Rightarrow> ('a, 's) blocking_queue \<Rightarrow> ('a option \<times> ('a, 's) blocking_queue) option" where
  "wait_dequeue_timed S timeout_usecs bq = bq_dequeue_if (wait_usecs S timeout_usecs (sema bq)) bq"

definition bq_size_approx :: "'s semaphore_ops \<Rightarrow> ('a, 's) blocking_queue \<Rightarrow> u64" where
  "bq_size_approx S bq = availableApprox S (sema bq)"

subsection \<open>The number of elements\<close>

definition elements_left :: "(nat \<Rightarrow> 'a list) \<Rightarrow> nat" where
  "elements_left cs = (\<Sum>i | cs i \<noteq> []. length (cs i))"

lemma elements_left_superset: "finite A \<Longrightarrow> {i. cs i \<noteq> []} \<subseteq> A \<Longrightarrow> elements_left cs = (\<Sum>i \<in> A. length (cs i))"
  unfolding elements_left_def by (rule sum.mono_neutral_left) auto

lemma elements_left_update:
  assumes fin: "finite {i. cs i \<noteq> []}"
  shows "elements_left (cs(v := ys)) + length (cs v) = elements_left cs + length ys"
proof -
  let ?A = "insert v {i. cs i \<noteq> []}"
  have "elements_left cs = length (cs v) + (\<Sum>i \<in> ?A - {v}. length (cs i))"
    using fin by (subst elements_left_superset [of ?A]) (auto simp: sum.remove [of ?A v])
  moreover have "elements_left (cs(v := ys)) = length ys + (\<Sum>i \<in> ?A - {v}. length (cs i))"
    using fin by (subst elements_left_superset [of ?A]) (auto simp: sum.remove [of ?A v])
  ultimately show ?thesis
    by simp
qed

lemma elements_left_positive:
  assumes "finite {i. cs i \<noteq> []}"
  shows "0 < elements_left cs \<longleftrightarrow> (\<exists>v. cs v \<noteq> [])"
  using assms by (auto simp: elements_left_def sum_eq_0_iff neq0_conv [symmetric] simp del: neq0_conv)

lemma contents_support:
  assumes "contents q owner cs"
  shows "{i. cs i \<noteq> []} \<subseteq> {..<length (producers q)}"
  using assms by (force simp: contents_def data_ok_def not_le [symmetric])

lemma contents_total:
  assumes "contents q owner cs"
  shows "finite {i. cs i \<noteq> []}" "cq_size_approx q = word_of_nat (elements_left cs)"
  using finite_subset [OF contents_support [OF assms]] size_contents [OF assms] elements_left_superset [OF _ contents_support [OF assms]]
  by simp_all

subsection \<open>Runs\<close>

text \<open>A run of the queue, with what has happened as for the queue inside. The consumers wait with a time limit or not at all.\<close>

definition enqueues ::
  "'s semaphore_ops \<Rightarrow> (nat \<Rightarrow> bool) \<Rightarrow> u64 \<Rightarrow> 'a \<Rightarrow> ('a, 's) blocking_queue \<Rightarrow> (bool \<times> ('a, 's) blocking_queue) option \<Rightarrow> bool" where
  "enqueues S mem tid x bq r \<longleftrightarrow> r = bq_enqueue S mem tid x bq \<or> r = bq_try_enqueue S mem tid x bq"

definition dequeues :: "'s semaphore_ops \<Rightarrow> ('a, 's) blocking_queue \<Rightarrow> ('a option \<times> ('a, 's) blocking_queue) option \<Rightarrow> bool" where
  "dequeues S bq r \<longleftrightarrow> r = bq_try_dequeue S bq \<or> (\<exists>t \<ge> 0. r = wait_dequeue_timed S t bq)"

inductive bq_run :: "'s semaphore_ops \<Rightarrow> (nat \<Rightarrow> bool) \<Rightarrow> nat \<Rightarrow> (u64 \<rightharpoonup> nat) \<Rightarrow> (nat \<Rightarrow> 'a list) \<Rightarrow> (nat \<Rightarrow> 'a list) \<Rightarrow> nat \<Rightarrow>
    ('a, 's) blocking_queue \<Rightarrow> bool" for S mem cap where
  Bq_Start: "new_blocking_queue S mem cap = Some bq \<Longrightarrow> bq_run S mem cap Map.empty (\<lambda>_. []) (\<lambda>_. []) 0 bq"
| Bq_Enqueue: "bq_run S mem cap owner E D n bq \<Longrightarrow> valid_id tid \<Longrightarrow>
    get_or_add_implicit_producer mem tid (inner bq) = Some (r, q1) \<Longrightarrow> enqueues S mem tid x bq (Some (ok, bq')) \<Longrightarrow>
    bq_run S mem cap (case r of None \<Rightarrow> owner | Some v \<Rightarrow> owner(tid \<mapsto> v))
      (case r of None \<Rightarrow> E | Some v \<Rightarrow> if ok then E(v := E v @ [x]) else E) D (Suc n) bq'"
| Bq_Dequeue: "bq_run S mem cap owner E D n bq \<Longrightarrow> dequeues S bq (Some (Some x, bq')) \<Longrightarrow> i < length (producers (inner bq)) \<Longrightarrow>
    headIndex (producers (inner bq') ! i) \<noteq> headIndex (producers (inner bq) ! i) \<Longrightarrow> bq_run S mem cap owner E (D(i := D i @ [x])) n bq'"
| Bq_Dequeue_Empty: "bq_run S mem cap owner E D n bq \<Longrightarrow> dequeues S bq (Some (None, bq')) \<Longrightarrow> bq_run S mem cap owner E D n bq'"
| Bq_Exit: "bq_run S mem cap owner E D n bq \<Longrightarrow> owner tid = Some v \<Longrightarrow> implicit_producer_thread_exited tid v (inner bq) = Some q' \<Longrightarrow>
    bq_run S mem cap (owner(tid := None)) E D n (bq\<lparr>inner := q'\<rparr>)"

definition bq_inv where
  "bq_inv count mem owner E D n bq cs \<longleftrightarrow> run_inv mem owner E D n (inner bq) cs \<and> count (sema bq) = elements_left cs \<and> elements_left cs \<le> n"

text \<open>The queue counts in its semaphore exactly the elements that are left, so the loop after a successful wait ends at its first attempt.\<close>

lemma dequeue_loop_first: "cq_try_dequeue q = Some (Some x, q') \<Longrightarrow> dequeue_loop q = Some (x, q')"
  by (subst dequeue_loop.simps) simp

lemma dequeues_wait:
  assumes "semaphore_laws S count" and "dequeues S bq r"
  shows "\<exists>w. r = bq_dequeue_if w bq \<and> fst w = (0 < count (sema bq)) \<and> count (snd w) = count (sema bq) - 1"
  using assms unfolding dequeues_def bq_try_dequeue_def wait_dequeue_timed_def semaphore_laws_def by blast

lemma dequeues_spec:
  assumes laws: "semaphore_laws S count" and inv: "bq_inv count mem owner E D n bq cs" and deq: "dequeues S bq r"
  shows "(\<forall>v. cs v = []) \<and> (\<exists>bq'. r = Some (None, bq') \<and> bq_inv count mem owner E D n bq' cs) \<or>
    (\<exists>v x xs bq'. v < length (producers (inner bq)) \<and> cs v = x # xs \<and> r = Some (Some x, bq') \<and>
      bq_inv count mem owner E (D(v := D v @ [x])) n bq' (cs(v := xs)) \<and> Suc (elements_left (cs(v := xs))) = elements_left cs \<and>
      (\<forall>i < length (producers (inner bq)). headIndex (producers (inner bq') ! i) \<noteq> headIndex (producers (inner bq) ! i) \<longleftrightarrow> i = v))"
proof -
  have run: "run_inv mem owner E D n (inner bq) cs" and con: "contents (inner bq) owner cs" and count: "count (sema bq) = elements_left cs"
      and left: "elements_left cs \<le> n"
    using inv by (auto simp: bq_inv_def run_inv_def)
  note fin = contents_total(1) [OF con]
  note pos = elements_left_positive [OF fin]
  obtain w where w: "r = bq_dequeue_if w bq" "fst w \<longleftrightarrow> 0 < elements_left cs" "count (snd w) = elements_left cs - 1"
    using dequeues_wait [OF laws deq] count by auto
  show ?thesis
  proof (cases "\<forall>v. cs v = []")
    case True
    then have "elements_left cs = 0"
      using pos by blast
    then have "r = Some (None, bq\<lparr>sema := snd w\<rparr>) \<and> bq_inv count mem owner E D n (bq\<lparr>sema := snd w\<rparr>) cs"
      using w run left by (simp add: bq_inv_def bq_dequeue_if_def)
    then show ?thesis
      using True by blast
  next
    case False
    then obtain v x xs q' where d: "v < length (producers (inner bq))" "cs v = x # xs" "cq_try_dequeue (inner bq) = Some (Some x, q')"
        "contents q' owner (cs(v := xs))" "hashCount q' = hashCount (inner bq)" "indexed (inner bq) \<longrightarrow> indexed q'"
        "\<forall>i < length (producers (inner bq)). headIndex (producers q' ! i) \<noteq> headIndex (producers (inner bq) ! i) \<longleftrightarrow> i = v"
      using try_dequeue_contents [OF con] by blast
    have one: "Suc (elements_left (cs(v := xs))) = elements_left cs"
      using elements_left_update [OF fin, of v xs] d(2) by simp
    let ?bq = "\<lparr>inner = q', sema = snd w\<rparr>"
    have r: "r = Some (Some x, ?bq)"
      using w pos False dequeue_loop_first [OF d(3)] by (auto simp: bq_dequeue_if_def)
    have "run_inv mem owner E (D(v := D v @ [x])) n q' (cs(v := xs))"
      using run d by (auto simp: run_inv_def)
    then have "bq_inv count mem owner E (D(v := D v @ [x])) n ?bq (cs(v := xs))"
      using one w(3) left unfolding bq_inv_def blocking_queue.simps by linarith
    then show ?thesis
      using d(1,2,7) r one by (intro disjI2 exI [of _ v] exI [of _ x] exI [of _ xs] exI [of _ ?bq]) simp
  qed
qed

lemma new_blocking_queue_inv:
  fixes bq :: "('a, 's) blocking_queue"
  assumes "semaphore_laws S count" and "cap < 2 ^ 60" and "new_blocking_queue S mem cap = Some bq"
  shows "bq_inv count mem Map.empty (\<lambda>_. []) (\<lambda>_. []) 0 bq (\<lambda>_. [])"
proof -
  let ?q = "new_queue mem cap :: 'a queue"
  have run: "run_inv mem Map.empty (\<lambda>_. []) (\<lambda>_. []) 0 ?q (\<lambda>_. [])"
    by (rule new_queue_inv [OF assms(2)])
  have bq: "inner bq = ?q\<lparr>q_pool := (q_pool ?q)\<lparr>allocations := allocations (q_pool ?q) + 1\<rparr>\<rparr>" "sema bq = sema_init S"
    using assms(3) by (auto simp: new_blocking_queue_def allocate_def Let_def split: if_splits)
  have "run_inv mem Map.empty (\<lambda>_. []) (\<lambda>_. []) 0 (inner bq) (\<lambda>_. [])"
    using run unfolding bq
    by (simp add: run_inv_def contents_def threads_ok_def data_ok_def indexed_def holds_allocations pool_inv_allocations)
  then show ?thesis
    using assms(1) bq by (simp add: bq_inv_def semaphore_laws_def elements_left_def)
qed

lemma no_producer: "get_or_add_implicit_producer mem tid q = Some (None, q1) \<Longrightarrow> inner_enqueue mem canAlloc tid x q = Some (False, q1)"
  by (simp add: inner_enqueue_def)

lemma signalled_inner:
  assumes "Some (ok, bq') = map_option (bq_signalled S s) r"
  shows "r = Some (ok, inner bq') \<and> sema bq' = (if ok then signal S s else s)"
  using assms by (cases r) (auto simp: bq_signalled_def)

lemma enqueues_inner:
  assumes "enqueues S mem tid x bq (Some (ok, bq'))"
  shows "\<exists>canAlloc. inner_enqueue mem canAlloc tid x (inner bq) = Some (ok, inner bq') \<and> sema bq' = (if ok then signal S (sema bq) else sema bq)"
  using assms unfolding enqueues_def bq_enqueue_def bq_try_enqueue_def cq_enqueue_def cq_try_enqueue_def
  by (elim disjE) (drule signalled_inner, erule exI)+

lemma elements_left_enqueued:
  assumes run: "run_inv mem owner E D n q cs"
    and run': "run_inv mem owner' (case r of None \<Rightarrow> E | Some v \<Rightarrow> if ok then E(v := E v @ [x]) else E) D n' q' cs'"
    and none: "r = None \<longrightarrow> \<not> ok"
  shows "elements_left cs' = (if ok then Suc (elements_left cs) else elements_left cs)"
proof -
  have fin: "finite {i. cs i \<noteq> []}"
    using run contents_total(1) by (auto simp: run_inv_def)
  have split: "\<forall>i. E i = D i @ cs i"
    using run by (simp add: run_inv_def)
  show ?thesis
  proof (cases "ok")
    case False
    then have "cs' = cs"
      using run_inv_left [OF run] run_inv_left [OF run'] by (auto split: option.splits)
    then show ?thesis
      using False by simp
  next
    case True
    then obtain v where "r = Some v"
      using none by auto
    then have "cs' = cs(v := cs v @ [x])"
      using run_inv_left [OF run'] split True by auto
    then show ?thesis
      using elements_left_update [OF fin, of v "cs v @ [x]"] True by simp
  qed
qed

lemma bq_inv_enqueue:
  assumes laws: "semaphore_laws S count" and inv: "bq_inv count mem owner E D n bq cs" and n: "n < 2 ^ 60" and tid: "valid_id tid"
    and get: "get_or_add_implicit_producer mem tid (inner bq) = Some (r, q1)" and enq: "enqueues S mem tid x bq (Some (ok, bq'))"
  shows "\<exists>cs'. bq_inv count mem (case r of None \<Rightarrow> owner | Some v \<Rightarrow> owner(tid \<mapsto> v))
      (case r of None \<Rightarrow> E | Some v \<Rightarrow> if ok then E(v := E v @ [x]) else E) D (Suc n) bq' cs'"
proof -
  have run: "run_inv mem owner E D n (inner bq) cs" and count: "count (sema bq) = elements_left cs"
    using inv by (auto simp: bq_inv_def)
  obtain canAlloc where i: "inner_enqueue mem canAlloc tid x (inner bq) = Some (ok, inner bq')"
      "sema bq' = (if ok then signal S (sema bq) else sema bq)"
    using enqueues_inner [OF enq] by (elim exE conjE)
  obtain cs' where run': "run_inv mem (case r of None \<Rightarrow> owner | Some v \<Rightarrow> owner(tid \<mapsto> v))
      (case r of None \<Rightarrow> E | Some v \<Rightarrow> if ok then E(v := E v @ [x]) else E) D (Suc n) (inner bq') cs'"
    using run_inv_enqueue [OF run n tid get i(1)] by (elim exE)
  have "r = None \<longrightarrow> \<not> ok"
    using no_producer [of mem tid "inner bq" q1 canAlloc x] get i(1) by auto
  from elements_left_enqueued [OF run run' this] have "count (sema bq') = elements_left cs'" "elements_left cs' \<le> Suc n"
    using laws count i(2) inv by (simp_all add: semaphore_laws_def bq_inv_def)
  then show ?thesis
    using run' by (intro exI [of _ cs']) (simp add: bq_inv_def)
qed

lemma bq_run_inv:
  assumes "bq_run S mem cap owner E D n bq" and "semaphore_laws S count" and "cap < 2 ^ 60" and "n < 2 ^ 60"
  shows "\<exists>cs. bq_inv count mem owner E D n bq cs"
  using assms
proof (induction rule: bq_run.induct)
  case (Bq_Start bq)
  show ?case
    by (rule exI, rule new_blocking_queue_inv [OF Bq_Start.prems(1,2) Bq_Start.hyps])
next
  case (Bq_Enqueue owner E D n bq tid r q1 x ok bq')
  then have "\<exists>cs. bq_inv count mem owner E D n bq cs" and n: "n < 2 ^ 60"
    by simp_all
  then obtain cs where "bq_inv count mem owner E D n bq cs"
    by (elim exE)
  from bq_inv_enqueue [OF Bq_Enqueue.prems(1) this n Bq_Enqueue.hyps(2-4)] show ?case .
next
  case (Bq_Dequeue owner E D n bq x bq' i)
  obtain cs where inv: "bq_inv count mem owner E D n bq cs"
    using Bq_Dequeue.IH [OF Bq_Dequeue.prems] by (elim exE)
  show ?case
    using dequeues_spec [OF Bq_Dequeue.prems(1) inv Bq_Dequeue.hyps(2)] Bq_Dequeue.hyps(3,4)
    by (auto simp del: fun_upd_apply)
next
  case (Bq_Dequeue_Empty owner E D n bq bq')
  obtain cs where inv: "bq_inv count mem owner E D n bq cs"
    using Bq_Dequeue_Empty.IH [OF Bq_Dequeue_Empty.prems] by (elim exE)
  show ?case
    using dequeues_spec [OF Bq_Dequeue_Empty.prems(1) inv Bq_Dequeue_Empty.hyps(2)] by auto
next
  case (Bq_Exit owner E D n bq tid v q')
  obtain cs where inv: "bq_inv count mem owner E D n bq cs"
    using Bq_Exit.IH [OF Bq_Exit.prems] by (elim exE)
  then have "run_inv mem owner E D n (inner bq) cs"
    by (simp add: bq_inv_def)
  from run_inv_exit [OF this Bq_Exit.hyps(2,3)] show ?case
    using inv by (intro exI [of _ cs]) (simp add: bq_inv_def del: fun_upd_apply)
qed

text \<open>An enqueue returns, and succeeds while there is memory.\<close>

lemma bq_enqueue_spec:
  assumes laws: "semaphore_laws S count" and inv: "bq_inv count mem owner E D n bq cs" and n: "n < 2 ^ 60" and tid: "valid_id tid"
  shows "\<exists>r ok bq'. bq_enqueue S mem tid x bq = Some (ok, bq') \<and> ((\<forall>k. mem k) \<longrightarrow> ok) \<and>
    (case r of
       None \<Rightarrow> \<not> ok \<and> bq_inv count mem owner E D (Suc n) bq' cs
     | Some v \<Rightarrow> (owner tid = None \<or> owner tid = Some v) \<and>
         bq_inv count mem (owner(tid \<mapsto> v)) (if ok then E(v := E v @ [x]) else E) D (Suc n) bq' (if ok then cs(v := cs v @ [x]) else cs))"
proof -
  have run: "run_inv mem owner E D n (inner bq) cs"
    using inv by (simp add: bq_inv_def)
  then have con: "contents (inner bq) owner cs" and h: "unat (hashCount (inner bq)) < 2 ^ 60" and idx: "(\<forall>k. mem k) \<longrightarrow> indexed (inner bq)"
      and len: "length (D v) + length (cs v) \<le> n" for v
    using n by (auto simp: run_inv_def)
  have short: "length (cs v) + BLOCK_SIZE < 2 ^ 63" for v
    using add_leD2 [OF len [of v]] n by (simp add: BLOCK_SIZE_def)
  obtain r q1 ok q' where e: "get_or_add_implicit_producer mem tid (inner bq) = Some (r, q1)" "inner_enqueue mem True tid x (inner bq) = Some (ok, q')"
      "case r of
         None \<Rightarrow> \<not> ok \<and> contents q' owner cs \<and> owner tid = None \<and> \<not> (\<forall>n. mem n)
       | Some v \<Rightarrow> (if owner tid = None then v \<notin> ran owner else owner tid = Some v) \<and>
           contents q' (owner(tid \<mapsto> v)) (if ok then cs(v := cs v @ [x]) else cs) \<and>
           (ok \<or> \<not> indexed (inner bq) \<or> \<not> True \<or> \<not> (\<forall>n. mem n) \<or> 2 ^ 63 \<le> length (cs v) + BLOCK_SIZE)"
    using enqueue_contents [OF con h tid, where mem = mem and canAlloc = True and x = x] by (elim exE conjE) (rule that)
  let ?bq = "\<lparr>inner = q', sema = if ok then signal S (sema bq) else sema bq\<rparr>"
  have b: "bq_enqueue S mem tid x bq = Some (ok, ?bq)"
    using e(2) by (simp add: bq_enqueue_def cq_enqueue_def bq_signalled_def)
  then have "enqueues S mem tid x bq (Some (ok, ?bq))"
    by (simp add: enqueues_def)
  from bq_inv_enqueue [OF laws inv n tid e(1) this] obtain cs' where
    inv': "bq_inv count mem (case r of None \<Rightarrow> owner | Some v \<Rightarrow> owner(tid \<mapsto> v))
      (case r of None \<Rightarrow> E | Some v \<Rightarrow> if ok then E(v := E v @ [x]) else E) D (Suc n) ?bq cs'"
    by (elim exE)
  have split: "E i = D i @ cs i" for i
    using run by (simp add: run_inv_def)
  have "run_inv mem (case r of None \<Rightarrow> owner | Some v \<Rightarrow> owner(tid \<mapsto> v))
      (case r of None \<Rightarrow> E | Some v \<Rightarrow> if ok then E(v := E v @ [x]) else E) D (Suc n) q' cs'"
    using inv' by (simp add: bq_inv_def)
  from run_inv_left [OF this] have "cs' = (case r of None \<Rightarrow> cs | Some v \<Rightarrow> if ok then cs(v := cs v @ [x]) else cs)"
    using split by (auto split: option.splits)
  moreover have "(\<forall>k. mem k) \<longrightarrow> ok"
    using e(3) idx short by (auto simp: not_less [symmetric] split: option.splits)
  ultimately show ?thesis
    using b e(3) inv' by (intro exI [of _ r] exI [of _ ok] exI [of _ ?bq]) (auto split: option.splits if_splits)
qed

subsection \<open>The properties\<close>

text \<open>
  C9. A core thread that waits for a message gets one exactly when there is one. In every state that fewer than 2^60 enqueues and
  any number of dequeues and thread exits lead to, with a semaphore that keeps its promises, \<open>wait_dequeue_timed\<close> returns, without
  an element exactly when everything put in has been taken out and otherwise with the next element of some producer, and
  \<open>size_approx\<close>, which asks the semaphore, agrees with the size of the queue inside.
\<close>

theorem wait_dequeue_exact:
  assumes "semaphore_laws S count" and "bq_run S mem cap owner E D n bq" and "cap < 2 ^ 60" and "n < 2 ^ 60" and "0 \<le> t"
  shows "\<exists>r bq'. wait_dequeue_timed S t bq = Some (r, bq') \<and> (r = None \<longleftrightarrow> D = E) \<and>
    (\<forall>x. r = Some x \<longrightarrow> (\<exists>i. prefix (D i @ [x]) (E i))) \<and> bq_size_approx S bq = cq_size_approx (inner bq)"
proof -
  obtain cs where inv: "bq_inv count mem owner E D n bq cs"
    using bq_run_inv [OF assms(2,1,3,4)] by (elim exE)
  then have con: "contents (inner bq) owner cs" and split: "\<forall>i. E i = D i @ cs i" and count: "count (sema bq) = elements_left cs"
    by (auto simp: bq_inv_def run_inv_def)
  have size: "bq_size_approx S bq = cq_size_approx (inner bq)"
    using assms(1) count contents_total(2) [OF con] by (simp add: bq_size_approx_def semaphore_laws_def)
  have "dequeues S bq (wait_dequeue_timed S t bq)"
    using assms(5) by (auto simp: dequeues_def)
  from dequeues_spec [OF assms(1) inv this] show ?thesis
  proof (elim disjE exE conjE)
    fix bq' assume "\<forall>v. cs v = []" "wait_dequeue_timed S t bq = Some (None, bq')"
    moreover from this have "D = E"
      using split by auto
    ultimately show ?thesis
      using size by simp
  next
    fix v x xs bq' assume d: "cs v = x # xs" "wait_dequeue_timed S t bq = Some (Some x, bq')"
    then have "E v = (D v @ [x]) @ xs"
      using split by simp
    then have "prefix (D v @ [x]) (E v)" "D \<noteq> E"
      by (metis prefixI) (use \<open>E v = _\<close> in auto)
    then show ?thesis
      using d size by auto
  qed
qed

subsection \<open>A run with a counting semaphore\<close>

definition counting_semaphore :: "nat semaphore_ops" where
  "counting_semaphore =
     \<lparr>sema_init = 0, signal = Suc, tryWait = (\<lambda>n. (0 < n, n - 1)), wait_usecs = (\<lambda>t n. (0 < n, n - 1)), availableApprox = word_of_nat\<rparr>"

lemma counting_semaphore_laws: "semaphore_laws counting_semaphore id"
  by (simp add: semaphore_laws_def counting_semaphore_def)

lemma sample_bq_run:
  "\<exists>owner bq v. bq_run counting_semaphore (\<lambda>_. True) 64 owner ((\<lambda>_. [])(v := [x])) (\<lambda>_. []) 1 bq"
proof -
  obtain bq :: "('a, nat) blocking_queue" where new: "new_blocking_queue counting_semaphore (\<lambda>_. True) 64 = Some bq"
    by (auto simp: new_blocking_queue_def allocate_def Let_def)
  then have "bq_inv id (\<lambda>_. True) Map.empty (\<lambda>_. []) (\<lambda>_. []) 0 bq (\<lambda>_. [])"
    by (intro new_blocking_queue_inv [OF counting_semaphore_laws]) simp_all
  then have con: "contents (inner bq) Map.empty (\<lambda>_. [])" and h: "unat (hashCount (inner bq)) < 2 ^ 60" and idx: "indexed (inner bq)"
    by (auto simp: bq_inv_def run_inv_def)
  have tid: "valid_id 7"
    by (simp add: valid_id_def invalid_thread_id_def invalid_thread_id2_def)
  obtain r q1 ok q' where e: "get_or_add_implicit_producer (\<lambda>_. True) 7 (inner bq) = Some (r, q1)"
      "inner_enqueue (\<lambda>_. True) True 7 x (inner bq) = Some (ok, q')" "r \<noteq> None" "ok"
    using enqueue_contents [OF con h tid, where mem = "\<lambda>_. True" and canAlloc = True and x = x] idx
    by (auto simp: BLOCK_SIZE_def split: option.splits)
  then obtain v where v: "r = Some v"
    by blast
  have "enqueues counting_semaphore (\<lambda>_. True) 7 x bq (Some (True, \<lparr>inner = q', sema = signal counting_semaphore (sema bq)\<rparr>))"
    using e(2,4) by (simp add: enqueues_def bq_enqueue_def cq_enqueue_def bq_signalled_def)
  from bq_run.Bq_Enqueue [OF bq_run.Bq_Start [OF new] tid e(1) this]
  have "bq_run counting_semaphore (\<lambda>_. True) 64 (Map.empty(7 \<mapsto> v)) ((\<lambda>_. [])(v := [x])) (\<lambda>_. []) 1
      \<lparr>inner = q', sema = signal counting_semaphore (sema bq)\<rparr>"
    using v by simp
  then show ?thesis
    by (intro exI)
qed

theorem wait_dequeue_exact_witness:
  "\<exists>owner E bq r bq'. bq_run counting_semaphore (\<lambda>_. True) 64 owner E (\<lambda>_. []) 1 bq \<and> (\<exists>v. E v = [42 :: nat]) \<and>
    wait_dequeue_timed counting_semaphore 50000 bq = Some (r, bq') \<and> r \<noteq> None"
proof -
  obtain owner bq v where run: "bq_run counting_semaphore (\<lambda>_. True) 64 owner ((\<lambda>_. [])(v := [42 :: nat])) (\<lambda>_. []) 1 bq"
    using sample_bq_run [of "42 :: nat"] by (elim exE)
  have "(\<lambda>_. []) \<noteq> (\<lambda>_. [])(v := [42 :: nat])"
    by (auto dest: fun_cong [of _ _ v])
  then have "\<exists>r bq'. wait_dequeue_timed counting_semaphore 50000 bq = Some (r, bq') \<and> r \<noteq> None"
    using wait_dequeue_exact [OF counting_semaphore_laws run, of 50000] by auto
  then show ?thesis
    using run fun_upd_same [of "\<lambda>_. []" v "[42]"] by blast
qed

end
