(* ===== verification/Core_Threads.thy ===== *)
theory Core_Threads
  imports Cq_Blocking Engine
begin

text \<open>
  The core threads (\<open>engine/store.hpp\<close>): tasks are put into the blocking queue of a shard, with a promise for their result or
  without, and the thread of the shard takes them out and runs them until it is told to stop. What a task reads and changes is the
  type variable \<open>'w\<close>.
\<close>

subsection \<open>Messages and promises\<close>

datatype fault = Task_Threw string | Broken_Promise

record ('w, 'r) core_state =
  world :: 'w
  promises :: "nat \<rightharpoonup> fault + 'r"

text \<open>A message holds a task or, as the last one of a shard does, none.\<close>

type_synonym 'c core_message = "('c \<Rightarrow> (fault + unit) \<times> 'c) option"

fun run_message :: "'c core_message \<Rightarrow> 'c \<Rightarrow> 'c" where
  "run_message None st = st"
| "run_message (Some task) st = snd (task st)"

definition promise_task :: "nat \<Rightarrow> ('w \<Rightarrow> (fault + 'r) \<times> 'w) \<Rightarrow> ('w, 'r) core_state core_message" where
  "promise_task p f = Some (\<lambda>st. let (r, w) = f (world st) in (Inr (), st\<lparr>world := w, promises := (promises st)(p \<mapsto> r)\<rparr>))"

definition plain_task :: "('w \<Rightarrow> (fault + unit) \<times> 'w) \<Rightarrow> ('w, 'r) core_state core_message" where
  "plain_task f = Some (\<lambda>st. let (r, w) = f (world st) in (r, st\<lparr>world := w\<rparr>))"

definition submit_to_shard_idx ::
  "'s semaphore_ops \<Rightarrow> (nat \<Rightarrow> bool) \<Rightarrow> u64 \<Rightarrow> nat \<Rightarrow> ('w \<Rightarrow> (fault + 'r) \<times> 'w) \<Rightarrow> (('w, 'r) core_state core_message, 's) blocking_queue \<Rightarrow>
    (bool \<times> (('w, 'r) core_state core_message, 's) blocking_queue) option" where
  "submit_to_shard_idx S mem tid p f bq = bq_enqueue S mem tid (promise_task p f) bq"

definition submit_async ::
  "'s semaphore_ops \<Rightarrow> (nat \<Rightarrow> bool) \<Rightarrow> u64 \<Rightarrow> ('w \<Rightarrow> (fault + unit) \<times> 'w) \<Rightarrow> (('w, 'r) core_state core_message, 's) blocking_queue \<Rightarrow>
    (bool \<times> (('w, 'r) core_state core_message, 's) blocking_queue) option" where
  "submit_async S mem tid f bq = bq_enqueue S mem tid (plain_task f) bq"

subsection \<open>The thread of a shard\<close>

text \<open>One round of the loop waits 50 milliseconds for a message.\<close>

definition core_round :: "'s semaphore_ops \<Rightarrow> ('c core_message, 's) blocking_queue \<Rightarrow> 'c \<Rightarrow> (('c core_message, 's) blocking_queue \<times> 'c) option" where
  "core_round S bq st =
     do {
       (r, bq) \<leftarrow> wait_dequeue_timed S 50000 bq;
       Some (bq, case r of None \<Rightarrow> st | Some msg \<Rightarrow> run_message msg st)
     }"

text \<open>\<open>stop k\<close> is what the \<open>k\<close>-th round reads from the stop flag.\<close>

partial_function (option) core_loop ::
  "'s semaphore_ops \<Rightarrow> (nat \<Rightarrow> bool) \<Rightarrow> nat \<Rightarrow> ('c core_message, 's) blocking_queue \<Rightarrow> 'c \<Rightarrow> (('c core_message, 's) blocking_queue \<times> 'c) option" where
  "core_loop S stop k bq st =
     (if stop k \<and> bq_size_approx S bq = 0 then Some (bq, st)
      else do {
        (bq, st) \<leftarrow> core_round S bq st;
        core_loop S stop (Suc k) bq st
      })"

text \<open>Waiting for a result, while the thread of the shard runs and no other thread submits anything.\<close>

partial_function (option) future_get ::
  "'s semaphore_ops \<Rightarrow> nat \<Rightarrow> (('w, 'r) core_state core_message, 's) blocking_queue \<Rightarrow> ('w, 'r) core_state \<Rightarrow>
    ((fault + 'r) \<times> (('w, 'r) core_state core_message, 's) blocking_queue \<times> ('w, 'r) core_state) option" where
  "future_get S p bq st =
     (case promises st p of
        Some r \<Rightarrow> Some (r, bq, st)
      | None \<Rightarrow> do {
          (bq, st) \<leftarrow> core_round S bq st;
          future_get S p bq st
        })"

text \<open>A task that could not be queued takes its promise with it.\<close>

definition submit_to_shard ::
  "'s semaphore_ops \<Rightarrow> (nat \<Rightarrow> bool) \<Rightarrow> u64 \<Rightarrow> nat \<Rightarrow> ('w \<Rightarrow> (fault + 'r) \<times> 'w) \<Rightarrow>
    (('w, 'r) core_state core_message, 's) blocking_queue \<Rightarrow> ('w, 'r) core_state \<Rightarrow>
    ((fault + 'r) \<times> (('w, 'r) core_state core_message, 's) blocking_queue \<times> ('w, 'r) core_state) option" where
  "submit_to_shard S mem tid p f bq st =
     do {
       (ok, bq) \<leftarrow> submit_to_shard_idx S mem tid p f bq;
       (if ok then future_get S p bq st else Some (Inl Broken_Promise, bq, st))
     }"

text \<open>The destructor of the engine raises the flag of a shard, which its thread sees \<open>late\<close> rounds later, sends an empty message and joins.\<close>

definition stop_shard ::
  "'s semaphore_ops \<Rightarrow> (nat \<Rightarrow> bool) \<Rightarrow> u64 \<Rightarrow> nat \<Rightarrow> ('c core_message, 's) blocking_queue \<Rightarrow> 'c \<Rightarrow> (('c core_message, 's) blocking_queue \<times> 'c) option" where
  "stop_shard S mem tid late bq st =
     do {
       (ok, bq) \<leftarrow> bq_enqueue S mem tid None bq;
       core_loop S (\<lambda>k. late \<le> k) 0 bq st
     }"

declare dequeue_loop.simps [code] core_loop.simps [code] future_get.simps [code]

subsection \<open>Rounds\<close>

lemma core_round_spec:
  assumes laws: "semaphore_laws S cnt" and inv: "bq_inv cnt mem owner E D n bq cs"
  shows "(\<forall>v. cs v = []) \<and> (\<exists>bq'. core_round S bq st = Some (bq', st) \<and> bq_inv cnt mem owner E D n bq' cs) \<or>
    (\<exists>v m ms bq'. cs v = m # ms \<and> core_round S bq st = Some (bq', run_message m st) \<and>
      bq_inv cnt mem owner E (D(v := D v @ [m])) n bq' (cs(v := ms)) \<and> Suc (elements_left (cs(v := ms))) = elements_left cs)"
proof -
  have "dequeues S bq (wait_dequeue_timed S 50000 bq)"
    unfolding dequeues_def by (intro disjI2 exI [of _ 50000]) simp
  from dequeues_spec [OF laws inv this] show ?thesis
  proof (elim disjE exE conjE)
    fix bq' assume "\<forall>v. cs v = []" "wait_dequeue_timed S 50000 bq = Some (None, bq')" "bq_inv cnt mem owner E D n bq' cs"
    then show ?thesis
      by (intro disjI1 conjI exI [of _ bq']) (simp_all add: core_round_def)
  next
    fix v m ms bq' assume "cs v = m # ms" "wait_dequeue_timed S 50000 bq = Some (Some m, bq')"
      "bq_inv cnt mem owner E (D(v := D v @ [m])) n bq' (cs(v := ms))" "Suc (elements_left (cs(v := ms))) = elements_left cs"
    then show ?thesis
      by (intro disjI2 exI [of _ v] exI [of _ m] exI [of _ ms] exI [of _ bq'] conjI) (simp_all add: core_round_def)
  qed
qed

text \<open>The messages of one producer among those that were run, each with the producer it came from.\<close>

definition run_from :: "(nat \<times> 'm) list \<Rightarrow> nat \<Rightarrow> 'm list" where
  "run_from order i = map snd (filter (\<lambda>p. fst p = i) order)"

lemma run_from_simps [simp]:
  "run_from [] i = []" "run_from ((j, m) # order) i = (if j = i then m # run_from order i else run_from order i)"
  by (simp_all add: run_from_def)

definition run_all :: "(nat \<times> 'c core_message) list \<Rightarrow> 'c \<Rightarrow> 'c" where
  "run_all order st = fold (\<lambda>p. run_message (snd p)) order st"

lemma run_all_simps [simp]: "run_all [] st = st" "run_all ((j, m) # order) st = run_all order (run_message m st)"
  by (simp_all add: run_all_def)

lemma nothing_left:
  assumes "bq_inv cnt mem owner E D n bq cs"
  shows "elements_left cs = 0 \<longleftrightarrow> (\<forall>v. cs v = [])"
proof -
  have "contents (inner bq) owner cs"
    using assms by (simp add: bq_inv_def run_inv_def)
  from elements_left_positive [OF contents_total(1) [OF this]] show ?thesis
    by (metis gr0I less_not_refl)
qed

lemma size_zero:
  assumes "semaphore_laws S cnt" and "bq_inv cnt mem owner E D n bq cs" and "n < 2 ^ 60"
  shows "bq_size_approx S bq = 0 \<longleftrightarrow> elements_left cs = 0"
proof -
  have "elements_left cs < 2 ^ 64"
    using assms(2,3) by (simp add: bq_inv_def)
  then have "(word_of_nat (elements_left cs) :: u64) = 0 \<longleftrightarrow> elements_left cs = 0"
    by (auto simp: word_of_nat_eq_0_iff dest: dvd_imp_le)
  then show ?thesis
    using assms(1,2) by (simp add: bq_size_approx_def semaphore_laws_def bq_inv_def)
qed

subsection \<open>The loop ends\<close>

lemma core_loop_drains:
  assumes laws: "semaphore_laws S cnt" and inv: "bq_inv cnt mem owner E D n bq cs" and n: "n < 2 ^ 60" and stop: "\<forall>k \<ge> K. stop k"
  shows "\<exists>order bq'. core_loop S stop k bq st = Some (bq', run_all order st) \<and> (\<forall>i. run_from order i = cs i)"
  using inv
proof (induction "elements_left cs + (K - k)" arbitrary: k bq st D cs rule: less_induct)
  case less
  show ?case
  proof (cases "stop k \<and> bq_size_approx S bq = 0")
    case True
    then have "\<forall>v. cs v = []"
      using size_zero [OF laws less.prems n] nothing_left [OF less.prems] by blast
    moreover have "core_loop S stop k bq st = Some (bq, st)"
      using True by (subst core_loop.simps) simp
    ultimately show ?thesis
      by (intro exI [of _ "[]"]) simp
  next
    case False
    have unfold: "core_loop S stop k bq st = core_round S bq st \<bind> (\<lambda>(bq, st). core_loop S stop (Suc k) bq st)"
      by (subst core_loop.simps) (rule if_not_P [OF False])
    from core_round_spec [OF laws less.prems, of st] show ?thesis
    proof (elim disjE exE conjE)
      fix bq' assume empty: "\<forall>v. cs v = []" and r: "core_round S bq st = Some (bq', st)" and inv': "bq_inv cnt mem owner E D n bq' cs"
      have "\<not> stop k"
        using False empty unfolding size_zero [OF laws less.prems n] nothing_left [OF less.prems] by simp
      then have "k < K"
        using stop not_less by blast
      then show ?thesis
        using less.hyps [OF _ inv', of "Suc k" st] unfolding unfold r by simp
    next
      fix v m ms bq' assume v: "cs v = m # ms" and r: "core_round S bq st = Some (bq', run_message m st)"
        and inv': "bq_inv cnt mem owner E (D(v := D v @ [m])) n bq' (cs(v := ms))" and one: "Suc (elements_left (cs(v := ms))) = elements_left cs"
      have "elements_left (cs(v := ms)) + (K - Suc k) < elements_left cs + (K - k)"
        using one by linarith
      from less.hyps [OF this inv', of "run_message m st"]
      obtain order bq'' where o: "core_loop S stop (Suc k) bq' (run_message m st) = Some (bq'', run_all order (run_message m st))"
          "\<forall>i. run_from order i = (cs(v := ms)) i"
        by (elim exE conjE) (rule that)
      have "core_loop S stop k bq st = Some (bq'', run_all ((v, m) # order) st)" "\<forall>i. run_from ((v, m) # order) i = cs i"
        using o v unfolding unfold r by simp_all
      then show ?thesis
        by blast
    qed
  qed
qed

subsection \<open>Results arrive\<close>

text \<open>A message that leaves a promise alone.\<close>

definition leaves_promise :: "nat \<Rightarrow> ('w, 'r) core_state core_message \<Rightarrow> bool" where
  "leaves_promise p m \<longleftrightarrow> (\<forall>st. promises (run_message m st) p = promises st p)"

lemma promise_task_run:
  "run_message (promise_task p f) st = st\<lparr>world := snd (f (world st)), promises := (promises st)(p \<mapsto> fst (f (world st)))\<rparr>"
  by (simp add: promise_task_def split_def Let_def)

lemma future_get_returns:
  assumes laws: "semaphore_laws S cnt" and inv: "bq_inv cnt mem owner E D n bq cs" and queued: "cs v = ms @ [promise_task p f]"
    and others: "\<forall>i. \<forall>m \<in> set (if i = v then ms else cs i). leaves_promise p m" and unset: "promises st p = None"
  shows "\<exists>order bq'. future_get S p bq st =
      Some (fst (f (world (run_all order st))), bq', run_message (promise_task p f) (run_all order st)) \<and>
    run_from order v = ms \<and> (\<forall>i. prefix (run_from order i) (cs i))"
  using inv queued others unset
proof (induction "elements_left cs" arbitrary: bq st D cs ms rule: less_induct)
  case less
  have unfold: "future_get S p bq st = core_round S bq st \<bind> (\<lambda>(bq, st). future_get S p bq st)"
    using less.prems(4) by (subst future_get.simps) simp
  obtain i m js bq' where i: "cs i = m # js" and r: "core_round S bq st = Some (bq', run_message m st)"
    and inv': "bq_inv cnt mem owner E (D(i := D i @ [m])) n bq' (cs(i := js))" and one: "Suc (elements_left (cs(i := js))) = elements_left cs"
    using core_round_spec [OF laws less.prems(1), of st] less.prems(2) by (metis append_is_Nil_conv not_Cons_self2)
  show ?case
  proof (cases "i = v \<and> ms = []")
    case True
    then have m: "m = promise_task p f"
      using i less.prems(2) by simp
    have "future_get S p bq' (run_message m st) = Some (fst (f (world st)), bq', run_message m st)"
      unfolding m promise_task_run by (subst future_get.simps) simp
    then show ?thesis
      using True unfolding unfold r m by (intro exI [of _ "[]"] exI [of _ bq']) simp
  next
    case False
    define ms' where "ms' = (if i = v then tl ms else ms)"
    have ms': "(cs(i := js)) v = ms' @ [promise_task p f]" "i = v \<longrightarrow> ms = m # ms'" "i \<noteq> v \<longrightarrow> ms' = ms"
      using False i less.prems(2) by (cases ms; auto simp: ms'_def)+
    have m: "leaves_promise p m"
      using spec [OF less.prems(3), of i] i ms'(2) by (cases "i = v") simp_all
    have others': "\<forall>j. \<forall>m \<in> set (if j = v then ms' else (cs(i := js)) j). leaves_promise p m"
    proof (intro allI ballI)
      fix j x assume "x \<in> set (if j = v then ms' else (cs(i := js)) j)"
      moreover have "set (if j = v then ms' else (cs(i := js)) j) \<subseteq> set (if j = v then ms else cs j)"
        unfolding ms'_def using i set_drop_subset [of 1 ms] by (auto simp: drop_Suc)
      ultimately show "leaves_promise p x"
        using spec [OF less.prems(3), of j] by blast
    qed
    have none: "promises (run_message m st) p = None" and lt: "elements_left (cs(i := js)) < elements_left cs"
      using m less.prems(4) one by (simp_all add: leaves_promise_def)
    from less.hyps [OF lt inv' ms'(1) others' none] obtain order bq'' where o: "future_get S p bq' (run_message m st) =
          Some (fst (f (world (run_all order (run_message m st)))), bq'', run_message (promise_task p f) (run_all order (run_message m st)))"
        "run_from order v = ms'" "\<forall>j. prefix (run_from order j) ((cs(i := js)) j)"
      by (elim exE conjE) (rule that)
    show ?thesis
    proof (intro exI conjI)
      show "future_get S p bq st = Some (fst (f (world (run_all ((i, m) # order) st))), bq'',
          run_message (promise_task p f) (run_all ((i, m) # order) st))"
        using o(1) unfolding unfold r by simp
      show "run_from ((i, m) # order) v = ms"
        using o(2) ms'(2,3) by auto
      have "prefix (run_from ((i, m) # order) j) (cs j)" for j
        using spec [OF o(3), of j] i by (cases "j = i") auto
      then show "\<forall>j. prefix (run_from ((i, m) # order) j) (cs j)" ..
    qed
  qed
qed

lemma submit_to_shard_spec:
  assumes laws: "semaphore_laws S cnt" and inv: "bq_inv cnt mem owner E D n bq cs" and n: "n < 2 ^ 60" and tid: "valid_id tid"
    and mem: "\<forall>k. mem k" and others: "\<forall>i. \<forall>m \<in> set (cs i). leaves_promise p m" and unset: "promises st p = None"
  shows "\<exists>v order bq'. submit_to_shard S mem tid p f bq st =
      Some (fst (f (world (run_all order st))), bq', run_message (promise_task p f) (run_all order st)) \<and>
    (owner tid = None \<or> owner tid = Some v) \<and> run_from order v = cs v \<and>
    (\<forall>i. prefix (run_from order i) (cs i))"
proof -
  obtain v ok bq' where e: "bq_enqueue S mem tid (promise_task p f) bq = Some (ok, bq')" "ok" "owner tid = None \<or> owner tid = Some v"
      "bq_inv cnt mem (owner(tid \<mapsto> v)) (E(v := E v @ [promise_task p f])) D (Suc n) bq' (cs(v := cs v @ [promise_task p f]))"
    using bq_enqueue_spec [OF laws inv n tid, of "promise_task p f"] mem by (auto split: option.splits)
  have others': "\<forall>i. \<forall>m \<in> set (if i = v then cs v else (cs(v := cs v @ [promise_task p f])) i). leaves_promise p m"
    using others by simp
  obtain order bq'' where o: "future_get S p bq' st =
      Some (fst (f (world (run_all order st))), bq'', run_message (promise_task p f) (run_all order st))"
      "run_from order v = cs v" "\<forall>i. prefix (run_from order i) ((cs(v := cs v @ [promise_task p f])) i)"
    using future_get_returns [OF laws e(4) fun_upd_same others' unset] by (elim exE conjE) (rule that)
  have "prefix (run_from order i) (cs i)" for i
    using spec [OF o(3), of i] o(2) by (cases "i = v") auto
  then show ?thesis
    using e(1-3) o(1,2) unfolding submit_to_shard_def submit_to_shard_idx_def by auto
qed

subsection \<open>The properties\<close>

text \<open>
  C10. A task that is submitted to a shard is run, and its caller gets its result. In every state of the queue that a run leads to, while there
  is memory, \<open>submit_to_shard\<close> returns what the task returned or threw, in the state that was left by running some of the tasks queued
  before it: of every producer the first ones in order, and all of those that the caller had submitted itself. Other threads submit nothing while the caller waits.
\<close>

theorem submitted_task_answered:
  assumes "semaphore_laws S cnt" and "bq_run S (\<lambda>_. True) cap owner E D n bq" and "cap < 2 ^ 60" and "n < 2 ^ 60" and "valid_id tid"
    and "\<forall>i. \<forall>m \<in> set (E i). leaves_promise p m" and "promises st p = None"
  shows "\<exists>v order bq'. submit_to_shard S (\<lambda>_. True) tid p f bq st =
      Some (fst (f (world (run_all order st))), bq', run_message (promise_task p f) (run_all order st)) \<and>
    (owner tid = None \<or> owner tid = Some v) \<and> D v @ run_from order v = E v \<and> (\<forall>i. prefix (D i @ run_from order i) (E i))"
proof -
  obtain cs where inv: "bq_inv cnt (\<lambda>_. True) owner E D n bq cs"
    using bq_run_inv [OF assms(2,1,3,4)] by (elim exE)
  then have split: "E i = D i @ cs i" for i
    by (simp add: bq_inv_def run_inv_def)
  have "\<forall>i. \<forall>m \<in> set (cs i). leaves_promise p m"
    using assms(6) unfolding split set_append by blast
  from submit_to_shard_spec [OF assms(1) inv assms(4,5) _ this assms(7), of f] show ?thesis
    unfolding split by simp
qed

text \<open>
  C11. Shutting a shard down loses no task. In every state of the queue that a run leads to, and however late the thread sees the stop
  flag, the thread ends, after it has run every queued message once, those of one producer in order.
\<close>

theorem shutdown_runs_everything:
  fixes bq :: "('c core_message, 's) blocking_queue"
  assumes "semaphore_laws S cnt" and "bq_run S mem cap owner E D n bq" and "cap < 2 ^ 60" and "n + 1 < 2 ^ 60" and "valid_id tid"
  shows "\<exists>order bq' v last. stop_shard S mem tid late bq st = Some (bq', run_all order st) \<and> set last \<subseteq> {None} \<and>
    (\<forall>i. D i @ run_from order i = E i @ (if i = v then last else []))"
proof -
  have n: "n < 2 ^ 60" "Suc n < 2 ^ 60"
    using assms(4) by simp_all
  obtain cs where inv: "bq_inv cnt mem owner E D n bq cs"
    using bq_run_inv [OF assms(2,1,3) n(1)] by (elim exE)
  obtain r ok bq1 where e: "bq_enqueue S mem tid None bq = Some (ok, bq1)"
      "case r of
         None \<Rightarrow> \<not> ok \<and> bq_inv cnt mem owner E D (Suc n) bq1 cs
       | Some v \<Rightarrow> (owner tid = None \<or> owner tid = Some v) \<and>
           bq_inv cnt mem (owner(tid \<mapsto> v)) (if ok then E(v := E v @ [None]) else E) D (Suc n) bq1 (if ok then cs(v := cs v @ [None]) else cs)"
    using bq_enqueue_spec [OF assms(1) inv n(1) assms(5), of None] by (elim exE conjE) (rule that)
  define last where "last = (if ok then [None] else [] :: 'c core_message list)"
  obtain v owner' E' where inv1: "bq_inv cnt mem owner' E' D (Suc n) bq1 (cs(v := cs v @ last))"
    using e(2) unfolding last_def by (cases r; cases ok) auto
  have "\<forall>k \<ge> late. late \<le> k"
    by simp
  from core_loop_drains [OF assms(1) inv1 n(2) this, of 0 st] obtain order bq' where
    o: "core_loop S (\<lambda>k. late \<le> k) 0 bq1 st = Some (bq', run_all order st)" "\<forall>i. run_from order i = (cs(v := cs v @ last)) i"
    by (elim exE conjE) (rule that)
  have "E i = D i @ cs i" for i
    using inv by (simp add: bq_inv_def run_inv_def)
  then have "\<forall>i. D i @ run_from order i = E i @ (if i = v then last else [])"
    using o(2) by simp
  moreover have "stop_shard S mem tid late bq st = Some (bq', run_all order st)" "set last \<subseteq> {None}"
    using e(1) o(1) by (auto simp: stop_shard_def last_def)
  ultimately show ?thesis
    by blast
qed

definition sample_task :: "nat \<Rightarrow> (fault + nat) \<times> nat" where
  "sample_task w = (Inr w, Suc w)"

theorem submitted_task_answered_witness:
  "\<exists>owner bq v r bq' st'. bq_run counting_semaphore (\<lambda>_. True) 64 owner ((\<lambda>_. [])(v := [None])) (\<lambda>_. []) 1 bq \<and>
    submit_to_shard counting_semaphore (\<lambda>_. True) 9 0 sample_task bq \<lparr>world = 5, promises = Map.empty\<rparr> = Some (r, bq', st') \<and> promises st' 0 = Some r"
proof -
  obtain owner v and bq :: "((nat, nat) core_state core_message, nat) blocking_queue" where
    run: "bq_run counting_semaphore (\<lambda>_. True) 64 owner ((\<lambda>_. [])(v := [None])) (\<lambda>_. []) 1 bq"
    using sample_bq_run [of "None :: (nat, nat) core_state core_message"] by (elim exE)
  have "\<forall>i. \<forall>m \<in> set (((\<lambda>_. [])(v := [None])) i). leaves_promise 0 (m :: (nat, nat) core_state core_message)"
    by (simp add: leaves_promise_def)
  from submitted_task_answered [OF counting_semaphore_laws run _ _ _ this, of 9 "\<lparr>world = 5, promises = Map.empty\<rparr>" sample_task]
  obtain order bq' where "submit_to_shard counting_semaphore (\<lambda>_. True) 9 0 sample_task bq \<lparr>world = 5, promises = Map.empty\<rparr> =
      Some (fst (sample_task (world (run_all order \<lparr>world = 5, promises = Map.empty\<rparr>))), bq',
        run_message (promise_task 0 sample_task) (run_all order \<lparr>world = 5, promises = Map.empty\<rparr>))"
    by (auto simp: valid_id_def invalid_thread_id_def invalid_thread_id2_def)
  then show ?thesis
    using run by (fastforce simp: promise_task_run)
qed

theorem shutdown_runs_everything_witness:
  "\<exists>owner bq v order bq'. bq_run counting_semaphore (\<lambda>_. True) 64 owner ((\<lambda>_. [])(v := [Some (\<lambda>w. (Inr (), Suc w))])) (\<lambda>_. []) 1 bq \<and>
    stop_shard counting_semaphore (\<lambda>_. True) 9 3 bq 0 = Some (bq', run_all order 0) \<and> order \<noteq> []"
proof -
  let ?m = "Some (\<lambda>w. (Inr (), Suc w)) :: nat core_message"
  obtain owner v and bq :: "(nat core_message, nat) blocking_queue" where
    run: "bq_run counting_semaphore (\<lambda>_. True) 64 owner ((\<lambda>_. [])(v := [?m])) (\<lambda>_. []) 1 bq"
    using sample_bq_run [of ?m] by (elim exE)
  have "valid_id 9"
    by (simp add: valid_id_def invalid_thread_id_def invalid_thread_id2_def)
  then obtain order bq' v' last where o: "stop_shard counting_semaphore (\<lambda>_. True) 9 3 bq 0 = Some (bq', run_all order 0)"
      "\<forall>i. [] @ run_from order i = ((\<lambda>_. [])(v := [?m])) i @ (if i = v' then last else [])"
    using shutdown_runs_everything [OF counting_semaphore_laws run, of 9 3 0] by (auto simp del: fun_upd_apply)
  have "run_from order v \<noteq> []"
    using spec [OF o(2), of v] by simp
  then have "order \<noteq> []"
    by auto
  then show ?thesis
    using run o(1) by blast
qed

end
