(* ===== verification/Batch_Wait.thy ===== *)
theory Batch_Wait
  imports Core_Threads Engine_Scan
begin

text \<open>
  How a batch reaches the shards, and waiting for it (\<open>engine/store.hpp\<close>, the end of \<open>batch_put\<close>, and \<open>wait_all_shards\<close>): the calling thread
  puts one task per shard into the queues, then an empty task into every queue, and waits for the results of those. The core threads of
  the shards run all the while: \<open>turns k\<close> are the shards whose threads go one round before the \<open>k\<close>-th step of the calling thread.
\<close>

subsection \<open>The core threads and the calling thread\<close>

record ('w, 's) cores =
  queues :: "nat \<Rightarrow> (('w, unit) core_state core_message, 's) blocking_queue"
  shared :: "('w, unit) core_state"
  steps :: nat

primrec core_rounds :: "'s semaphore_ops \<Rightarrow> nat list \<Rightarrow> ('w, 's) cores \<Rightarrow> ('w, 's) cores option" where
  "core_rounds S [] c = Some c"
| "core_rounds S (i # is) c =
     do {
       (bq, st) \<leftarrow> core_round S (queues c i) (shared c);
       core_rounds S is (c\<lparr>queues := (queues c)(i := bq), shared := st\<rparr>)
     }"

definition core_turns :: "'s semaphore_ops \<Rightarrow> (nat \<Rightarrow> nat list) \<Rightarrow> ('w, 's) cores \<Rightarrow> ('w, 's) cores option" where
  "core_turns S turns c = core_rounds S (turns (steps c)) (c\<lparr>steps := Suc (steps c)\<rparr>)"

text \<open>The task of a shard, and the loop that queues one for each entry of \<open>shard_works\<close>; \<open>is\<close> is the order of the hash map.\<close>

definition batch_task :: "ext \<Rightarrow> (bytes \<times> bytes) list \<Rightarrow> (store, unit) core_state core_message" where
  "batch_task X updates = plain_task (\<lambda>st. (Inr (), fold (\<lambda>p st. apply_put X st (fst p) (snd p)) updates st))"

primrec queue_works ::
  "'s semaphore_ops \<Rightarrow> (nat \<Rightarrow> nat list) \<Rightarrow> (nat \<Rightarrow> bool) \<Rightarrow> u64 \<Rightarrow> (nat \<Rightarrow> ('w, unit) core_state core_message) \<Rightarrow> nat list \<Rightarrow>
    ('w, 's) cores \<Rightarrow> ('w, 's) cores option" where
  "queue_works S turns mem tid task [] c = Some c"
| "queue_works S turns mem tid task (i # is) c =
     do {
       c \<leftarrow> core_turns S turns c;
       (ok, bq) \<leftarrow> bq_enqueue S mem tid (task i) (queues c i);
       queue_works S turns mem tid task is (c\<lparr>queues := (queues c)(i := bq)\<rparr>)
     }"

text \<open>A future names its promise; the promise of a task that could not be queued is gone. The promise for shard \<open>i\<close> is \<open>p + i\<close>.\<close>

primrec submit_all ::
  "'s semaphore_ops \<Rightarrow> (nat \<Rightarrow> nat list) \<Rightarrow> (nat \<Rightarrow> bool) \<Rightarrow> u64 \<Rightarrow> nat \<Rightarrow> nat list \<Rightarrow> ('w, 's) cores \<Rightarrow>
    (nat option list \<times> ('w, 's) cores) option" where
  "submit_all S turns mem tid p [] c = Some ([], c)"
| "submit_all S turns mem tid p (i # is) c =
     do {
       c \<leftarrow> core_turns S turns c;
       (ok, bq) \<leftarrow> submit_to_shard_idx S mem tid (p + i) (\<lambda>w. (Inr (), w)) (queues c i);
       (futures, c) \<leftarrow> submit_all S turns mem tid p is (c\<lparr>queues := (queues c)(i := bq)\<rparr>);
       Some ((if ok then Some (p + i) else None) # futures, c)
     }"

partial_function (option) await ::
  "'s semaphore_ops \<Rightarrow> (nat \<Rightarrow> nat list) \<Rightarrow> nat \<Rightarrow> ('w, 's) cores \<Rightarrow> ((fault + unit) \<times> ('w, 's) cores) option" where
  "await S turns p c =
     (case promises (shared c) p of
        Some r \<Rightarrow> Some (r, c)
      | None \<Rightarrow> do {
          c \<leftarrow> core_turns S turns c;
          await S turns p c
        })"

primrec get_all :: "'s semaphore_ops \<Rightarrow> (nat \<Rightarrow> nat list) \<Rightarrow> nat option list \<Rightarrow> ('w, 's) cores \<Rightarrow> ((fault + unit) \<times> ('w, 's) cores) option" where
  "get_all S turns [] c = Some (Inr (), c)"
| "get_all S turns (f # fs) c =
     (case f of
        None \<Rightarrow> Some (Inl Broken_Promise, c)
      | Some p \<Rightarrow> do {
          (r, c) \<leftarrow> await S turns p c;
          (case r of Inl e \<Rightarrow> Some (Inl e, c) | Inr _ \<Rightarrow> get_all S turns fs c)
        })"

definition wait_all_shards ::
  "'s semaphore_ops \<Rightarrow> (nat \<Rightarrow> nat list) \<Rightarrow> (nat \<Rightarrow> bool) \<Rightarrow> u64 \<Rightarrow> nat \<Rightarrow> ('w, 's) cores \<Rightarrow> ((fault + unit) \<times> ('w, 's) cores) option" where
  "wait_all_shards S turns mem tid p c =
     do {
       (futures, c) \<leftarrow> submit_all S turns mem tid p [0..<SHARDS] c;
       get_all S turns futures c
     }"

subsection \<open>One queue\<close>

text \<open>
  A queue that holds, in this order, the messages \<open>own\<close> of the thread \<open>tid\<close>, and before and beside them only messages that satisfy \<open>P\<close>;
  \<open>l\<close> messages in all, after at most \<open>n\<close> enqueues.
\<close>

definition queue_holds where
  "queue_holds cnt P tid n l bq own \<longleftrightarrow>
     (\<exists>owner E D n' cs v pre. bq_inv cnt (\<lambda>_. True) owner E D n' bq cs \<and> n' \<le> n \<and> l = elements_left cs \<and>
        (own \<noteq> [] \<longrightarrow> owner tid = Some v) \<and> cs v = pre @ own \<and> (\<forall>m \<in> set pre. P m) \<and> (\<forall>i. i \<noteq> v \<longrightarrow> (\<forall>m \<in> set (cs i). P m)))"

lemma holdsI:
  assumes "bq_inv cnt (\<lambda>_. True) owner E D n' bq cs" and "n' \<le> n" and "l = elements_left cs" and "own \<noteq> [] \<longrightarrow> owner tid = Some v"
    and "cs v = pre @ own" and "\<forall>m \<in> set pre. P m" and "\<And>i m. i \<noteq> v \<Longrightarrow> m \<in> set (cs i) \<Longrightarrow> P m"
  shows "queue_holds cnt P tid n l bq own"
  unfolding queue_holds_def
  by (intro exI [of _ owner] exI [of _ E] exI [of _ D] exI [of _ n'] exI [of _ cs] exI [of _ v] exI [of _ pre]) (use assms in blast)

lemma holds_round:
  assumes laws: "semaphore_laws S cnt" and "queue_holds cnt P tid n l bq own"
  shows "\<exists>bq' st'. core_round S bq st = Some (bq', st') \<and>
    (st' = st \<and> l = 0 \<and> queue_holds cnt P tid n (l - 1) bq' own \<or>
     (\<exists>m. st' = run_message m st \<and> 0 < l \<and>
        (P m \<and> queue_holds cnt P tid n (l - 1) bq' own \<or> own = m # tl own \<and> queue_holds cnt P tid n (l - 1) bq' (tl own))))"
proof -
  obtain owner E D n' cs v pre where h: "bq_inv cnt (\<lambda>_. True) owner E D n' bq cs" "n' \<le> n" "l = elements_left cs"
      "own \<noteq> [] \<longrightarrow> owner tid = Some v" "cs v = pre @ own" "\<forall>m \<in> set pre. P m" "\<And>i m. i \<noteq> v \<Longrightarrow> m \<in> set (cs i) \<Longrightarrow> P m"
    using assms(2) unfolding queue_holds_def by (elim exE conjE) blast
  from core_round_spec [OF laws h(1), of st] show ?thesis
  proof (elim disjE exE conjE)
    fix bq' assume "\<forall>v. cs v = []" "core_round S bq st = Some (bq', st)" "bq_inv cnt (\<lambda>_. True) owner E D n' bq' cs"
    moreover from this have "elements_left cs = 0"
      using nothing_left by blast
    ultimately show ?thesis
      using h by (intro exI conjI) (assumption, intro disjI1 conjI refl, simp, rule holdsI, auto)
  next
    fix i m ms bq' assume i: "cs i = m # ms" "core_round S bq st = Some (bq', run_message m st)"
      "bq_inv cnt (\<lambda>_. True) owner E (D(i := D i @ [m])) n' bq' (cs(i := ms))" "Suc (elements_left (cs(i := ms))) = elements_left cs"
    have l: "l - 1 = elements_left (cs(i := ms))" "0 < l"
      using i(4) h(3) by simp_all
    have "P m \<and> queue_holds cnt P tid n (l - 1) bq' own \<or> own = m # tl own \<and> queue_holds cnt P tid n (l - 1) bq' (tl own)"
    proof (cases "i = v \<and> pre = []")
      case True
      then have "own = m # ms"
        using h(5) i(1) by simp
      then have "queue_holds cnt P tid n (l - 1) bq' ms"
        using True h by (intro holdsI [OF i(3) h(2) l(1), of _ _ v "[]"]) auto
      with \<open>own = m # ms\<close> show ?thesis by simp
    next
      case False
      define pre' where "pre' = (if i = v then tl pre else pre)"
      have hd: "i = v \<longrightarrow> pre = m # pre' \<and> ms = pre' @ own"
        using False h(5) i(1) by (cases pre) (auto simp: pre'_def)
      have "(cs(i := ms)) v = pre' @ own"
        using hd h(5) by (cases "i = v") (simp_all add: pre'_def)
      moreover have "P m"
        using hd h(6) h(7) [of i m] i(1) by auto
      moreover have "set pre' \<subseteq> set pre"
        by (cases pre) (auto simp: pre'_def)
      with h(6) have "\<forall>m \<in> set pre'. P m"
        by blast
      moreover have "P x" if "j \<noteq> v" "x \<in> set ((cs(i := ms)) j)" for j x
        using that h(7) [of j x] i(1) by (auto split: if_splits)
      ultimately have "queue_holds cnt P tid n (l - 1) bq' own"
        using h(4) by (intro holdsI [OF i(3) h(2) l(1)]) auto
      with \<open>P m\<close> show ?thesis by simp
    qed
    then show ?thesis
      using i(2) l(2) by blast
  qed
qed

lemma holds_round_cases:
  assumes "semaphore_laws S cnt" and "queue_holds cnt P tid n l bq own"
  obtains (idle) bq' where "core_round S bq st = Some (bq', st)" "queue_holds cnt P tid n (l - 1) bq' own"
    | (other) bq' msg where "core_round S bq st = Some (bq', run_message msg st)" "P msg" "queue_holds cnt P tid n (l - 1) bq' own"
    | (mine) bq' msg own' where "core_round S bq st = Some (bq', run_message msg st)" "own = msg # own'" "queue_holds cnt P tid n (l - 1) bq' own'"
  using holds_round [OF assms, of st] by (elim exE conjE disjE) simp_all

lemma holds_enqueue:
  assumes laws: "semaphore_laws S cnt" and "queue_holds cnt P tid n l bq own" and "n < 2 ^ 60" and "valid_id tid"
  shows "\<exists>bq' l'. bq_enqueue S (\<lambda>_. True) tid x bq = Some (True, bq') \<and> queue_holds cnt P tid (Suc n) l' bq' (own @ [x])"
proof -
  obtain owner E D n' cs v pre where h: "bq_inv cnt (\<lambda>_. True) owner E D n' bq cs" "n' \<le> n"
      "own \<noteq> [] \<longrightarrow> owner tid = Some v" "cs v = pre @ own" "\<forall>m \<in> set pre. P m" "\<And>i m. i \<noteq> v \<Longrightarrow> m \<in> set (cs i) \<Longrightarrow> P m"
    using assms(2) unfolding queue_holds_def by (elim exE conjE) blast
  have "n' < 2 ^ 60"
    using h(2) assms(3) by simp
  then obtain w bq' where w: "bq_enqueue S (\<lambda>_. True) tid x bq = Some (True, bq')" "owner tid = None \<or> owner tid = Some w"
      "bq_inv cnt (\<lambda>_. True) (owner(tid \<mapsto> w)) (E(w := E w @ [x])) D (Suc n') bq' (cs(w := cs w @ [x]))"
    using bq_enqueue_spec [OF laws h(1) _ assms(4), of x] by (auto split: option.splits)
  define pre' where "pre' = (if own = [] then cs w else pre)"
  have "own \<noteq> [] \<longrightarrow> w = v"
    using w(2) h(3) by auto
  then have "(cs(w := cs w @ [x])) w = pre' @ own @ [x]" "\<forall>m \<in> set pre'. P m" "\<And>i m. i \<noteq> w \<Longrightarrow> m \<in> set ((cs(w := cs w @ [x])) i) \<Longrightarrow> P m"
    using h(4,5,6) by (auto simp: pre'_def) (metis append_Nil2)+
  then have "queue_holds cnt P tid (Suc n) (elements_left (cs(w := cs w @ [x]))) bq' (own @ [x])"
    using h(2) by (intro holdsI [OF w(3)]) auto
  with w(1) show ?thesis by blast
qed

subsection \<open>All queues\<close>

text \<open>
  \<open>I\<close> is an invariant of what the tasks change, \<open>J\<close> what the calling thread waits for. A quiet message keeps both and leaves the promises of the
  calling thread alone.
\<close>

definition quiet :: "('w \<Rightarrow> bool) \<Rightarrow> ('w \<Rightarrow> bool) \<Rightarrow> nat \<Rightarrow> ('w, unit) core_state core_message \<Rightarrow> bool" where
  "quiet I J p m \<longleftrightarrow> (\<forall>st. I (world st) \<longrightarrow> I (world (run_message m st)) \<and> (J (world st) \<longrightarrow> J (world (run_message m st))) \<and>
     (\<forall>i < SHARDS. promises (run_message m st) (p + i) = promises st (p + i)))"

abbreviation marker :: "nat \<Rightarrow> nat \<Rightarrow> ('w, unit) core_state core_message" where
  "marker p i \<equiv> promise_task (p + i) (\<lambda>w. (Inr (), w))"

text \<open>The tasks of the calling thread: that of shard \<open>i0\<close> brings \<open>J\<close> about, the others are quiet.\<close>

definition tasks_ok :: "('w \<Rightarrow> bool) \<Rightarrow> ('w \<Rightarrow> bool) \<Rightarrow> nat \<Rightarrow> nat \<Rightarrow> (nat \<Rightarrow> ('w, unit) core_state core_message) \<Rightarrow> bool" where
  "tasks_ok I J p i0 task \<longleftrightarrow> (\<forall>i. quiet I J p (task i)) \<and> (\<forall>st. I (world st) \<longrightarrow> J (world (run_message (task i0) st)))"

text \<open>
  \<open>Q\<close>: shards whose task has been queued, \<open>M\<close>: shards whose empty task has been queued; \<open>q\<close> and \<open>m\<close>: where they still wait. \<open>L\<close>: the
  lengths of the queues.
\<close>

definition caller_inv where
  "caller_inv cnt I J p tid n i0 task Q M q m L c \<longleftrightarrow>
     (\<forall>i < SHARDS.
        queue_holds cnt (quiet I J p) tid (n + of_bool (i \<in> Q) + of_bool (i \<in> M)) (L i) (queues c i)
          ((if q i then [task i] else []) @ (if m i then [marker p i] else [])) \<and>
        (q i \<longrightarrow> i \<in> Q) \<and> (m i \<longrightarrow> i \<in> M) \<and> (i \<in> M \<and> q i \<longrightarrow> m i) \<and>
        promises (shared c) (p + i) = (if i \<in> M \<and> \<not> m i then Some (Inr ()) else None)) \<and>
     I (world (shared c)) \<and> (i0 \<in> Q \<and> \<not> q i0 \<longrightarrow> J (world (shared c)))"

lemma marker_quiet: "promises (run_message (marker p i) st) (p + j) = (if j = i then Some (Inr ()) else promises st (p + j))"
    "world (run_message (marker p i) st) = world st"
  by (simp_all add: promise_task_run)

lemma round_other:
  assumes inv: "caller_inv cnt I J p tid n i0 task Q M q m L c" and msg: "quiet I J p msg"
    and h: "queue_holds cnt (quiet I J p) tid (n + of_bool (i \<in> Q) + of_bool (i \<in> M)) (L i - 1) bq'
      ((if q i then [task i] else []) @ (if m i then [marker p i] else []))"
  shows "caller_inv cnt I J p tid n i0 task Q M q m (L(i := L i - 1)) (c\<lparr>queues := (queues c)(i := bq'), shared := run_message msg (shared c)\<rparr>)"
  using assms unfolding caller_inv_def quiet_def by simp

lemma round_task:
  assumes inv: "caller_inv cnt I J p tid n i0 task Q M q m L c" and tasks: "tasks_ok I J p i0 task" and "q i"
    and h: "queue_holds cnt (quiet I J p) tid (n + of_bool (i \<in> Q) + of_bool (i \<in> M)) (L i - 1) bq' (if m i then [marker p i] else [])"
  shows "caller_inv cnt I J p tid n i0 task Q M (q(i := False)) m (L(i := L i - 1))
    (c\<lparr>queues := (queues c)(i := bq'), shared := run_message (task i) (shared c)\<rparr>)"
proof -
  let ?st = "run_message (task i) (shared c)"
  have "I (world (shared c))"
    using inv by (simp add: caller_inv_def)
  then have st: "I (world ?st)" "J (world (shared c)) \<Longrightarrow> J (world ?st)" "\<And>j. j < SHARDS \<Longrightarrow> promises ?st (p + j) = promises (shared c) (p + j)"
      "i0 = i \<Longrightarrow> J (world ?st)"
    using tasks by (auto simp: tasks_ok_def quiet_def)
  show ?thesis
    using inv st h unfolding caller_inv_def by simp
qed

lemma round_marker:
  assumes inv: "caller_inv cnt I J p tid n i0 task Q M q m L c" and "\<not> q i" and "m i"
    and h: "queue_holds cnt (quiet I J p) tid (n + of_bool (i \<in> Q) + of_bool (i \<in> M)) (L i - 1) bq' []"
  shows "caller_inv cnt I J p tid n i0 task Q M q (m(i := False)) (L(i := L i - 1))
    (c\<lparr>queues := (queues c)(i := bq'), shared := run_message (marker p i) (shared c)\<rparr>)"
proof (cases "i < SHARDS")
  case True
  then have "i \<in> M"
    using inv assms(3) by (simp add: caller_inv_def)
  then show ?thesis
    using assms unfolding caller_inv_def by (simp add: marker_quiet)
next
  case False
  then show ?thesis
    using assms unfolding caller_inv_def by (auto simp: marker_quiet)
qed

lemma round_inv:
  assumes laws: "semaphore_laws S cnt" and tasks: "tasks_ok I J p i0 task" and inv: "caller_inv cnt I J p tid n i0 task Q M q m L c" and i: "i < SHARDS"
  shows "\<exists>bq' st' q' m'. core_round S (queues c i) (shared c) = Some (bq', st') \<and>
    caller_inv cnt I J p tid n i0 task Q M q' m' (L(i := L i - 1)) (c\<lparr>queues := (queues c)(i := bq'), shared := st'\<rparr>) \<and> (\<forall>j. m' j \<longrightarrow> m j)"
proof -
  let ?own = "(if q i then [task i] else []) @ (if m i then [marker p i] else [])"
  have "queue_holds cnt (quiet I J p) tid (n + of_bool (i \<in> Q) + of_bool (i \<in> M)) (L i) (queues c i) ?own"
    using inv i by (simp add: caller_inv_def)
  from laws this show ?thesis
  proof (cases rule: holds_round_cases [where st = "shared c", case_names idle other mine])
    case (idle bq')
    moreover have "quiet I J p None"
      by (simp add: quiet_def)
    ultimately show ?thesis
      using round_other [OF inv, of None i bq'] by (intro exI [of _ bq'] exI [of _ "shared c"] exI [of _ q] exI [of _ m]) simp
  next
    case (other bq' msg)
    then show ?thesis
      using round_other [OF inv other(2,3)] by blast
  next
    case (mine bq' msg own')
    show ?thesis
    proof (cases "q i")
      case True
      with mine(2) have "msg = task i" "own' = (if m i then [marker p i] else [])"
        by simp_all
      with mine round_task [OF inv tasks True] show ?thesis
        by blast
    next
      case False
      with mine(2) have "m i" "msg = marker p i" "own' = []"
        by (simp_all split: if_splits)
      with mine round_marker [OF inv False] show ?thesis
        by (intro exI [of _ bq'] exI [of _ "run_message msg (shared c)"] exI [of _ q] exI [of _ "m(i := False)"]) simp
    qed
  qed
qed

lemma rounds_inv:
  assumes laws: "semaphore_laws S cnt" and tasks: "tasks_ok I J p i0 task" and "caller_inv cnt I J p tid n i0 task Q M q m L c" and "set is \<subseteq> {..<SHARDS}"
  shows "\<exists>c' q' m' L'. core_rounds S is c = Some c' \<and> steps c' = steps c \<and> caller_inv cnt I J p tid n i0 task Q M q' m' L' c' \<and>
    (\<forall>j. m' j \<longrightarrow> m j) \<and> (\<forall>j. L' j \<le> L j \<and> (j \<in> set is \<and> 0 < L j \<longrightarrow> L' j < L j))"
  using assms(3,4)
proof (induction "is" arbitrary: c q m L)
  case (Cons i "is")
  have i: "i < SHARDS" "set is \<subseteq> {..<SHARDS}"
    using Cons.prems(2) by auto
  obtain bq' st' q1 m1 where r: "core_round S (queues c i) (shared c) = Some (bq', st')"
      "caller_inv cnt I J p tid n i0 task Q M q1 m1 (L(i := L i - 1)) (c\<lparr>queues := (queues c)(i := bq'), shared := st'\<rparr>)" "\<forall>j. m1 j \<longrightarrow> m j"
    using round_inv [OF laws tasks Cons.prems(1) i(1)] by (elim exE conjE) (rule that)
  obtain c' q' m' L' where c': "core_rounds S is (c\<lparr>queues := (queues c)(i := bq'), shared := st'\<rparr>) = Some c'" "steps c' = steps c"
      "caller_inv cnt I J p tid n i0 task Q M q' m' L' c'" "\<forall>j. m' j \<longrightarrow> m1 j"
      "\<And>j. L' j \<le> (L(i := L i - 1)) j \<and> (j \<in> set is \<and> 0 < (L(i := L i - 1)) j \<longrightarrow> L' j < (L(i := L i - 1)) j)"
    using Cons.IH [OF r(2) i(2)] by auto
  have "L' j \<le> L j \<and> (j \<in> set (i # is) \<and> 0 < L j \<longrightarrow> L' j < L j)" for j
    using c'(5) [of j] by (cases "j = i") auto
  then show ?case
    using r(1,3) c'(1-4) by (intro exI [of _ c'] exI [of _ q'] exI [of _ m'] exI [of _ L']) auto
qed auto

lemma turns_inv:
  assumes "semaphore_laws S cnt" and "tasks_ok I J p i0 task" and inv: "caller_inv cnt I J p tid n i0 task Q M q m L c"
    and "\<forall>k. set (turns k) \<subseteq> {..<SHARDS}"
  obtains c' q' m' L' where "core_turns S turns c = Some c'" "steps c' = Suc (steps c)" "caller_inv cnt I J p tid n i0 task Q M q' m' L' c'"
    "\<forall>j. m' j \<longrightarrow> m j" "\<forall>j. L' j \<le> L j" "\<forall>j. j \<in> set (turns (steps c)) \<and> 0 < L j \<longrightarrow> L' j < L j"
proof -
  have "caller_inv cnt I J p tid n i0 task Q M q m L (c\<lparr>steps := Suc (steps c)\<rparr>)"
    using inv by (simp add: caller_inv_def)
  from rounds_inv [OF assms(1,2) this, of "turns (steps c)"] assms(4) obtain c' q' m' L' where
    c': "core_rounds S (turns (steps c)) (c\<lparr>steps := Suc (steps c)\<rparr>) = Some c'" "steps c' = Suc (steps c)"
      "caller_inv cnt I J p tid n i0 task Q M q' m' L' c'" "\<forall>j. m' j \<longrightarrow> m j"
      "\<forall>j. L' j \<le> L j \<and> (j \<in> set (turns (steps c)) \<and> 0 < L j \<longrightarrow> L' j < L j)"
    by auto
  show ?thesis
    by (rule that [OF _ c'(2,3,4)]) (use c'(1,5) in \<open>simp_all add: core_turns_def\<close>)
qed

text \<open>The core thread of every shard goes on, and there is no other core thread.\<close>

definition fair :: "(nat \<Rightarrow> nat list) \<Rightarrow> bool" where
  "fair turns \<longleftrightarrow> (\<forall>k. set (turns k) \<subseteq> {..<SHARDS}) \<and> (\<forall>i < SHARDS. \<forall>k. \<exists>k' \<ge> k. i \<in> set (turns k'))"

lemma holds_nonempty:
  assumes "queue_holds cnt P tid n l bq own" and "own \<noteq> []"
  shows "0 < l"
proof -
  obtain owner E D n' cs v pre where h: "bq_inv cnt (\<lambda>_. True) owner E D n' bq cs" "l = elements_left cs" "cs v = pre @ own"
    using assms(1) unfolding queue_holds_def by (elim exE conjE) blast
  then have "\<not> (\<forall>v. cs v = [])"
    using assms(2) by (metis append_is_Nil_conv)
  then show ?thesis
    using nothing_left [OF h(1)] h(2) by auto
qed

lemma waiting_nonempty:
  assumes "caller_inv cnt I J p tid n i0 task Q M q m L c" and "j < SHARDS" and "m j"
  shows "0 < L j"
proof (rule holds_nonempty)
  show "queue_holds cnt (quiet I J p) tid (n + of_bool (j \<in> Q) + of_bool (j \<in> M)) (L j) (queues c j)
      ((if q j then [task j] else []) @ (if m j then [marker p j] else []))"
    using assms(1,2) by (simp add: caller_inv_def)
qed (simp add: assms(3))

lemma await_ready:
  assumes "caller_inv cnt I J p tid n i0 task Q M q m L c" and "j < SHARDS" "j \<in> M" "\<not> m j"
  shows "await S turns (p + j) c = Some (Inr (), c)"
  using assms by (subst await.simps) (simp add: caller_inv_def)

lemma await_poll:
  assumes "semaphore_laws S cnt" and "tasks_ok I J p i0 task" and "fair turns" and inv: "caller_inv cnt I J p tid n i0 task Q M q m L c"
    and j: "j < SHARDS" "m j"
  obtains c' q' m' L' where "await S turns (p + j) c = await S turns (p + j) c'" "steps c' = Suc (steps c)"
    "caller_inv cnt I J p tid n i0 task Q M q' m' L' c'" "\<forall>i. m' i \<longrightarrow> m i" "L' j \<le> L j" "j \<in> set (turns (steps c)) \<Longrightarrow> L' j < L j"
proof -
  have "\<forall>k. set (turns k) \<subseteq> {..<SHARDS}"
    using assms(3) by (simp add: fair_def)
  from turns_inv [OF assms(1,2) inv this] obtain c' q' m' L' where
    c': "core_turns S turns c = Some c'" "steps c' = Suc (steps c)" "caller_inv cnt I J p tid n i0 task Q M q' m' L' c'"
      "\<forall>j. m' j \<longrightarrow> m j" "\<forall>j. L' j \<le> L j" "\<forall>j. j \<in> set (turns (steps c)) \<and> 0 < L j \<longrightarrow> L' j < L j" .
  have "await S turns (p + j) c = await S turns (p + j) c'"
    using inv j c'(1) by (subst await.simps) (simp add: caller_inv_def)
  then show ?thesis
    by (rule that [OF _ c'(2,3,4)]) (use c'(5,6) waiting_nonempty [where m = m, OF inv j] in auto)
qed

lemma await_returns:
  assumes laws: "semaphore_laws S cnt" and tasks: "tasks_ok I J p i0 task" and fair: "fair turns" and j: "j < SHARDS" "j \<in> M"
    and "caller_inv cnt I J p tid n i0 task Q M q m L c"
  shows "\<exists>c' q' m' L'. await S turns (p + j) c = Some (Inr (), c') \<and> caller_inv cnt I J p tid n i0 task Q M q' m' L' c' \<and>
    (\<forall>i. m' i \<longrightarrow> m i) \<and> \<not> m' j"
  using assms(6)
proof (induction "L j" arbitrary: c q m L rule: less_induct)
  case less
  note shorter = less.hyps
  have "\<exists>c' q' m' L'. await S turns (p + j) c = Some (Inr (), c') \<and> caller_inv cnt I J p tid n i0 task Q M q' m' L' c' \<and>
      (\<forall>i. m' i \<longrightarrow> m i) \<and> \<not> m' j"
    if "j \<in> set (turns (steps c + d))" "caller_inv cnt I J p tid n i0 task Q M q m K c" "K j \<le> L j" for d c q m K
    using that
  proof (induction d arbitrary: c q m K)
    case (0 c q m K)
    show ?case
    proof (cases "m j")
      case False
      then show ?thesis
        using await_ready [where m = m, OF 0(2) j] 0(2) by blast
    next
      case True
      obtain c1 q1 m1 L1 where c1: "await S turns (p + j) c = await S turns (p + j) c1" "caller_inv cnt I J p tid n i0 task Q M q1 m1 L1 c1"
          "\<forall>i. m1 i \<longrightarrow> m i" "L1 j < K j"
        using await_poll [where m = m, OF laws tasks fair 0(2) j(1) True] 0(1) by (metis add_0_right)
      with shorter [OF _ c1(2)] 0(3) show ?thesis
        by (metis order_less_le_trans)
    qed
  next
    case (Suc d c q m K)
    show ?case
    proof (cases "m j")
      case False
      then show ?thesis
        using await_ready [where m = m, OF Suc(3) j] Suc(3) by blast
    next
      case True
      obtain c1 q1 m1 L1 where c1: "await S turns (p + j) c = await S turns (p + j) c1" "steps c1 = Suc (steps c)"
          "caller_inv cnt I J p tid n i0 task Q M q1 m1 L1 c1" "\<forall>i. m1 i \<longrightarrow> m i" "L1 j \<le> K j"
        using await_poll [where m = m, OF laws tasks fair Suc(3) j(1) True] by metis
      with Suc(1) [OF _ c1(3)] Suc(2,4) show ?thesis
        by (metis add_Suc_shift order_trans)
    qed
  qed
  moreover obtain d where "j \<in> set (turns (steps c + d))"
    using fair j(1) unfolding fair_def by (metis le_add_diff_inverse)
  ultimately show ?case
    using less.prems by blast
qed

lemma get_all_returns:
  assumes laws: "semaphore_laws S cnt" and tasks: "tasks_ok I J p i0 task" and fair: "fair turns" and "set js \<subseteq> M \<inter> {..<SHARDS}"
    and "caller_inv cnt I J p tid n i0 task Q M q m L c"
  shows "\<exists>c' q' m' L'. get_all S turns (map (\<lambda>j. Some (p + j)) js) c = Some (Inr (), c') \<and> caller_inv cnt I J p tid n i0 task Q M q' m' L' c' \<and>
    (\<forall>i. m' i \<longrightarrow> m i) \<and> (\<forall>j \<in> set js. \<not> m' j)"
  using assms(4,5)
proof (induction js arbitrary: c q m L)
  case (Cons j js)
  have j: "j < SHARDS" "j \<in> M" "set js \<subseteq> M \<inter> {..<SHARDS}"
    using Cons.prems(1) by auto
  obtain c1 q1 m1 L1 where c1: "await S turns (p + j) c = Some (Inr (), c1)" "caller_inv cnt I J p tid n i0 task Q M q1 m1 L1 c1"
      "\<forall>i. m1 i \<longrightarrow> m i" "\<not> m1 j"
    using await_returns [OF laws tasks fair j(1,2) Cons.prems(2)] by (elim exE conjE) (rule that)
  obtain c' q' m' L' where c': "get_all S turns (map (\<lambda>j. Some (p + j)) js) c1 = Some (Inr (), c')"
      "caller_inv cnt I J p tid n i0 task Q M q' m' L' c'" "\<forall>i. m' i \<longrightarrow> m1 i" "\<forall>j \<in> set js. \<not> m' j"
    using Cons.IH [OF j(3) c1(2)] by (elim exE conjE) (rule that)
  show ?case
    using c1 c' by (intro exI [of _ c'] exI [of _ q'] exI [of _ m'] exI [of _ L']) auto
qed auto

lemma enqueue_task_inv:
  assumes "semaphore_laws S cnt" and inv: "caller_inv cnt I J p tid n i0 task Q {} q m L c" and "i < SHARDS" and "i \<notin> Q" and "n + 2 < 2 ^ 60" and "valid_id tid"
  shows "\<exists>bq' L'. bq_enqueue S (\<lambda>_. True) tid (task i) (queues c i) = Some (True, bq') \<and>
    caller_inv cnt I J p tid n i0 task (insert i Q) {} (q(i := True)) m L' (c\<lparr>queues := (queues c)(i := bq')\<rparr>)"
proof -
  have "queue_holds cnt (quiet I J p) tid n (L i) (queues c i) []" "\<not> m i"
    using inv assms(3,4) unfolding caller_inv_def by (auto dest!: spec [of _ i])
  from holds_enqueue [OF assms(1) this(1) _ assms(6), of "task i"] assms(5) obtain bq' l where
    bq': "bq_enqueue S (\<lambda>_. True) tid (task i) (queues c i) = Some (True, bq')" "queue_holds cnt (quiet I J p) tid (Suc n) l bq' [task i]"
    by auto
  have "caller_inv cnt I J p tid n i0 task (insert i Q) {} (q(i := True)) m (L(i := l)) (c\<lparr>queues := (queues c)(i := bq')\<rparr>)"
    using inv bq'(2) \<open>\<not> m i\<close> unfolding caller_inv_def by auto
  with bq'(1) show ?thesis
    by blast
qed

lemma enqueue_marker_inv:
  assumes "semaphore_laws S cnt" and inv: "caller_inv cnt I J p tid n i0 task Q M q m L c" and "i < SHARDS" and "i \<notin> M" and "n + 2 < 2 ^ 60" and "valid_id tid"
  shows "\<exists>bq' L'. submit_to_shard_idx S (\<lambda>_. True) tid (p + i) (\<lambda>w. (Inr (), w)) (queues c i) = Some (True, bq') \<and>
    caller_inv cnt I J p tid n i0 task Q (insert i M) q (m(i := True)) L' (c\<lparr>queues := (queues c)(i := bq')\<rparr>)"
proof -
  let ?own = "if q i then [task i] else []"
  have h: "queue_holds cnt (quiet I J p) tid (n + of_bool (i \<in> Q)) (L i) (queues c i) ?own" "\<not> m i"
    using inv assms(3,4) unfolding caller_inv_def by (auto dest!: spec [of _ i])
  have "n + of_bool (i \<in> Q) < 2 ^ 60"
    using assms(5) by simp
  from holds_enqueue [OF assms(1) h(1) this assms(6), of "marker p i"] obtain bq' l where
    bq': "bq_enqueue S (\<lambda>_. True) tid (marker p i) (queues c i) = Some (True, bq')"
      "queue_holds cnt (quiet I J p) tid (Suc (n + of_bool (i \<in> Q))) l bq' (?own @ [marker p i])"
    by blast
  have "caller_inv cnt I J p tid n i0 task Q (insert i M) q (m(i := True)) (L(i := l)) (c\<lparr>queues := (queues c)(i := bq')\<rparr>)"
    using inv bq'(2) assms(4) h(2) unfolding caller_inv_def by auto
  with bq'(1) show ?thesis
    unfolding submit_to_shard_idx_def by blast
qed

lemma queue_works_inv:
  assumes laws: "semaphore_laws S cnt" and tasks: "tasks_ok I J p i0 task" and turns: "\<forall>k. set (turns k) \<subseteq> {..<SHARDS}"
    and n: "n + 2 < 2 ^ 60" "valid_id tid"
    and "caller_inv cnt I J p tid n i0 task Q {} q m L c" and "distinct is" and "set is \<subseteq> {..<SHARDS} - Q"
  shows "\<exists>c' q' m' L'. queue_works S turns (\<lambda>_. True) tid task is c = Some c' \<and> caller_inv cnt I J p tid n i0 task (Q \<union> set is) {} q' m' L' c'"
  using assms(6-8)
proof (induction "is" arbitrary: Q c q m L)
  case (Cons i "is")
  obtain c1 q1 m1 L1 where c1: "core_turns S turns c = Some c1" "caller_inv cnt I J p tid n i0 task Q {} q1 m1 L1 c1"
    using turns_inv [OF laws tasks Cons.prems(1) turns] by metis
  have i: "i < SHARDS" "i \<notin> Q" "distinct is" "set is \<subseteq> {..<SHARDS} - insert i Q"
    using Cons.prems(2,3) by auto
  obtain bq' L' where "bq_enqueue S (\<lambda>_. True) tid (task i) (queues c1 i) = Some (True, bq')"
      "caller_inv cnt I J p tid n i0 task (insert i Q) {} (q1(i := True)) m1 L' (c1\<lparr>queues := (queues c1)(i := bq')\<rparr>)"
    using enqueue_task_inv [OF laws c1(2) i(1,2) n] by (elim exE conjE) (rule that)
  with Cons.IH [OF this(2) i(3,4)] c1(1) show ?case
    by (auto simp del: fun_upd_apply)
qed auto

lemma submit_all_inv:
  assumes laws: "semaphore_laws S cnt" and tasks: "tasks_ok I J p i0 task" and turns: "\<forall>k. set (turns k) \<subseteq> {..<SHARDS}"
    and n: "n + 2 < 2 ^ 60" "valid_id tid"
    and "caller_inv cnt I J p tid n i0 task Q M q m L c" and "distinct is" and "set is \<subseteq> {..<SHARDS} - M"
  shows "\<exists>c' q' m' L'. submit_all S turns (\<lambda>_. True) tid p is c = Some (map (\<lambda>i. Some (p + i)) is, c') \<and>
    caller_inv cnt I J p tid n i0 task Q (M \<union> set is) q' m' L' c'"
  using assms(6-8)
proof (induction "is" arbitrary: M c q m L)
  case (Cons i "is")
  obtain c1 q1 m1 L1 where c1: "core_turns S turns c = Some c1" "caller_inv cnt I J p tid n i0 task Q M q1 m1 L1 c1"
    using turns_inv [OF laws tasks Cons.prems(1) turns] by metis
  have i: "i < SHARDS" "i \<notin> M" "distinct is" "set is \<subseteq> {..<SHARDS} - insert i M"
    using Cons.prems(2,3) by auto
  obtain bq' L' where "submit_to_shard_idx S (\<lambda>_. True) tid (p + i) (\<lambda>w. (Inr (), w)) (queues c1 i) = Some (True, bq')"
      "caller_inv cnt I J p tid n i0 task Q (insert i M) q1 (m1(i := True)) L' (c1\<lparr>queues := (queues c1)(i := bq')\<rparr>)"
    using enqueue_marker_inv [OF laws c1(2) i(1,2) n] by (elim exE conjE) (rule that)
  with Cons.IH [OF this(2) i(3,4)] c1(1) show ?case
    by (elim exE conjE) (intro exI conjI, auto simp del: fun_upd_apply)
qed auto

text \<open>So when the calling thread has queued its tasks and waited, what the task of shard \<open>i0\<close> brings about holds.\<close>

lemma queue_and_wait:
  assumes laws: "semaphore_laws S cnt" and tasks: "tasks_ok I J p i0 task" and fair: "fair turns" and n: "n + 2 < 2 ^ 60" "valid_id tid"
    and idle: "\<forall>i < SHARDS. \<exists>l. queue_holds cnt (quiet I J p) tid n l (queues c i) []"
    and st: "I (world (shared c))" "\<forall>i < SHARDS. promises (shared c) (p + i) = None"
    and order: "distinct order" "set order \<subseteq> {..<SHARDS}" "i0 \<in> set order"
  shows "\<exists>c1 c2. queue_works S turns (\<lambda>_. True) tid task order c = Some c1 \<and> wait_all_shards S turns (\<lambda>_. True) tid p c1 = Some (Inr (), c2) \<and>
    I (world (shared c2)) \<and> J (world (shared c2))"
proof -
  have turns: "\<forall>k. set (turns k) \<subseteq> {..<SHARDS}"
    using fair by (simp add: fair_def)
  obtain L where "\<forall>i < SHARDS. queue_holds cnt (quiet I J p) tid n (L i) (queues c i) []"
    using idle by metis
  then have "caller_inv cnt I J p tid n i0 task {} {} (\<lambda>_. False) (\<lambda>_. False) L c"
    using st by (simp add: caller_inv_def)
  from queue_works_inv [OF laws tasks turns n this order(1)] order(2) obtain c1 q1 m1 L1 where
    c1: "queue_works S turns (\<lambda>_. True) tid task order c = Some c1" "caller_inv cnt I J p tid n i0 task (set order) {} q1 m1 L1 c1"
    by auto
  have all: "{0..<SHARDS} = {..<SHARDS}"
    by auto
  from submit_all_inv [OF laws tasks turns n c1(2), of "[0..<SHARDS]"] obtain c2 q2 m2 L2 where
    c2: "submit_all S turns (\<lambda>_. True) tid p [0..<SHARDS] c1 = Some (map (\<lambda>i. Some (p + i)) [0..<SHARDS], c2)"
      "caller_inv cnt I J p tid n i0 task (set order) {..<SHARDS} q2 m2 L2 c2"
    by (auto simp: all)
  from get_all_returns [OF laws tasks fair _ c2(2), of "[0..<SHARDS]"] obtain c3 q3 m3 L3 where
    c3: "get_all S turns (map (\<lambda>i. Some (p + i)) [0..<SHARDS]) c2 = Some (Inr (), c3)"
      "caller_inv cnt I J p tid n i0 task (set order) {..<SHARDS} q3 m3 L3 c3" "\<forall>j < SHARDS. \<not> m3 j"
    by (auto simp: all)
  have "I (world (shared c3))" "J (world (shared c3))"
    using c3(2,3) order(2,3) by (auto simp: caller_inv_def)
  then show ?thesis
    using c1(1) c2(1) c3(1) by (auto simp: wait_all_shards_def)
qed

subsection \<open>Batches become visible\<close>

abbreviation put_all :: "ext \<Rightarrow> (bytes \<times> bytes) list \<Rightarrow> store \<Rightarrow> store" where
  "put_all X \<equiv> fold (\<lambda>p st. apply_put X st (fst p) (snd p))"

lemma batch_task_run: "run_message (batch_task X us) st = st\<lparr>world := put_all X us (world st)\<rparr>"
  by (simp add: batch_task_def plain_task_def)

text \<open>A task of a batch does at once what as many turns of \<open>core_step\<close> do as it has updates.\<close>

lemma batch_task_core_steps:
  "e_pending e i = us @ r \<Longrightarrow> world st = e_store e \<Longrightarrow>
     world (run_message (batch_task X us) st) = e_store (fold (core_step X) (replicate (length us) i) e)"
  unfolding batch_task_run
proof (induction us arbitrary: e st)
  case (Cons u us)
  have "e_pending (core_step X i e) i = us @ r" "e_store (core_step X i e) = apply_put X (e_store e) (fst u) (snd u)"
    using Cons.prems(1) by (simp_all add: core_step_def split_def)
  with Cons.IH [of "core_step X i e" "st\<lparr>world := apply_put X (e_store e) (fst u) (snd u)\<rparr>"] Cons.prems(2) show ?case
    by simp
qed simp

lemma put_all_value:
  assumes "ext_laws X"
  shows "store_inv X st \<Longrightarrow> \<forall>u \<in> set us. fits X (snd u) \<Longrightarrow> store_inv X (put_all X us st) \<and>
    value_at X (put_all X us st) k = (case map_of (rev us) k of None \<Rightarrow> value_at X st k | Some v \<Rightarrow> Some (stored_form X v))"
proof (induction us arbitrary: st)
  case (Cons u us)
  have u: "fits X (snd u)" "\<forall>u \<in> set us. fits X (snd u)"
    using Cons.prems(2) by simp_all
  from Cons.IH [OF store_inv_put [OF assms Cons.prems(1) u(1), of "fst u"] u(2)] show ?case
    by (auto simp: value_at_put [OF assms Cons.prems(1) u(1)] map_add_def split: option.splits)
qed simp

lemma batch_tasks_ok:
  assumes "ext_laws X" and works: "works_ok X batch works" and k: "(k, v) \<in> set (works i0)" "batch_value X batch k = Some (Some v)"
    and other: "\<forall>k' \<in> set (object_keys X batch). meta_key_s k' \<noteq> k"
  shows "tasks_ok (store_inv X) (\<lambda>st. value_at X st k = Some (stored_form X v)) p i0 (\<lambda>i. batch_task X (works i))"
proof -
  have fit: "\<forall>u \<in> set (works i). fits X (snd u)" for i
    using works by (simp add: works_ok_def)
  have "w = v" if "(k, w) \<in> set (works i)" for i w
    using works that k(2) other unfolding works_ok_def by fastforce
  then have same: "map_of (rev (works i)) k = Some w \<Longrightarrow> w = v" for i w
    using map_of_SomeD [of "rev (works i)" k w] by simp
  have "map_of (rev (works i0)) k \<noteq> None"
    using k(1) by (metis fst_conv image_eqI map_of_eq_None_iff set_rev)
  then have "value_at X (put_all X (works i0) st) k = Some (stored_form X v)" if "store_inv X st" for st
    using put_all_value [OF assms(1) that fit, of i0 k] same [of i0] by (auto split: option.splits)
  moreover have "quiet (store_inv X) (\<lambda>st. value_at X st k = Some (stored_form X v)) p (batch_task X (works i))" for i
    unfolding quiet_def batch_task_run using put_all_value [OF assms(1) _ fit, of _ i k] same [of i] by (auto split: option.splits)
  ultimately show ?thesis
    by (simp add: tasks_ok_def batch_task_run)
qed

lemma works_shard:
  assumes "works_ok X batch works" and "works i \<noteq> []"
  shows "i < SHARDS"
proof -
  have "get_routing_shard X (fst (hd (works i))) = i"
    using assms by (simp add: works_ok_def)
  then show ?thesis
    using get_routing_shard_less by metis
qed

lemma run_holds:
  assumes "semaphore_laws S cnt" and "bq_run S (\<lambda>_. True) cap owner E D n' bq" and "cap < 2 ^ 60" and "n + 2 < 2 ^ 60" and "n' \<le> n"
    and "\<forall>v. \<forall>m \<in> set (drop (length (D v)) (E v)). P m"
  shows "\<exists>l. queue_holds cnt P tid n l bq []"
proof -
  have n': "n' < 2 ^ 60"
    using assms(4,5) by simp
  obtain cs where cs: "bq_inv cnt (\<lambda>_. True) owner E D n' bq cs"
    using bq_run_inv [OF assms(2,1,3) n'] by (elim exE)
  then have "E v = D v @ cs v" for v
    by (simp add: bq_inv_def run_inv_def)
  then have "\<forall>v. \<forall>m \<in> set (cs v). P m"
    using assms(6) by simp
  then have "queue_holds cnt P tid n (elements_left cs) bq []"
    by (intro holdsI [OF cs assms(5) refl, of _ _ 0 "cs 0"]) simp_all
  then show ?thesis ..
qed

text \<open>
  C36. A batch becomes visible. After a \<open>batch_put\<close> that returns normally, whose tasks are queued in any order of the shards, and a \<open>wait_all_shards\<close> by
  the same thread, which returns, every key of the batch reads as its value in the batch, unless the key is the metadata key of another
  key of the batch. The core threads go on as they like, each again and again; the queues hold tasks of other threads, any that keep the
  invariant of the store and do not change that value; there is memory, and no other thread submits tasks meanwhile.
\<close>

theorem batch_put_visible:
  assumes "ext_laws X" and "meta_small X" and "store_inv X (e_store e)" and "\<forall>i. e_pending e i = []"
    and "\<forall>k v. batch_value X batch k = Some (Some v) \<longrightarrow> fits X v" and "batch_put X mem e batch uid = Some (Inr (), e1)"
    and "k \<in> set (object_keys X batch)" and "batch_value X batch k = Some (Some v)" and "\<forall>k' \<in> set (object_keys X batch). meta_key_s k' \<noteq> k"
    and "semaphore_laws S cnt" and "fair turns" and "valid_id tid" and "cap < 2 ^ 60" and "n + 2 < 2 ^ 60"
    and "\<forall>i < SHARDS. \<exists>owner E D n'. bq_run S (\<lambda>_. True) cap owner E D n' (queues c i) \<and> n' \<le> n \<and>
      (\<forall>j. \<forall>m \<in> set (drop (length (D j)) (E j)). quiet (store_inv X) (\<lambda>st. value_at X st k = Some (stored_form X v)) p m)"
    and "world (shared c) = e_store e1" and "\<forall>i < SHARDS. promises (shared c) (p + i) = None"
    and "distinct order" and "set order = {i. e_pending e1 i \<noteq> []}"
  shows "\<exists>c1 c2. queue_works S turns (\<lambda>_. True) tid (\<lambda>i. batch_task X (e_pending e1 i)) order c = Some c1 \<and>
    wait_all_shards S turns (\<lambda>_. True) tid p c1 = Some (Inr (), c2) \<and>
    engine_get X (e1\<lparr>e_store := world (shared c2), e_pending := \<lambda>_. []\<rparr>) k ADMIN_UID = stored_form X v"
proof -
  let ?J = "\<lambda>st. value_at X st k = Some (stored_form X v)"
  note q = batch_put_queues [OF assms(1,2,6,4,5)]
  have kv: "(k, v) \<in> set (e_pending e1 (get_routing_shard X k))"
    using q assms(7,8) by blast
  have tasks: "tasks_ok (store_inv X) ?J p (get_routing_shard X k) (\<lambda>i. batch_task X (e_pending e1 i))"
    by (rule batch_tasks_ok [OF assms(1) conjunct1 [OF q] kv assms(8,9)])
  have inv: "store_inv X (world (shared c))"
    using assms(3,16) batch_put_store [OF assms(6)] by simp
  have idle: "\<forall>i < SHARDS. \<exists>l. queue_holds cnt (quiet (store_inv X) ?J p) tid n l (queues c i) []"
    using assms(15) run_holds [OF assms(10) _ assms(13,14)] by blast
  have "i < SHARDS" if "e_pending e1 i \<noteq> []" for i
    using works_shard [OF conjunct1 [OF q] that] .
  then have "set order \<subseteq> {..<SHARDS}" "get_routing_shard X k \<in> set order"
    using assms(19) kv by auto
  from queue_and_wait [OF assms(10) tasks assms(11,14,12) idle inv assms(17,18) this] show ?thesis
    by (auto simp: engine_get_admin)
qed

theorem batch_put_visible_witness:
  "\<exists>e1 order c c1 c2. batch_put demo (\<lambda>_ _. 0) sample_engine sample_batch ADMIN_UID = Some (Inr (), e1) \<and>
     queue_works counting_semaphore (\<lambda>_. [0..<SHARDS]) (\<lambda>_. True) 9 (\<lambda>i. batch_task demo (e_pending e1 i)) order c = Some c1 \<and>
     wait_all_shards counting_semaphore (\<lambda>_. [0..<SHARDS]) (\<lambda>_. True) 9 1 c1 = Some (Inr (), c2) \<and>
     engine_get demo (e1\<lparr>e_store := world (shared c2), e_pending := \<lambda>_. []\<rparr>) (bs ''k'') ADMIN_UID = bs ''v''"
proof -
  obtain e1 where e1: "batch_put demo (\<lambda>_ _. 0) sample_engine sample_batch ADMIN_UID = Some (Inr (), e1)"
    using sample_batch_put ..
  have e: "store_inv demo (e_store sample_engine)" "\<forall>i. e_pending sample_engine i = []"
    using sample_store_init by (simp, simp add: sample_engine_def engine_open_def split_def Let_def)
  have fit: "\<forall>k v. batch_value demo sample_batch k = Some (Some v) \<longrightarrow> fits demo v"
    using sample_fits(1) by (auto simp: sample_batch_value simp del: bs_Cons)
  have k: "bs ''k'' \<in> set (object_keys demo sample_batch)" "batch_value demo sample_batch (bs ''k'') = Some (Some (bs ''v''))"
    "\<forall>k' \<in> set (object_keys demo sample_batch). meta_key_s k' \<noteq> bs ''k''"
    using meta_key_s_neq [of "bs ''k''"] by (simp_all add: sample_batch_keys sample_batch_value del: bs_Cons)
  let ?m = "promise_task 0 (\<lambda>w. (Inr (), w)) :: (store, unit) core_state core_message"
  obtain owner w and bq :: "((store, unit) core_state core_message, nat) blocking_queue" where
    run: "bq_run counting_semaphore (\<lambda>_. True) 64 owner ((\<lambda>_. [])(w := [?m])) (\<lambda>_. []) 1 bq"
    using sample_bq_run [of ?m] by (elim exE)
  let ?c = "\<lparr>queues = (\<lambda>_. bq), shared = \<lparr>world = e_store e1, promises = Map.empty\<rparr>, steps = 0\<rparr>"
  have "quiet I J 1 ?m" for I J :: "store \<Rightarrow> bool"
    by (simp add: quiet_def promise_task_run)
  then have queues: "\<forall>i < SHARDS. \<exists>owner E D n'. bq_run counting_semaphore (\<lambda>_. True) 64 owner E D n' (queues ?c i) \<and> n' \<le> 1 \<and>
      (\<forall>j. \<forall>m \<in> set (drop (length (D j)) (E j)). quiet I J 1 m)" for I J
    using run by (intro allI impI exI conjI) auto
  let ?order = "filter (\<lambda>i. e_pending e1 i \<noteq> []) [0..<SHARDS]"
  have "i < SHARDS" if "e_pending e1 i \<noteq> []" for i
    using works_shard [OF conjunct1 [OF batch_put_queues [OF demo_ext_laws demo_meta_small e1 e(2) fit]] that] .
  then have order: "distinct ?order" "set ?order = {i. e_pending e1 i \<noteq> []}"
    by auto
  have "fair (\<lambda>_. [0..<SHARDS])" "valid_id 9"
    by (auto simp: fair_def valid_id_def invalid_thread_id_def invalid_thread_id2_def)
  from batch_put_visible [OF demo_ext_laws demo_meta_small e fit e1 k counting_semaphore_laws this _ _ queues _ _ order]
  show ?thesis
    using e1 sample_fits(2) by auto
qed

end
