(* ===== verification/Wait_Order.thy ===== *)
theory Wait_Order
  imports Batch_Wait
begin

text \<open>
  What \<open>wait_all_shards\<close> does not wait for. The queue of a shard keeps the order of each thread that puts tasks in, not the order among
  threads: the core thread takes from the largest of the first three producers with tasks, the newest first, so that the empty task of the
  waiting thread can overtake tasks that others have queued before.
\<close>

subsection \<open>Which producer is chosen\<close>

lemma best_stays: "\<forall>j \<in> set is. producer_size_approx (prs ! j) \<le> s \<Longrightarrow> snd (best_producer prs is m (Some v) s) = Some v"
  by (induction "is" arbitrary: m) (auto simp: Let_def)

lemma best_counts: "m \<le> fst (best_producer prs is m b s)"
proof (induction "is" arbitrary: m b s)
  case (Cons i "is")
  then show ?case
    using Cons.IH [of "m + 1"] by (auto simp: Let_def intro: order_trans [of m "m + 1"] simp del: One_nat_def)
qed simp

lemma best_skips: "\<forall>j \<in> set xs. producer_size_approx (prs ! j) = 0 \<Longrightarrow> best_producer prs (xs @ ys) 0 None 0 = best_producer prs ys 0 None 0"
  by (induction xs) simp_all

lemma newest_chosen:
  assumes con: "contents q owner cs" and v: "v < length (producers q)" "cs v = [x]" and new: "\<forall>j > v. cs j = []" and old: "\<forall>j < v. length (cs j) \<le> 1"
  shows "\<exists>q'. cq_try_dequeue q = Some (Some x, q') \<and> headIndex (producers q' ! v) \<noteq> headIndex (producers q ! v)"
proof -
  obtain H ad where thr: "threads_ok owner q" and data: "data_ok q H ad cs"
    using con by (auto simp: contents_def)
  let ?prs = "producers q"
  have size: "producer_size_approx (?prs ! i) = word_of_nat (length (cs i))" if "i < length ?prs" for i
    using data that unfolding data_ok_def by (intro producer_size_exact) blast
  have "[0..<length ?prs] = [0..<v] @ v # [Suc v..<length ?prs]"
    using v(1) by (metis le_add_same_cancel1 less_imp_le upt_add_eq_append upt_conv_Cons le_add_diff_inverse zero_le)
  then have split: "producer_list q = rev [Suc v..<length ?prs] @ v # rev [0..<v]"
    by (simp add: producer_list_def)
  have "best_producer ?prs (producer_list q) 0 None 0 = best_producer ?prs (v # rev [0..<v]) 0 None 0"
    unfolding split using size new by (intro best_skips) simp
  also have "\<dots> = best_producer ?prs (rev [0..<v]) 1 (Some v) 1"
    using size [OF v(1)] v(2) by simp
  finally have best: "best_producer ?prs (producer_list q) 0 None 0 = best_producer ?prs (rev [0..<v]) 1 (Some v) 1" .
  have "producer_size_approx (?prs ! j) \<le> 1" if "j < v" for j
    using size [of j] that v(1) old by (cases "cs j") fastforce+
  then have "snd (best_producer ?prs (rev [0..<v]) 1 (Some v) 1) = Some v" "1 \<le> fst (best_producer ?prs (rev [0..<v]) 1 (Some v) 1)"
    by (intro best_stays) (auto intro: best_counts simp del: One_nat_def)
  moreover obtain q' where "dequeue_from v q = Some (Some x, q')" "headIndex (producers q' ! v) \<noteq> headIndex (producers q ! v)"
    using dequeue_on_producer [OF thr data v] v(1) by auto
  ultimately show ?thesis
    unfolding cq_try_dequeue_def best by (auto simp: split_def Let_def)
qed

lemma newest_dequeued:
  assumes laws: "semaphore_laws S cnt" and inv: "bq_inv cnt mem owner E D n bq cs"
    and v: "v < length (producers (inner bq))" "cs v = [x]" and "\<forall>j > v. cs j = []" and "\<forall>j < v. length (cs j) \<le> 1"
  shows "\<exists>bq'. wait_dequeue_timed S 50000 bq = Some (Some x, bq') \<and> bq_inv cnt mem owner E (D(v := D v @ [x])) n bq' (cs(v := []))"
proof -
  have con: "contents (inner bq) owner cs"
    using inv by (simp add: bq_inv_def run_inv_def)
  obtain q' where q': "cq_try_dequeue (inner bq) = Some (Some x, q')" "headIndex (producers q' ! v) \<noteq> headIndex (producers (inner bq) ! v)"
    using newest_chosen [OF con assms(3-6)] by (elim exE conjE) (rule that)
  have deq: "dequeues S bq (wait_dequeue_timed S 50000 bq)"
    unfolding dequeues_def by (intro disjI2 exI [of _ 50000]) simp
  have "cs v \<noteq> []"
    using v(2) by simp
  with dequeues_spec [OF laws inv deq] obtain w y ys bq' where w: "cs w = y # ys" "wait_dequeue_timed S 50000 bq = Some (Some y, bq')"
      "bq_inv cnt mem owner E (D(w := D w @ [y])) n bq' (cs(w := ys))"
      "headIndex (producers (inner bq') ! v) \<noteq> headIndex (producers (inner bq) ! v) \<longleftrightarrow> v = w"
    using v(1) by (elim disjE exE conjE) (blast+)
  have "inner bq' = q'"
    using w(2) dequeue_loop_first [OF q'(1)] by (auto simp: wait_dequeue_timed_def bq_dequeue_if_def split: if_splits)
  with w(4) q'(2) have "v = w"
    by simp
  with w v(2) show ?thesis
    by auto
qed

subsection \<open>One shard\<close>

text \<open>
  Either nothing waits in the queue, or the calling thread has nothing there, nor have the threads that joined after it, and the threads
  that joined before it have at most one task each.
\<close>

definition overtakes :: "u64 \<Rightarrow> (u64 \<rightharpoonup> nat) \<Rightarrow> (nat \<Rightarrow> 'm list) \<Rightarrow> (nat \<Rightarrow> 'm list) \<Rightarrow> bool" where
  "overtakes tid owner E D \<longleftrightarrow> (\<forall>j. D j = E j) \<or>
     (\<exists>v. owner tid = Some v \<and> (\<forall>j \<ge> v. D j = E j) \<and> (\<forall>j < v. length (E j) \<le> Suc (length (D j))))"

lemma marker_overtakes:
  fixes bq :: "(('w, unit) core_state core_message, 's) blocking_queue"
  assumes laws: "semaphore_laws S cnt" and run: "bq_run S (\<lambda>_. True) cap owner E D n bq" and "cap < 2 ^ 60" and "n < 2 ^ 60" and "valid_id tid"
    and over: "overtakes tid owner E D"
  shows "\<exists>bq1 bq2. submit_to_shard_idx S (\<lambda>_. True) tid p (\<lambda>w. (Inr (), w)) bq = Some (True, bq1) \<and>
    (\<forall>st. core_round S bq1 st = Some (bq2, run_message (promise_task p (\<lambda>w. (Inr (), w))) st)) \<and> bq_size_approx S bq2 = bq_size_approx S bq"
proof -
  let ?x = "promise_task p (\<lambda>w. (Inr (), w)) :: ('w, unit) core_state core_message"
  obtain cs where inv: "bq_inv cnt (\<lambda>_. True) owner E D n bq cs"
    using bq_run_inv [OF run laws assms(3,4)] by (elim exE)
  then have E: "E j = D j @ cs j" for j
    by (simp add: bq_inv_def run_inv_def)
  obtain v bq1 where e: "bq_enqueue S (\<lambda>_. True) tid ?x bq = Some (True, bq1)" "owner tid = None \<or> owner tid = Some v"
      "bq_inv cnt (\<lambda>_. True) (owner(tid \<mapsto> v)) (E(v := E v @ [?x])) D (Suc n) bq1 (cs(v := cs v @ [?x]))"
    using bq_enqueue_spec [OF laws inv assms(4,5), of ?x] by (auto split: option.splits)
  have cs: "cs v = []" "\<forall>j > v. cs j = []" "\<forall>j < v. length (cs j) \<le> 1"
    using over e(2) unfolding overtakes_def E by auto
  have "threads_ok (owner(tid \<mapsto> v)) (inner bq1)"
    using e(3) by (simp add: bq_inv_def run_inv_def contents_def)
  then have "v < length (producers (inner bq1))"
    by (rule owner_lt [of _ _ tid]) simp
  with newest_dequeued [OF laws e(3), of v ?x] cs obtain bq2 where d: "wait_dequeue_timed S 50000 bq1 = Some (Some ?x, bq2)"
      "cnt (sema bq2) = elements_left cs"
    by (auto simp: bq_inv_def fun_upd_idem)
  have "core_round S bq1 st = Some (bq2, run_message ?x st)" for st
    using d(1) by (simp add: core_round_def)
  moreover have "bq_size_approx S bq2 = bq_size_approx S bq"
    using laws d(2) inv by (simp add: bq_size_approx_def semaphore_laws_def bq_inv_def)
  ultimately show ?thesis
    using e(1) unfolding submit_to_shard_idx_def by blast
qed

subsection \<open>All shards\<close>

text \<open>A fair schedule: the core threads pause while the empty tasks are submitted, then take turns one after the other.\<close>

definition one_after_the_other :: "nat \<Rightarrow> nat list" where
  "one_after_the_other k = (if k < SHARDS then [] else [k mod SHARDS])"

lemma one_after_the_other_fair: "fair one_after_the_other"
proof -
  have "\<exists>k' \<ge> k. i \<in> set (one_after_the_other k')" if "i < SHARDS" for i k
  proof (intro exI [of _ "i + SHARDS * Suc k"] conjI)
    show "k \<le> i + SHARDS * Suc k"
      by (simp add: SHARDS_def)
    have "(i + SHARDS * Suc k) mod SHARDS = i"
      using that by (simp only: mod_mult_self2 mod_less)
    then show "i \<in> set (one_after_the_other (i + SHARDS * Suc k))"
      by (simp add: one_after_the_other_def)
  qed
  moreover have "set (one_after_the_other k) \<subseteq> {..<SHARDS}" for k
    by (simp add: one_after_the_other_def SHARDS_def)
  ultimately show ?thesis
    by (simp add: fair_def)
qed

lemma submit_all_paused:
  assumes "\<forall>i \<in> set is. submit_to_shard_idx S mem tid (p + i) (\<lambda>w. (Inr (), w)) (queues c i) = Some (True, bq1 i)" and "distinct is"
    and "steps c + length is \<le> SHARDS"
  shows "\<exists>c'. submit_all S one_after_the_other mem tid p is c = Some (map (\<lambda>i. Some (p + i)) is, c') \<and> shared c' = shared c \<and>
    steps c' = steps c + length is \<and> (\<forall>i. queues c' i = (if i \<in> set is then bq1 i else queues c i))"
  using assms
proof (induction "is" arbitrary: c)
  case (Cons i "is")
  let ?c = "c\<lparr>steps := Suc (steps c), queues := (queues c)(i := bq1 i)\<rparr>"
  have "core_turns S one_after_the_other c = Some (c\<lparr>steps := Suc (steps c)\<rparr>)"
    using Cons.prems(3) by (simp add: core_turns_def one_after_the_other_def)
  moreover have "\<forall>j \<in> set is. submit_to_shard_idx S mem tid (p + j) (\<lambda>w. (Inr (), w)) (queues ?c j) = Some (True, bq1 j)"
    using Cons.prems(1,2) by auto
  then obtain c' where "submit_all S one_after_the_other mem tid p is ?c = Some (map (\<lambda>i. Some (p + i)) is, c')" "shared c' = shared c"
      "steps c' = Suc (steps c) + length is" "\<forall>j. queues c' j = (if j \<in> set is then bq1 j else queues ?c j)"
    using Cons.IH [of ?c] Cons.prems(2,3) by auto
  ultimately show ?case
    using Cons.prems(1) by auto
qed simp

lemma get_all_one_round:
  assumes "\<forall>i < SHARDS. \<forall>st. core_round S (bq1 i) st = Some (bq2 i, run_message (marker p i) st)"
    and "\<forall>i < SHARDS. queues c i = (if i < j then bq2 i else bq1 i) \<and> (j \<le> i \<longrightarrow> promises (shared c) (p + i) = None)" and "steps c = SHARDS + j"
    and "j \<le> SHARDS"
  shows "\<exists>c'. get_all S one_after_the_other (map (\<lambda>i. Some (p + i)) [j..<SHARDS]) c = Some (Inr (), c') \<and> world (shared c') = world (shared c) \<and>
    (\<forall>i < SHARDS. queues c' i = bq2 i)"
  using assms(2-4)
proof (induction "SHARDS - j" arbitrary: j c)
  case (Suc d)
  then have j: "j < SHARDS"
    by simp
  let ?c = "c\<lparr>steps := Suc (steps c), queues := (queues c)(j := bq2 j), shared := run_message (marker p j) (shared c)\<rparr>"
  have "one_after_the_other (steps c) = [j]"
    using j Suc.prems(2) by (simp add: one_after_the_other_def)
  then have "core_turns S one_after_the_other c = Some ?c"
    using assms(1) Suc.prems(1) j by (simp add: core_turns_def)
  moreover have "await S one_after_the_other (p + j) ?c = Some (Inr (), ?c)"
    by (subst await.simps) (simp add: marker_quiet)
  ultimately have "await S one_after_the_other (p + j) c = Some (Inr (), ?c)"
    using Suc.prems(1) j by (subst await.simps) simp
  moreover have "d = SHARDS - Suc j"
    using Suc.hyps(2) by arith
  then obtain c' where "get_all S one_after_the_other (map (\<lambda>i. Some (p + i)) [Suc j..<SHARDS]) ?c = Some (Inr (), c')"
      "world (shared c') = world (shared c)" "\<forall>i < SHARDS. queues c' i = bq2 i"
    using Suc.hyps(1) [of "Suc j" ?c] Suc.prems j by (auto simp: marker_quiet)
  ultimately show ?case
    using j by (simp add: upt_conv_Cons)
qed simp

text \<open>
  C39. Waiting for the shards does not wait for what other threads have queued. Take any state in which every queue has come from a run and, on
  each shard, either nothing waits, or the calling thread and those that joined the queue after it have nothing there and those before
  it at most one task each. Then there is a fair schedule of the core threads with which \<open>wait_all_shards\<close> returns normally although not one of the queued
  tasks has been run: the store is as before, and every queue as long as before.
\<close>

theorem wait_misses_other_threads:
  assumes "semaphore_laws S cnt" and "valid_id tid" and "cap < 2 ^ 60"
    and "\<forall>i < SHARDS. \<exists>owner E D n. bq_run S (\<lambda>_. True) cap owner E D n (queues c i) \<and> n < 2 ^ 60 \<and> overtakes tid owner E D"
    and "\<forall>i < SHARDS. promises (shared c) (p + i) = None" and "steps c = 0"
  shows "\<exists>turns c'. fair turns \<and> wait_all_shards S turns (\<lambda>_. True) tid p c = Some (Inr (), c') \<and> world (shared c') = world (shared c) \<and>
    (\<forall>i < SHARDS. bq_size_approx S (queues c' i) = bq_size_approx S (queues c i))"
proof -
  have "\<forall>i. \<exists>bq1 bq2. i < SHARDS \<longrightarrow> submit_to_shard_idx S (\<lambda>_. True) tid (p + i) (\<lambda>w. (Inr (), w)) (queues c i) = Some (True, bq1) \<and>
      (\<forall>st. core_round S bq1 st = Some (bq2, run_message (marker p i) st)) \<and> bq_size_approx S bq2 = bq_size_approx S (queues c i)"
    using marker_overtakes [OF assms(1) _ assms(3) _ assms(2)] assms(4) by metis
  then obtain bq1 bq2 where bq: "\<forall>i < SHARDS. submit_to_shard_idx S (\<lambda>_. True) tid (p + i) (\<lambda>w. (Inr (), w)) (queues c i) = Some (True, bq1 i)"
      "\<forall>i < SHARDS. \<forall>st. core_round S (bq1 i) st = Some (bq2 i, run_message (marker p i) st)"
      "\<forall>i < SHARDS. bq_size_approx S (bq2 i) = bq_size_approx S (queues c i)"
    by metis
  obtain c1 where c1: "submit_all S one_after_the_other (\<lambda>_. True) tid p [0..<SHARDS] c = Some (map (\<lambda>i. Some (p + i)) [0..<SHARDS], c1)"
      "shared c1 = shared c" "steps c1 = SHARDS" "\<forall>i < SHARDS. queues c1 i = bq1 i"
    using submit_all_paused [of "[0..<SHARDS]" S "\<lambda>_. True" tid p c bq1] bq(1) assms(6) by auto
  obtain c2 where c2: "get_all S one_after_the_other (map (\<lambda>i. Some (p + i)) [0..<SHARDS]) c1 = Some (Inr (), c2)"
      "world (shared c2) = world (shared c1)" "\<forall>i < SHARDS. queues c2 i = bq2 i"
    using get_all_one_round [OF bq(2), of c1 0] c1 assms(5) by auto
  show ?thesis
    using c1 c2 bq(3) one_after_the_other_fair
    by (intro exI [of _ one_after_the_other] exI [of _ c2]) (simp add: wait_all_shards_def)
qed

subsection \<open>A queue with a task of another thread\<close>

definition add_one :: "(nat, unit) core_state core_message" where
  "add_one = plain_task (\<lambda>w. (Inr (), Suc w))"

text \<open>Threads 7 and 9 submit a task each, and the core thread goes one round.\<close>

lemma sample_two_threads:
  "do {
     bq \<leftarrow> new_blocking_queue counting_semaphore (\<lambda>_. True) 64;
     (v, q) \<leftarrow> get_or_add_implicit_producer (\<lambda>_. True) 7 (inner bq);
     (ok, bq) \<leftarrow> bq_enqueue counting_semaphore (\<lambda>_. True) 7 add_one bq;
     (v2, q) \<leftarrow> get_or_add_implicit_producer (\<lambda>_. True) 9 (inner bq);
     (ok2, bq) \<leftarrow> bq_enqueue counting_semaphore (\<lambda>_. True) 9 add_one bq;
     (r, bq2) \<leftarrow> wait_dequeue_timed counting_semaphore 50000 bq;
     Some (v, ok, v2, ok2, r = None, length (producers (inner bq)), headIndex (producers (inner bq2) ! 1) = headIndex (producers (inner bq) ! 1))
   } = Some (Some 0, True, Some 1, True, False, 2, False)"
  by code_simp

lemma sample_overtakes:
  "\<exists>owner E D n bq. bq_run counting_semaphore (\<lambda>_. True) 64 owner E D n bq \<and> n < 2 ^ 60 \<and> overtakes 9 owner E D \<and>
     D 0 = [] \<and> E 0 = [add_one] \<and> bq_size_approx counting_semaphore bq = 1"
proof -
  obtain bq0 q1 bq1 q2 bq2 r bq3 where e: "new_blocking_queue counting_semaphore (\<lambda>_. True) 64 = Some bq0"
      "get_or_add_implicit_producer (\<lambda>_. True) 7 (inner bq0) = Some (Some 0, q1)"
      "bq_enqueue counting_semaphore (\<lambda>_. True) 7 add_one bq0 = Some (True, bq1)"
      "get_or_add_implicit_producer (\<lambda>_. True) 9 (inner bq1) = Some (Some 1, q2)"
      "bq_enqueue counting_semaphore (\<lambda>_. True) 9 add_one bq1 = Some (True, bq2)"
      "wait_dequeue_timed counting_semaphore 50000 bq2 = Some (r, bq3)" "r \<noteq> None" "length (producers (inner bq2)) = 2"
      "headIndex (producers (inner bq3) ! 1) \<noteq> headIndex (producers (inner bq2) ! 1)"
    using sample_two_threads by (auto simp: bind_eq_Some_conv)
  have ids: "valid_id 7" "valid_id 9"
    by (simp_all add: valid_id_def invalid_thread_id_def invalid_thread_id2_def)
  have enq: "enqueues counting_semaphore (\<lambda>_. True) 7 add_one bq0 (Some (True, bq1))" "enqueues counting_semaphore (\<lambda>_. True) 9 add_one bq1 (Some (True, bq2))"
    using e(3,5) by (simp_all add: enqueues_def)
  obtain x where x: "r = Some x"
    using e(7) by blast
  have deq: "dequeues counting_semaphore bq2 (Some (Some x, bq3))"
    unfolding dequeues_def using e(6) x by (intro disjI2 exI [of _ 50000]) simp
  let ?E = "((\<lambda>_. [])(0 := [add_one]))(1 := [add_one]) :: nat \<Rightarrow> _" and ?D = "(\<lambda>_. [])(1 := [x])"
  have run: "bq_run counting_semaphore (\<lambda>_. True) 64 [7 \<mapsto> 0, 9 \<mapsto> 1] ?E ?D 2 bq3"
    using bq_run.Bq_Dequeue [OF bq_run.Bq_Enqueue [OF bq_run.Bq_Enqueue [OF bq_run.Bq_Start [OF e(1)] ids(1) e(2) enq(1)] ids(2) e(4) enq(2)] deq _ e(9)]
      e(8) by (simp add: numeral_2_eq_2)
  obtain cs where inv: "bq_inv id (\<lambda>_. True) [7 \<mapsto> 0, 9 \<mapsto> 1] ?E ?D 2 bq3 cs"
    using bq_run_inv [OF run counting_semaphore_laws] by auto
  then have split: "?E i = ?D i @ cs i" for i
    by (simp only: bq_inv_def run_inv_def)
  have "x = add_one"
    using split [of 1] by simp
  have "cs i = ((\<lambda>_. [])(0 := [add_one])) i" for i
    using split [of i] by (cases "i = 0"; cases "i = 1") simp_all
  then have cs: "cs = (\<lambda>_. [])(0 := [add_one])" ..
  have "overtakes 9 [7 \<mapsto> 0, 9 \<mapsto> 1] ?E ?D"
    unfolding overtakes_def \<open>x = add_one\<close> by (intro disjI2 exI [of _ 1]) auto
  moreover have "bq_size_approx counting_semaphore bq3 = 1"
    using inv unfolding cs by (simp add: bq_inv_def bq_size_approx_def counting_semaphore_def elements_left_def)
  ultimately show ?thesis
    using run by (intro exI [of _ "[7 \<mapsto> 0, 9 \<mapsto> 1]"] exI [of _ ?E] exI [of _ ?D] exI [of _ 2] exI [of _ bq3]) simp
qed

theorem wait_misses_other_threads_witness:
  "\<exists>(c :: (nat, nat) cores) turns c'. bq_size_approx counting_semaphore (queues c 3) = 1 \<and> fair turns \<and>
     wait_all_shards counting_semaphore turns (\<lambda>_. True) 9 0 c = Some (Inr (), c') \<and> world (shared c') = 5 \<and>
     bq_size_approx counting_semaphore (queues c' 3) = 1"
proof -
  obtain owner E D n and bq :: "((nat, unit) core_state core_message, nat) blocking_queue" where
    bq: "bq_run counting_semaphore (\<lambda>_. True) 64 owner E D n bq" "n < 2 ^ 60" "overtakes 9 owner E D" "bq_size_approx counting_semaphore bq = 1"
    using sample_overtakes by (elim exE conjE) (rule that)
  let ?c = "\<lparr>queues = (\<lambda>_. bq), shared = \<lparr>world = 5, promises = Map.empty\<rparr>, steps = 0\<rparr> :: (nat, nat) cores"
  have "\<forall>i < SHARDS. \<exists>owner E D n. bq_run counting_semaphore (\<lambda>_. True) 64 owner E D n (queues ?c i) \<and> n < 2 ^ 60 \<and> overtakes 9 owner E D"
    using bq(1-3) by (intro allI impI exI conjI) simp_all
  moreover have "valid_id 9" "3 < SHARDS"
    by (simp_all add: valid_id_def invalid_thread_id_def invalid_thread_id2_def SHARDS_def)
  ultimately obtain turns c' where "fair turns" "wait_all_shards counting_semaphore turns (\<lambda>_. True) 9 0 ?c = Some (Inr (), c')"
      "world (shared c') = 5" "bq_size_approx counting_semaphore (queues c' 3) = 1"
    using wait_misses_other_threads [OF counting_semaphore_laws, of 9 64 ?c 0] bq(4) by auto
  then show ?thesis
    using bq(4) by (intro exI [of _ ?c] exI [of _ turns] exI [of _ c']) simp
qed

end
