(* ===== verification/Cq_Destroy.thy ===== *)
theory Cq_Destroy
  imports Cq_Runs
begin

text \<open>
  The end of a queue (the destructors in \<open>lib/concurrentqueue/concurrentqueue.h\<close>): every element that is left is
  destroyed, and every block is given back. Destroying an element that is not there, or a block that was given back
  before, is a result \<open>None\<close>. The headers of block indices and hash tables are not part of the modelled memory.
\<close>

subsection \<open>The destructor of a producer\<close>

definition enter_block :: "producer \<Rightarrow> u64 \<Rightarrow> addr option \<Rightarrow> 'a pool \<Rightarrow> (addr option \<times> 'a pool) option" where
  "enter_block pr index blk p =
     (if slot index = 0 \<or> blk = None
      then do {
        p \<leftarrow> (case blk of None \<Rightarrow> Some p | Some a \<Rightarrow> add_block_to_free_list a p);
        bi \<leftarrow> blockIndex pr;
        Some (snd (bi_index bi ! get_block_index_index_for_index index bi), p)
      }
      else Some (blk, p))"

definition destroy_element :: "u64 \<Rightarrow> addr option \<Rightarrow> 'a pool \<Rightarrow> ('a \<times> 'a pool) option" where
  "destroy_element index blk p =
     do {
       a \<leftarrow> blk;
       b \<leftarrow> memory p a;
       x \<leftarrow> elements b (slot index);
       p \<leftarrow> modify a (destruct index) p;
       Some (x, p)
     }"

function destroy_elements :: "producer \<Rightarrow> u64 \<Rightarrow> u64 \<Rightarrow> addr option \<Rightarrow> 'a pool \<Rightarrow> ('a list \<times> 'a pool) option" where
  "destroy_elements pr index tail blk p =
     (if index = tail then Some ([], p)
      else do {
        (blk, p) \<leftarrow> enter_block pr index blk p;
        (x, p) \<leftarrow> destroy_element index blk p;
        (xs, p) \<leftarrow> destroy_elements pr (index + 1) tail blk p;
        Some (x # xs, p)
      })"
  by pat_completeness auto

lemma distance_decreases:
  assumes "index \<noteq> tail"
  shows "unat (tail - (index + 1) :: u64) < unat (tail - index)"
proof -
  have d: "tail - index \<noteq> 0"
    using assms by simp
  then have "0 < unat (tail - index)"
    by (simp add: unat_gt_0)
  then have "unat (tail - index - 1) < unat (tail - index)"
    unfolding unat_minus_one [OF d] by linarith
  then show ?thesis
    by (simp only: diff_diff_eq)
qed

termination destroy_elements
  by (relation "measure (\<lambda>(pr, index, tail, blk, p). unat (tail - index))") (auto intro: distance_decreases)

declare destroy_elements.simps [simp del]

definition destroy_producer :: "producer \<Rightarrow> 'a pool \<Rightarrow> ('a list \<times> 'a pool) option" where
  "destroy_producer pr p =
     do {
       (xs, p) \<leftarrow> destroy_elements pr (headIndex pr) (tailIndex pr) None p;
       p \<leftarrow> (case tailBlock pr of
           Some a \<Rightarrow> if headIndex pr \<noteq> tailIndex pr \<or> slot (tailIndex pr) \<noteq> 0 then add_block_to_free_list a p else Some p
         | None \<Rightarrow> Some p);
       Some (xs, p)
     }"

subsection \<open>The destructor of the queue\<close>

primrec destroy_producers :: "producer list \<Rightarrow> nat list \<Rightarrow> 'a pool \<Rightarrow> ('a list list \<times> 'a pool) option" where
  "destroy_producers prs [] p = Some ([], p)"
| "destroy_producers prs (i # is) p =
     do {
       (xs, p) \<leftarrow> destroy_producer (prs ! i) p;
       (xss, p) \<leftarrow> destroy_producers prs is p;
       Some (xs # xss, p)
     }"

partial_function (option) destroy_free_list :: "addr option \<Rightarrow> 'a pool \<Rightarrow> 'a pool option" where
  "destroy_free_list blk p =
     (case blk of
        None \<Rightarrow> Some p
      | Some a \<Rightarrow> do {
          b \<leftarrow> memory p a;
          destroy_free_list (freeListNext b) (if dynamicallyAllocated b then p\<lparr>memory := (memory p)(a := None)\<rparr> else p)
        })"

primrec destroy_array :: "nat \<Rightarrow> 'a pool \<Rightarrow> 'a pool option" where
  "destroy_array 0 p = Some p"
| "destroy_array (Suc i) p =
     do {
       b \<leftarrow> memory p i;
       destroy_array i (p\<lparr>memory := (memory p)(i := None)\<rparr>)
     }"

definition destroy_queue :: "'a queue \<Rightarrow> ('a list list \<times> 'a pool) option" where
  "destroy_queue q =
     do {
       (xss, p) \<leftarrow> destroy_producers (producers q) (producer_list q) (q_pool q);
       p \<leftarrow> destroy_free_list (freeListHead p) p;
       p \<leftarrow> destroy_array (unat (initialBlockPoolSize p)) p;
       Some (xss, p)
     }"

subsection \<open>Every element once\<close>

text \<open>The elements from index \<open>i\<close> on, and the block the loop is in: none at first, and otherwise the one of the index before.\<close>

definition stored :: "'a pool \<Rightarrow> (nat \<Rightarrow> addr) \<Rightarrow> nat \<Rightarrow> 'a list \<Rightarrow> bool" where
  "stored p ad i ys \<longleftrightarrow>
     (\<forall>j < length ys. \<exists>b. memory p (ad ((i + j) div BLOCK_SIZE)) = Some b \<and> elements b ((i + j) mod BLOCK_SIZE) = Some (ys ! j))"

definition in_block :: "(nat \<Rightarrow> addr) \<Rightarrow> nat \<Rightarrow> nat \<Rightarrow> addr option \<Rightarrow> bool" where
  "in_block ad i cur blk \<longleftrightarrow>
     blk = None \<and> cur = i div BLOCK_SIZE \<or>
     blk = Some (ad cur) \<and> i div BLOCK_SIZE = (if i mod BLOCK_SIZE = 0 then Suc cur else cur)"

lemma stored_frame:
  assumes "stored p ad i ys" and "i + length ys \<le> BLOCK_SIZE * hi"
    and "\<And>k. k \<in> {i div BLOCK_SIZE..<hi} \<Longrightarrow> memory p' (ad k) = memory p (ad k)"
  shows "stored p' ad i ys"
proof -
  have "(i + j) div BLOCK_SIZE \<in> {i div BLOCK_SIZE..<hi}" if "j < length ys" for j
    using that assms(2) by (simp add: div_le_mono less_mult_imp_div_less mult.commute)
  then show ?thesis
    using assms(1,3) by (simp add: stored_def)
qed

lemma stored_destruct:
  assumes st: "stored p ad i (y # ys)" and b: "memory p (ad (i div BLOCK_SIZE)) = Some b"
    and inj: "inj_on ad {i div BLOCK_SIZE..<hi}" and le: "i + length (y # ys) \<le> BLOCK_SIZE * hi"
  shows "stored (p\<lparr>memory := (memory p)(ad (i div BLOCK_SIZE) \<mapsto> destruct (word_of_nat i) b)\<rparr>) ad (Suc i) ys"
  unfolding stored_def
proof (intro allI impI)
  fix j assume j: "j < length ys"
  let ?k = "(Suc i + j) div BLOCK_SIZE"
  obtain c where c: "memory p (ad ?k) = Some c" "elements c ((Suc i + j) mod BLOCK_SIZE) = Some (ys ! j)"
    using st j unfolding stored_def by (metis Suc_less_eq add_Suc_shift length_Cons nth_Cons_Suc)
  have k: "?k \<in> {i div BLOCK_SIZE..<hi}"
    using le j by (simp add: div_le_mono less_mult_imp_div_less mult.commute)
  show "\<exists>b'. memory (p\<lparr>memory := (memory p)(ad (i div BLOCK_SIZE) \<mapsto> destruct (word_of_nat i) b)\<rparr>) (ad ?k) = Some b' \<and>
      elements b' ((Suc i + j) mod BLOCK_SIZE) = Some (ys ! j)"
  proof (cases "?k = i div BLOCK_SIZE")
    case True
    then have "(Suc i + j) mod BLOCK_SIZE \<noteq> i mod BLOCK_SIZE"
      using div_mult_mod_eq [of "Suc i + j" BLOCK_SIZE] div_mult_mod_eq [of i BLOCK_SIZE] by (metis add_Suc less_add_Suc1 less_irrefl)
    then show ?thesis
      using True c b by (simp add: destruct_def slot_of_nat)
  next
    case False
    then have "ad ?k \<noteq> ad (i div BLOCK_SIZE)"
      using inj k by (auto dest: inj_onD)
    then show ?thesis
      using c by simp
  qed
qed

text \<open>Entering the block of an index gives back the block before it.\<close>

lemma enter_block_spec:
  assumes bi: "blockIndex pr = Some bi" "index_inv c bi lo hi ad" "hi - lo \<le> 2 ^ 58" and k: "lo \<le> i div BLOCK_SIZE" "i div BLOCK_SIZE < hi"
    and inj: "inj_on ad {lo..<hi}" and cur: "in_block ad i cur blk" "lo \<le> cur"
    and inv: "pool_inv p (rest \<union> ad ` {cur..<hi}) fl" and sep: "rest \<inter> ad ` {lo..<hi} = {}"
  shows "\<exists>p' fl'. enter_block pr (word_of_nat i) blk p = Some (Some (ad (i div BLOCK_SIZE)), p') \<and>
    pool_inv p' (rest \<union> ad ` {i div BLOCK_SIZE..<hi}) fl' \<and> (\<forall>y \<in> rest \<union> ad ` {i div BLOCK_SIZE..<hi}. memory p' y = memory p y)"
proof -
  have look: "snd (bi_index bi ! get_block_index_index_for_index (word_of_nat i) bi) = Some (ad (i div BLOCK_SIZE))"
    using index_lookup [OF bi(2) k bi(3)] by (simp add: ring_def)
  show ?thesis
  proof (cases "blk \<noteq> None \<and> i mod BLOCK_SIZE = 0")
    case True
    then have blk: "blk = Some (ad cur)" "i div BLOCK_SIZE = Suc cur"
      using cur(1) by (auto simp: in_block_def)
    have "{cur..<hi} = insert cur {Suc cur..<hi}" "cur \<notin> {Suc cur..<hi}" "cur \<in> {lo..<hi}" "{Suc cur..<hi} \<subseteq> {lo..<hi}"
      using blk k cur(2) by auto
    then have out: "ad cur \<notin> rest" "ad cur \<notin> ad ` {Suc cur..<hi}" and mem: "ad cur \<in> rest \<union> ad ` {cur..<hi}"
      using sep inj by (auto dest: inj_onD)
    have less: "rest \<union> ad ` {cur..<hi} - {ad cur} = rest \<union> ad ` {Suc cur..<hi}"
      using out unfolding \<open>{cur..<hi} = _\<close> by auto
    obtain p' fl' where "add_block_to_free_list (ad cur) p = Some p'" "pool_inv p' (rest \<union> ad ` {Suc cur..<hi}) fl'"
        "\<forall>y \<in> rest \<union> ad ` {Suc cur..<hi}. memory p' y = memory p y"
      using add_block_to_free_list_inv [OF inv mem] unfolding less by blast
    then show ?thesis
      using blk True look bi(1) by (auto simp: enter_block_def slot_of_nat)
  next
    case False
    then have "cur = i div BLOCK_SIZE" "enter_block pr (word_of_nat i) blk p = Some (Some (ad (i div BLOCK_SIZE)), p)"
      using cur(1) look bi(1) by (auto simp: in_block_def enter_block_def slot_of_nat)
    then show ?thesis
      using inv by auto
  qed
qed

lemma word_next: "word_of_nat i + 1 = (word_of_nat (Suc i) :: u64)"
  by simp

lemma word_distinct: "0 < n \<Longrightarrow> n < 2 ^ 63 \<Longrightarrow> word_of_nat i \<noteq> (word_of_nat (i + n) :: u64)"
  using nonempty_test [of n i] by (auto simp: circular_less_than_def)

lemma destroy_elements_spec:
  assumes bi: "blockIndex pr = Some bi" "index_inv c bi lo hi ad" "hi - lo \<le> 2 ^ 58" and inj: "inj_on ad {lo..<hi}"
    and sep: "rest \<inter> ad ` {lo..<hi} = {}"
  shows "lo \<le> cur \<Longrightarrow> lo \<le> i div BLOCK_SIZE \<Longrightarrow> i + length ys \<le> BLOCK_SIZE * hi \<Longrightarrow> length ys < 2 ^ 63 \<Longrightarrow> in_block ad i cur blk \<Longrightarrow>
    stored p ad i ys \<Longrightarrow> pool_inv p (rest \<union> ad ` {cur..<hi}) fl \<Longrightarrow>
    \<exists>p' fl'. destroy_elements pr (word_of_nat i) (word_of_nat (i + length ys)) blk p = Some (ys, p') \<and>
      pool_inv p' (rest \<union> ad ` {if ys = [] then cur else (i + length ys - 1) div BLOCK_SIZE..<hi}) fl' \<and>
      (\<forall>y \<in> rest. memory p' y = memory p y)"
proof (induction ys arbitrary: i cur blk p fl)
  case Nil
  then show ?case
    by (subst destroy_elements.simps) auto
next
  case (Cons y ys)
  let ?k = "i div BLOCK_SIZE"
  have k: "?k < hi"
    using Cons.prems(3) by (intro less_mult_imp_div_less) (simp add: mult.commute)
  obtain p1 fl1 where e: "enter_block pr (word_of_nat i) blk p = Some (Some (ad ?k), p1)"
      "pool_inv p1 (rest \<union> ad ` {?k..<hi}) fl1" "\<forall>y \<in> rest \<union> ad ` {?k..<hi}. memory p1 y = memory p y"
    using enter_block_spec [OF bi Cons.prems(2) k inj Cons.prems(5,1,7) sep] by (elim exE conjE) (rule that)
  have st: "stored p1 ad i (y # ys)"
    by (rule stored_frame [OF Cons.prems(6,3)]) (use e(3) in auto)
  then obtain b where b: "memory p1 (ad ?k) = Some b" "elements b (i mod BLOCK_SIZE) = Some y"
    unfolding stored_def by fastforce
  let ?p2 = "p1\<lparr>memory := (memory p1)(ad ?k \<mapsto> destruct (word_of_nat i) b)\<rparr>"
  have d: "destroy_element (word_of_nat i) (Some (ad ?k)) p1 = Some (y, ?p2)"
    using b by (simp add: destroy_element_def slot_of_nat modify_def)
  have inj': "inj_on ad {?k..<hi}"
    by (rule inj_on_subset [OF inj]) (use Cons.prems(2) in auto)
  have st2: "stored ?p2 ad (Suc i) ys"
    by (rule stored_destruct [OF st b(1) inj' Cons.prems(3)])
  have inv2: "pool_inv ?p2 (rest \<union> ad ` {?k..<hi}) fl1"
    using b(1) k by (intro pool_inv_write [OF e(2)]) (auto simp: destruct_def)
  have blk2: "in_block ad (Suc i) ?k (Some (ad ?k))"
    using next_block_number [of i] by (auto simp: in_block_def)
  have lo2: "lo \<le> Suc i div BLOCK_SIZE" "Suc i + length ys \<le> BLOCK_SIZE * hi" "length ys < 2 ^ 63"
    using le_trans [OF Cons.prems(2) div_le_mono [of i "Suc i" BLOCK_SIZE]] Cons.prems(3,4) by simp_all
  obtain p' fl' where r: "destroy_elements pr (word_of_nat (Suc i)) (word_of_nat (Suc i + length ys)) (Some (ad ?k)) ?p2 = Some (ys, p')"
      "pool_inv p' (rest \<union> ad ` {if ys = [] then ?k else (Suc i + length ys - 1) div BLOCK_SIZE..<hi}) fl'"
      "\<forall>y \<in> rest. memory p' y = memory ?p2 y"
    using Cons.IH [OF Cons.prems(2) lo2 blk2 st2 inv2] by (elim exE conjE) (rule that)
  have "word_of_nat i \<noteq> (word_of_nat (i + length (y # ys)) :: u64)"
    using Cons.prems(4) by (intro word_distinct) simp_all
  then have "destroy_elements pr (word_of_nat i) (word_of_nat (i + length (y # ys))) blk p = Some (y # ys, p')"
    using e(1) d r(1) by (subst destroy_elements.simps) (simp only: word_next if_False Option.bind_eq_Some_conv, simp)
  moreover have "pool_inv p' (rest \<union> ad ` {if y # ys = [] then cur else (i + length (y # ys) - 1) div BLOCK_SIZE..<hi}) fl'"
    using r(2) by (cases ys) simp_all
  moreover have "\<forall>z \<in> rest. memory p' z = memory p z"
    using r(3) e(3) sep k Cons.prems(2) by (auto simp: disjoint_iff)
  ultimately show ?case
    by blast
qed

lemma destroy_producer_spec:
  assumes h: "holds p pr H ad xs" and inv: "pool_inv p (rest \<union> own_blocks H ad (length xs)) fl" and sep: "rest \<inter> own_blocks H ad (length xs) = {}"
  shows "\<exists>p' fl'. destroy_producer pr p = Some (xs, p') \<and> pool_inv p' rest fl' \<and> (\<forall>y \<in> rest. memory p' y = memory p y)"
proof -
  let ?lo = "H div BLOCK_SIZE" and ?hi = "last_block (H + length xs)"
  have ok: "counters_ok pr H (length xs)" "blocks_ok p H ?hi ad xs" "index_ok pr ?lo ?hi ad" "BLOCK_SIZE * ?hi < H + 2 ^ 63"
      "?lo < ?hi \<longrightarrow> tailBlock pr = Some (ad (?hi - 1))"
    using h by (auto simp: holds_def open_upto_def)
  have idx: "headIndex pr = word_of_nat H" "tailIndex pr = word_of_nat (H + length xs)"
    using ok(1) by (simp_all add: counters_ok_def)
  have free: "\<exists>p' fl'. add_block_to_free_list (ad (?hi - 1)) p1 = Some p' \<and> pool_inv p' rest fl' \<and> (\<forall>y \<in> rest. memory p' y = memory p1 y)"
    if "pool_inv p1 (rest \<union> ad ` {?hi - 1..<?hi}) fl1" and lt: "?lo < ?hi" for p1 fl1
  proof -
    have "{?hi - 1..<?hi} = {?hi - 1}" "ad (?hi - 1) \<in> own_blocks H ad (length xs)"
      using lt by (auto simp: own_blocks_def)
    then have "rest \<union> ad ` {?hi - 1..<?hi} - {ad (?hi - 1)} = rest" "ad (?hi - 1) \<in> rest \<union> ad ` {?hi - 1..<?hi}"
      using sep by auto
    then show ?thesis
      using add_block_to_free_list_inv [OF that(1), of "ad (?hi - 1)"] by auto
  qed
  show ?thesis
  proof (cases xs)
    case Nil
    then have loop: "destroy_elements pr (headIndex pr) (tailIndex pr) None p = Some ([], p)" "headIndex pr = tailIndex pr"
      using idx by (auto simp: destroy_elements.simps)
    show ?thesis
    proof (cases "H mod BLOCK_SIZE = 0")
      case True
      then have "own_blocks H ad (length xs) = {}"
        using tail_block_number(2) [of H] Nil by (simp add: own_blocks_def)
      moreover have "destroy_producer pr p = Some ([], p)"
        using loop True idx Nil by (auto simp: destroy_producer_def slot_of_nat split: option.splits)
      ultimately show ?thesis
        using inv Nil by auto
    next
      case False
      then have hi: "?hi = Suc ?lo"
        using tail_block_number(4) [of H] Nil by simp
      then have "pool_inv p (rest \<union> ad ` {?hi - 1..<?hi}) fl"
        using inv by (simp add: own_blocks_def)
      then obtain p' fl' where "add_block_to_free_list (ad (?hi - 1)) p = Some p'" "pool_inv p' rest fl'" "\<forall>y \<in> rest. memory p' y = memory p y"
        using free hi by (metis lessI)
      then show ?thesis
        using loop False idx Nil ok(5) hi by (auto simp: destroy_producer_def slot_of_nat)
    qed
  next
    case (Cons y ys)
    have hi: "?hi = Suc ((H + length xs - 1) div BLOCK_SIZE)"
      using tail_block_number(1) [of "H + length ys"] Cons by simp
    then have lt: "?lo < ?hi"
      using div_le_mono [of H "H + length xs - 1" BLOCK_SIZE] Cons by simp
    obtain bi c where bi: "blockIndex pr = Some bi" "index_inv c bi ?lo ?hi ad"
      using ok(3) lt by (auto simp: index_ok_def split: option.splits)
    have st: "stored p ad H xs" and inj: "inj_on ad {?lo..<?hi}" and le: "H + length xs \<le> BLOCK_SIZE * ?hi"
      using ok(2) by (auto simp: blocks_ok_def stored_def)
    have "in_block ad H ?lo None"
      by (simp add: in_block_def)
    from destroy_elements_spec [OF bi index_blocks_bound [OF ok(4)] inj sep [unfolded own_blocks_def] le_refl le_refl le holds_length [OF h] this st
        inv [unfolded own_blocks_def]]
    obtain p1 fl1 where loop: "destroy_elements pr (headIndex pr) (tailIndex pr) None p = Some (xs, p1)"
        "pool_inv p1 (rest \<union> ad ` {?hi - 1..<?hi}) fl1" "\<forall>y \<in> rest. memory p1 y = memory p y"
      unfolding idx hi using Cons by auto
    have "headIndex pr \<noteq> tailIndex pr"
      unfolding idx using Cons holds_length [OF h] by (intro word_distinct) simp_all
    then show ?thesis
      using loop free [OF loop(2) lt] ok(5) lt by (auto simp: destroy_producer_def)
  qed
qed

text \<open>The producers one after the other.\<close>

lemma destroy_producers_spec:
  assumes "distinct is" and "\<forall>i \<in> set is. holds p (prs ! i) (H i) (ad i) (cs i)"
    and "\<forall>i \<in> set is. \<forall>j \<in> set is. i \<noteq> j \<longrightarrow> own_of H ad cs i \<inter> own_of H ad cs j = {}"
    and "pool_inv p (\<Union>i \<in> set is. own_of H ad cs i) fl"
  shows "\<exists>p' fl'. destroy_producers prs is p = Some (map cs is, p') \<and> pool_inv p' {} fl'"
  using assms
proof (induction "is" arbitrary: p fl)
  case (Cons i "is")
  let ?rest = "\<Union>j \<in> set is. own_of H ad cs j"
  have own: "(\<Union>j \<in> set (i # is). own_of H ad cs j) = ?rest \<union> own_blocks (H i) (ad i) (length (cs i))"
    by (auto simp: own_of_def)
  have "\<forall>j \<in> set is. own_of H ad cs j \<inter> own_of H ad cs i = {}"
    using Cons.prems(1,3) by auto
  then have "?rest \<inter> own_blocks (H i) (ad i) (length (cs i)) = {}"
    by (auto simp: own_of_def)
  from destroy_producer_spec [OF _ Cons.prems(4) [unfolded own] this, of "prs ! i"]
  obtain p1 fl1 where d: "destroy_producer (prs ! i) p = Some (cs i, p1)" "pool_inv p1 ?rest fl1" "\<forall>y \<in> ?rest. memory p1 y = memory p y"
    using Cons.prems(2) by auto
  have "\<forall>j \<in> set is. holds p1 (prs ! j) (H j) (ad j) (cs j)"
  proof
    fix j assume j: "j \<in> set is"
    then have "holds p (prs ! j) (H j) (ad j) (cs j)"
      using Cons.prems(2) by simp
    then show "holds p1 (prs ! j) (H j) (ad j) (cs j)"
      by (rule holds_frame) (use d(3) j in \<open>auto simp: own_of_def\<close>)
  qed
  then obtain p' fl' where "destroy_producers prs is p1 = Some (map cs is, p')" "pool_inv p' {} fl'"
    using Cons.IH [OF _ _ _ d(2)] Cons.prems(1,3) by auto
  then show ?case
    using d(1) by auto
qed auto

subsection \<open>Every block once\<close>

text \<open>The free list holds blocks of the initial array only, which are freed with the array.\<close>

lemma destroy_free_list_spec: "chain (memory p) blk fl \<Longrightarrow> destroy_free_list blk p = Some p"
  by (induction fl arbitrary: blk) (auto simp: destroy_free_list.simps)

lemma destroy_array_spec:
  assumes "{..<n} \<subseteq> dom (memory p)"
  shows "\<exists>p'. destroy_array n p = Some p' \<and> memory p' = (\<lambda>a. if a < n then None else memory p a)"
  using assms
proof (induction n arbitrary: p)
  case (Suc n)
  then obtain b where b: "memory p n = Some b"
    by auto
  let ?p = "p\<lparr>memory := (memory p)(n := None)\<rparr>"
  have "{..<n} \<subseteq> dom (memory ?p)"
    using Suc.prems by (simp add: subset_eq)
  from Suc.IH [OF this] obtain p' where "destroy_array n ?p = Some p'" "memory p' = (\<lambda>a. if a < n then None else memory ?p a)"
    by blast
  then show ?case
    using b by (auto simp: less_Suc_eq)
qed simp

lemma destroy_pool_spec:
  assumes inv: "pool_inv p {} fl"
  shows "\<exists>p'. destroy_free_list (freeListHead p) p = Some p \<and> destroy_array (unat (initialBlockPoolSize p)) p = Some p' \<and> memory p' = Map.empty"
proof -
  let ?n = "unat (initialBlockPoolSize p)"
  have ch: "chain (memory p) (freeListHead p) fl" and acc: "accounted p {} fl"
    using inv by (simp_all add: pool_inv_def)
  have "a < ?n" if "a \<in> set fl" "chain (memory p) h fl" for a h fl
    using that acc by (induction fl arbitrary: h) (auto simp: accounted_def not_le)
  then have "dom (memory p) \<subseteq> {..<?n}"
    using acc ch unfolding accounted_def unissued_def by auto
  moreover obtain p' where p': "destroy_array ?n p = Some p'" "memory p' = (\<lambda>a. if a < ?n then None else memory p a)"
    using destroy_array_spec [of ?n p] acc by (auto simp: accounted_def)
  ultimately have "memory p' = Map.empty"
    by (auto simp: fun_eq_iff)
  then show ?thesis
    using p'(1) destroy_free_list_spec [OF ch] by blast
qed

subsection \<open>The property\<close>

text \<open>
  C12. Destroying a queue destroys exactly what is left in it and leaks no block. In every state that a run of fewer than 2^60 enqueues leads to,
  the destructor ends, without following a dangling pointer and without destroying an element or a block twice; the elements
  destroyed are those that were put into each producer and not taken out, and no block is left in memory.
\<close>

theorem destroy_queue_complete:
  assumes "cq_run mem cap owner E D n q" and "cap < 2 ^ 60" and "n < 2 ^ 60"
  shows "\<exists>xss p. destroy_queue q = Some (xss, p) \<and> memory p = Map.empty \<and> length xss = length (producer_list q) \<and>
    (\<forall>j < length xss. E (producer_list q ! j) = D (producer_list q ! j) @ xss ! j)"
proof -
  obtain cs where "run_inv mem owner E D n q cs"
    using cq_run_inv [OF assms] by (elim exE)
  then obtain H ad where data: "data_ok q H ad cs" and split: "\<forall>i. E i = D i @ cs i"
    by (auto simp: run_inv_def contents_def)
  let ?is = "producer_list q"
  have list: "distinct ?is" "set ?is = {..<length (producers q)}"
    by (auto simp: producer_list_def)
  obtain fl where "pool_inv (q_pool q) (\<Union>i. own_of H ad cs i) fl"
    using data by (auto simp: data_ok_def)
  moreover have "own_of H ad cs i = {}" if "i \<notin> set ?is" for i
    using that data unfolding list(2) data_ok_def by (intro own_of_new) (auto simp: not_less)
  then have "(\<Union>i. own_of H ad cs i) = (\<Union>i \<in> set ?is. own_of H ad cs i)"
    by blast
  ultimately obtain p1 fl1 where p1: "destroy_producers (producers q) ?is (q_pool q) = Some (map cs ?is, p1)" "pool_inv p1 {} fl1"
    using destroy_producers_spec [OF list(1), of "q_pool q" "producers q" H ad cs fl] data list(2) by (auto simp: data_ok_def)
  obtain p2 where "destroy_free_list (freeListHead p1) p1 = Some p1" "destroy_array (unat (initialBlockPoolSize p1)) p1 = Some p2"
      "memory p2 = Map.empty"
    using destroy_pool_spec [OF p1(2)] by blast
  then have "destroy_queue q = Some (map cs ?is, p2)" "memory p2 = Map.empty"
    using p1(1) by (simp_all add: destroy_queue_def)
  then show ?thesis
    using split by (intro exI [of _ "map cs ?is"] exI [of _ p2]) simp
qed

theorem destroy_queue_complete_witness:
  "\<exists>owner E q v xss p. cq_run (\<lambda>_. True) 64 owner E (\<lambda>_. []) 1 q \<and> E v = [42 :: nat] \<and> destroy_queue q = Some (xss, p) \<and> memory p = Map.empty"
proof -
  obtain owner E q v where run: "cq_run (\<lambda>_. True) 64 owner E (\<lambda>_. []) 1 q" and v: "E v = [42 :: nat]"
    using sample_cq_run by blast
  then show ?thesis
    using destroy_queue_complete [OF run] by fastforce
qed

end
