(* ===== verification/Spec2Isabelle.thy ===== *)
theory Spec2Isabelle
  imports Key_Builder Hlc_Clock Ordered_Map Wal_Recovery Credential_Manager Merkle Replication_Log
    Engine_Concurrency Engine_Lww Engine_Scan Sync_Manager Zmq_Server Service Simple_Metrics Wait_Order Cq_Destroy
begin

text \<open>
  L3KV is a replicated key-value store in C++ (sources under \<open>src/src\<close>). A node keeps its data in eight in-memory shards
  behind a write-ahead log, serves clients over ZeroMQ, and repairs differences with its peers by comparing
  Merkle trees over a peer-to-peer mesh. This development models the node from the bytes of its log to the
  messages it exchanges, and proves what its parts promise each other.

  \<^bold>\<open>Conventions.\<close> Functions return their result with the new state. Exceptions are the left side of a sum, with the state they
  leave behind. What comes from outside is an input: the readings of the physical clock and the results of \<open>write\<close> are
  lists in the state (\<open>e_phys\<close>, \<open>e_io\<close>), consumed from the front, and \<open>None\<close> says that an operation has not
  returned within them, or, in the queues, that it follows a dangling pointer or never returns. Probing a hash table is
  bounded by its number of slots, and doubling it by the 64 bits of its size; loops that might not end are partial functions, and no
  other fuel is used: the rest are structural recursions over the list or the count
  the code iterates over, and the scan of \<open>recover\<close> and the mesh reader terminate because each round consumes bytes. Integers whose
  overflow matters are words; byte strings are lists of 8-bit words. Libraries outside the repository (XXH3, zstd, lite3-cpp,
  the order \<open>std::sort\<close> gives to equal elements) are the record \<open>ext\<close> of \<open>Third_Party\<close>, the first argument \<open>X\<close> of what uses them. What is
  relied on is \<open>ext_laws X\<close>, and in places \<open>meta_small X\<close> and \<open>unset_fields X\<close>; the record \<open>demo\<close> satisfies all of them and evaluates in the
  witnesses.

  \<^bold>\<open>Foundations.\<close> \<open>L3_Prelude\<close>: words, bytes, little-endian codecs, decimal numbers (locale \<open>fixed_codec\<close>, interpreted for 16, 32 and
  64 bits). \<open>Ordered_Map\<close>: \<open>std::map\<close> with string keys (locale \<open>map_interface\<close>). \<open>Key_Builder\<close>
  (\<open>engine/KeyBuilder.hpp\<close>): the two rotating buffers behind \<open>meta_key\<close>; when two keys share a metadata key. \<open>Hlc_Clock\<close>
  (\<open>engine/clock.hpp\<close>, \<open>clock.cpp\<close>): \<open>hlc_now\<close>, \<open>hlc_update\<close>, \<open>reserve_logical\<close> and the thread-local batches; timestamps increase, respect
  received ones, are unique across threads, and \<open>now\<close> returns.

  \<^bold>\<open>Log.\<close> \<open>Wal\<close> (\<open>engine/wal.hpp\<close>): records, CRC, partial writes, \<open>append\<close>, \<open>append_batch\<close>, \<open>recover\<close>. \<open>Wal_Recovery\<close>: what is appended is read back; a
  torn tail costs the last record only; a changed byte is never replayed. The scan argument is the locale
  \<open>log_format\<close>, interpreted for the record format.

  \<^bold>\<open>Engine\<close> (\<open>engine/store.hpp\<close>). \<open>Blob_Store\<close>: \<open>ZstdManager\<close> and \<open>Blob\<close>. \<open>Credential_Manager\<close> (\<open>engine/credential_manager.hpp\<close>): users and rules; access is
  decided by the longest prefix. \<open>Merkle\<close> (\<open>engine/merkle.hpp\<close>): lazy recomputation refines the hash tree over the leaves. \<open>Replication_Log\<close>
  (\<open>engine/replication_log.hpp\<close>): a bounded queue. \<open>Shard_Store\<close>: routing and the \<open>apply\<close> functions on the in-memory state \<open>store\<close>, with its invariant
  \<open>store_inv\<close>: keys in their shards, maps in order, blobs that decode, leaves that are the exclusive-or of the blob hashes, rules
  and key index well formed. \<open>Engine\<close>: \<open>get\<close>, \<open>put\<close>, \<open>patch_int\<close>, \<open>patch_str\<close>, \<open>del\<close>, the batches, \<open>apply_mutation\<close> and start-up. Then, about these
  definitions: \<open>Engine_Recovery\<close> (reopening the log rebuilds the store; a crash within a request leaves the store before or after it),
  \<open>Engine_Concurrency\<close> (puts cut at their lock releases, in any interleaving), \<open>Engine_Values\<close> (what readers see after puts, deletes and
  batches), \<open>Engine_Invariant\<close> (the invariant over all runs; the root hash is a function of the content), \<open>Engine_Lww\<close> (locale \<open>lww_replica\<close>, interpreted
  on \<open>apply_mutation\<close>: replicas converge), \<open>Engine_Scan\<close> (prefix and bucket scans are exact and agree; what a batch queues).

  \<^bold>\<open>Queues\<close> (\<open>lib/concurrentqueue\<close>, the part the engine uses). \<open>Cq_Base\<close>: hashing and circular comparison of indices. \<open>Cq_Protocol\<close>: the counters
  of concurrent dequeues, cut at their atomic accesses; indices are claimed in order and once published. The other theories run one operation at a
  time, on a memory in which a dangling pointer gives \<open>None\<close>: \<open>Cq_Pool\<close> (blocks and free list; every block is in one place), \<open>Cq_Implicit\<close>
  (the sub-queue of a producer), \<open>Cq_Index\<close>, \<open>Cq_Fifo\<close>, \<open>Cq_Dequeue\<close> (it refines a list), \<open>Cq_Table\<close> (the hash table from threads to producers),
  \<open>Cq_Queue\<close> (the whole queue), \<open>Cq_Threads\<close> and \<open>Cq_Refinement\<close> (it refines a list per producer), \<open>Cq_Runs\<close> (order, progress and
  memory safety over all runs), \<open>Cq_Destroy\<close> (the destructors destroy what is left and leak no block), \<open>Cq_Blocking\<close> (\<open>blockingconcurrentqueue.h\<close>; the
  semaphore is not in the repository and is a record of operations with \<open>semaphore_laws\<close>). \<open>Core_Threads\<close> (\<open>engine/store.hpp\<close>): submitting tasks,
  the loop of a core thread and its end; a submitted task is answered, and stopping loses none. \<open>Batch_Wait\<close>: the tasks of a batch and \<open>wait_all_shards\<close>, with
  the core threads of all shards going their rounds between the steps of the caller; waiting returns, and the batch is visible. \<open>Wait_Order\<close>:
  waiting covers only the caller's own tasks.

  \<^bold>\<open>Network.\<close> \<open>Mesh\<close> (\<open>engine/mesh.hpp\<close>, \<open>mesh.cpp\<close>): connections as state machines driven by completions, framing, peers; frames
  leave in order, the reader reassembles its format, and the two formats differ. \<open>Sync_Manager\<close> (\<open>engine/sync_manager.hpp\<close>): all message handlers;
  each step asks for exactly what differs, and an exchange of values repairs a stale key. \<open>Zmq_Server\<close> (\<open>zmq/zmq_server.cpp\<close>): sessions, authentication
  and the operations; a session is confined to its user's rights, a client without the secret
  leaves no trace, and the way around the authentication.

  \<^bold>\<open>Service.\<close> \<open>Service\<close> (\<open>main.cpp\<close>, \<open>observability/file_logger.hpp\<close>): configuration, wiring, log file. \<open>Simple_Metrics\<close>
  (\<open>observability/simple_metrics.cpp\<close>): counters and reports. This theory composes them: \<open>service_reachable\<close> is the running node, whose engine is driven by
  peers, gossip, clients and core threads in any order, and \<open>service_consistent\<close> its invariant.

  \<^bold>\<open>Bounds.\<close> Values below 4 GiB (\<open>fits\<close>), because a blob records its size in 32 bits; keys below 64 KiB and logs below 4 GiB where the
  log format is concerned; wall times below \<open>2 ^ 53\<close> where they pass through a \<open>double\<close>; fewer than \<open>2 ^ 60\<close> enqueues and initial places of a
  queue, so that a sub-queue stays below the \<open>2 ^ 63\<close> elements its comparison of indices can tell apart. Where the code does not check such
  a bound, a lemma or a remark of the theory says what happens beyond it.

  \<^bold>\<open>Not modelled.\<close> Of \<open>lib/concurrentqueue\<close>: explicit producers and tokens, bulk operations, moving and swapping, debugging code, none of
  which a source uses; the memory of block index headers and hash tables; memory orders, and interleavings other than those of the dequeue
  counters. \<open>engine/wal_storage.hpp\<close>, included by no source. The Windows branches. Data races: scans that read a map without its lock are
  modelled as if they ran alone. In the state \<open>engine\<close> the queue of a shard is a list of updates; tasks other than those of batches are
  submitted and waited for at once, so only batches leave updates there, and \<open>core_step\<close> applies one update at a time
  (\<open>batch_task_core_steps\<close> relates it to the task of a batch). Tasks that other threads submit while one thread waits for a result. The permission
  check, the timestamp and the log write of a put are one step; so are the identification and its write when a connection starts. \<open>service_reachable\<close>
  starts from an empty log; reopening a log is the subject of \<open>Engine_Recovery\<close>. Console output, metrics calls made on the side, thread pools, and
  shutdown apart from the core threads. Tests, benchmarks, scripts and the vendored \<open>protos\<close> are not part of the service.
\<close>

subsection \<open>The service as a whole\<close>

text \<open>What the handlers of the sync manager do to the engine: nothing, take a root hash, or apply one mutation.\<close>

lemma rep_node_loop_engine: "sn_engine (snd (rep_node_loop f l p b is sn)) = sn_engine sn"
  by (induction "is" arbitrary: sn) (auto simp: Let_def send_req_bucket_def send_req_node_def split: option.splits)

lemma rep_bucket_loop_engine: "sn_engine (rep_bucket_loop X f n b sn) = sn_engine sn"
  by (induction n arbitrary: b sn) (auto simp: Let_def send_get_val_def)

lemma sync_apply_engine:
  "sn_engine (snd (sync_apply X m sn)) = sn_engine sn \<or>
     (\<exists>r. apply_mutation X (sn_engine sn) m = Some (r, sn_engine (snd (sync_apply X m sn))))"
proof (cases "apply_mutation X (sn_engine sn) m")
  case (Some re)
  then show ?thesis
    by (cases re; cases "fst re") (auto simp: sync_apply_def)
qed (simp add: sync_apply_def)

lemma on_put_val_cases:
  "snd (on_put_val X sn f b) = sn \<or> (\<exists>m n. on_put_val X sn f b = sync_apply X m sn \<and> m_value m = drop n b)"
proof -
  define klen where "klen = unat (dec_u16 (take 2 (drop 5 b)))"
  define b1 where "b1 = drop klen (drop 7 b)"
  define mlen where "mlen = unat (dec_u16 (take 2 b1))"
  define b2 where "b2 = drop 2 b1"
  have v: "drop mlen b2 = drop (mlen + (2 + (klen + 7))) b"
    by (simp add: b2_def b1_def add.assoc)
  have eq: "on_put_val X sn f b =
     (if length b < 7 then (Inr (), sn) else if length (drop 7 b) < klen then (Inr (), sn)
      else if length b1 < 2 then (Inr (), sn) else if length b2 < mlen then (Inr (), sn)
      else (case parse_meta X (take mlen b2) of None \<Rightarrow> (Inl Undefined, sn)
            | Some (ts, t) \<Rightarrow> sync_apply X \<lparr>m_timestamp = ts, m_key = take klen (drop 7 b), m_value = drop mlen b2, m_is_delete = t\<rparr> sn))"
    unfolding on_put_val_def Let_def klen_def b1_def mlen_def b2_def by (rule refl)
  show ?thesis
  proof (cases "length b < 7 \<or> length (drop 7 b) < klen \<or> length b1 < 2 \<or> length b2 < mlen \<or> parse_meta X (take mlen b2) = None")
    case True
    then show ?thesis
      unfolding eq by auto
  next
    case False
    then obtain ts t where "parse_meta X (take mlen b2) = Some (ts, t)"
      by auto
    with False have "on_put_val X sn f b =
        sync_apply X \<lparr>m_timestamp = ts, m_key = take klen (drop 7 b), m_value = drop mlen b2, m_is_delete = t\<rparr> sn"
      unfolding eq by simp
    then show ?thesis
      using v by (metis mutation.select_convs(3))
  qed
qed

definition sync_effect :: "ext \<Rightarrow> bytes \<Rightarrow> engine \<Rightarrow> engine \<Rightarrow> bool" where
  "sync_effect X b e e' \<longleftrightarrow> e' = e \<or> e' = snd (get_merkle_root_hash X e) \<or>
     (\<exists>m r n. apply_mutation X e m = Some (r, e') \<and> m_value m = drop n b)"

lemma sync_effect_refl [simp]: "sync_effect X b e e"
  by (simp add: sync_effect_def)

lemma on_put_val_effect: "sync_effect X b (sn_engine sn) (sn_engine (snd (on_put_val X sn f b)))"
  using on_put_val_cases [of X sn f b]
proof
  assume "\<exists>m n. on_put_val X sn f b = sync_apply X m sn \<and> m_value m = drop n b"
  then obtain m n where "on_put_val X sn f b = sync_apply X m sn" "m_value m = drop n b"
    by blast
  with sync_apply_engine [of X m sn] show ?thesis
    by (auto simp: sync_effect_def)
qed simp

lemma on_sync_init_effect: "sync_effect X b (sn_engine sn) (sn_engine (snd (on_sync_init X sn f b)))"
  by (auto simp: on_sync_init_def sync_root_def Let_def send_req_node_def split_def sync_effect_def)

lemma other_handlers_effect:
  "sn_engine (snd (on_req_node sn f b)) = sn_engine sn" "sn_engine (snd (on_rep_node sn f b)) = sn_engine sn"
  "sn_engine (snd (on_req_bucket X sn f b)) = sn_engine sn" "sn_engine (snd (on_rep_bucket X sn f b)) = sn_engine sn"
  "sn_engine (snd (on_get_val X sn f b)) = sn_engine sn"
  by (auto simp: on_req_node_def on_rep_node_def on_req_bucket_def on_rep_bucket_def on_get_val_def Let_def
      rep_node_loop_engine rep_bucket_loop_engine split: option.splits)

lemma caught_engine: "sn_engine (snd (case r of Inl (Threw err) \<Rightarrow> (Inr (), sn) | _ \<Rightarrow> (r, sn))) = sn_engine sn"
  by (simp split: sum.splits sync_fault.splits)

lemma handle_message_effect: "sync_effect X b (sn_engine sn) (sn_engine (snd (handle_message X sn b)))"
  by (simp add: handle_message_def Let_def split_def caught_engine on_put_val_effect on_sync_init_effect other_handlers_effect)

text \<open>What a served request does to the engine: nothing, one put, delete or batch.\<close>

lemma zmq_serve_effect:
  assumes "zmq_serve X mem ms srv = (r, srv')"
  shows "z_engine srv' = z_engine srv \<or>
    (\<exists>u r'. length ms \<ge> 6 \<and> engine_put X (z_engine srv) (ms ! 4) (ms ! 5) u = Some (r', z_engine srv')) \<or>
    (\<exists>u r'. engine_del X (z_engine srv) (ms ! 4) u = Some (r', z_engine srv')) \<or>
    (\<exists>u r'. batch_put X mem (z_engine srv) (ms ! 4) u = Some (r', z_engine srv'))"
proof -
  have op: "z_engine srv2 = z_engine srv1 \<or>
      (\<exists>u r'. length ms \<ge> 6 \<and> engine_put X (z_engine srv1) (ms ! 4) (ms ! 5) u = Some (r', z_engine srv2)) \<or>
      (\<exists>u r'. engine_del X (z_engine srv1) (ms ! 4) u = Some (r', z_engine srv2)) \<or>
      (\<exists>u r'. batch_put X mem (z_engine srv1) (ms ! 4) u = Some (r', z_engine srv2))"
    if "zmq_op X mem c u ms srv1 = (r, srv2)" for c u srv1 srv2
    using that
    by (auto simp: zmq_op_def zmq_get_def zmq_put_def zmq_del_def zmq_multi_get_def zmq_batch_put_def
        split: if_splits option.splits prod.splits sum.splits)
  have auth: "z_engine (snd (zmq_auth ms srv1)) = z_engine srv1" for srv1
    by (simp add: zmq_auth_def split: option.splits)
  have chk: "z_engine (case check_session ms srv of Inl s \<Rightarrow> s | Inr s \<Rightarrow> s) = z_engine srv"
    by (simp add: check_session_def Let_def)
  have ses: "z_engine (snd (session_uid i srv1)) = z_engine srv1" for i srv1
    by (simp add: session_uid_def split: option.splits)
  show ?thesis
  proof (cases "check_session ms srv")
    case (Inl srv1)
    with assms chk show ?thesis
      by (auto simp: zmq_serve_def split: if_splits)
  next
    case (Inr srv1)
    show ?thesis
    proof (cases "length ms < 4 \<or> ms ! 3 = [] \<or> ms ! 3 ! 0 = 65 \<and> length ms \<ge> 5")
      case True
      with Inr assms chk auth [of srv1] show ?thesis
        by (auto simp: zmq_serve_def split: if_splits)
    next
      case False
      obtain s srv2 where s: "session_uid (ms ! 0) srv1 = (s, srv2)"
        by (rule prod.exhaust)
      have "zmq_op X mem (ms ! 3 ! 0) (current_uid s (ms ! 2)) ms srv2 = (r, srv')"
        using False Inr assms s by (auto simp: zmq_serve_def split: if_splits)
      from op [OF this] chk Inr ses [of "ms ! 0" srv1] s show ?thesis
        by simp
    qed
  qed
qed

text \<open>
  A running service: messages of peers, rounds of gossip, requests of clients, and core threads working off their queues, in any
  order. The side conditions keep every value below the 4 GiB a blob can record.
\<close>

inductive service_reachable :: "ext \<Rightarrow> service \<Rightarrow> bool" for X where
  Start: "service_reachable X (start_service X no_fail [] ok cfg ph io)"
| Message: "service_reachable X sv \<Longrightarrow> \<forall>n. fits X (drop n payload) \<Longrightarrow> on_mesh_message X l payload sv = (r, sv') \<Longrightarrow>
    service_reachable X sv'"
| Gossip: "service_reachable X sv \<Longrightarrow> service_reachable X (on_gossip X pick sv)"
| Client: "service_reachable X sv \<Longrightarrow> \<forall>f \<in> set ms. fits X f \<Longrightarrow> on_request X mem ms sv = (r', sv') \<Longrightarrow> service_reachable X sv'"
| Core: "service_reachable X sv \<Longrightarrow> \<forall>w \<in> set (e_pending (sv_engine sv) i). fits X (snd w) \<Longrightarrow>
    service_reachable X (sv\<lparr>sv_engine := core_step X i (sv_engine sv)\<rparr>)"

lemma sync_effect_reachable:
  assumes "reachable X e" and "\<forall>n. fits X (drop n b)" and "sync_effect X b e e'"
  shows "reachable X e'"
  using assms(3) unfolding sync_effect_def
proof (elim disjE exE conjE)
  fix m r n assume "apply_mutation X e m = Some (r, e')" "m_value m = drop n b"
  with reachable.Request [OF assms(1), of "Mutate m"] assms(2) show ?thesis
    by simp
qed (use assms(1) reachable.Root in auto)

lemma on_request_reachable:
  assumes "reachable X (sv_engine sv)" and "\<forall>f \<in> set ms. fits X f" and "on_request X mem ms sv = (r, sv')"
  shows "reachable X (sv_engine sv')"
proof -
  obtain srv' where s: "zmq_serve X mem ms (server_part sv) = (r, srv')" "sv_engine sv' = z_engine srv'"
    using assms(3) by (auto simp: on_request_def with_server_def split: prod.splits)
  have e: "z_engine (server_part sv) = sv_engine sv"
    by (simp add: server_part_def)
  from zmq_serve_effect [OF s(1)] show ?thesis
    unfolding e s(2)
  proof (elim disjE exE conjE)
    fix u r' assume "6 \<le> length ms" "engine_put X (sv_engine sv) (ms ! 4) (ms ! 5) u = Some (r', z_engine srv')"
    with reachable.Request [OF assms(1), of "Put (ms ! 4) (ms ! 5) u"] assms(2) show "reachable X (z_engine srv')"
      by simp
  next
    fix u r' assume "engine_del X (sv_engine sv) (ms ! 4) u = Some (r', z_engine srv')"
    with reachable.Request [OF assms(1), of "Del (ms ! 4) u"] show "reachable X (z_engine srv')"
      by simp
  next
    fix u r' assume "batch_put X mem (sv_engine sv) (ms ! 4) u = Some (r', z_engine srv')"
    with reachable.Batch [OF assms(1)] show "reachable X (z_engine srv')"
      by blast
  qed (simp add: assms(1))
qed

lemma service_engine_reachable: "service_reachable X sv \<Longrightarrow> reachable X (sv_engine sv)"
proof (induction rule: service_reachable.induct)
  case (Start ok cfg ph io)
  then show ?case
    by (simp add: start_service_def Let_def reachable.Open)
next
  case (Message sv payload l r sv')
  have "sync_effect X payload (sv_engine sv) (sv_engine sv')"
    using Message(3) handle_message_effect [of X payload "sync_part sv"]
    by (auto simp: on_mesh_message_def with_sync_def sync_part_def split: if_splits prod.splits)
  with Message show ?case
    using sync_effect_reachable by blast
next
  case (Gossip sv pick)
  then show ?case
    using reachable.Root [of X "sv_engine sv"]
    by (simp add: on_gossip_def trigger_gossip_def send_sync_init_def sync_root_def with_sync_def sync_part_def Let_def split_def)
next
  case (Client sv ms mem r sv')
  then show ?case
    using on_request_reachable by blast
next
  case (Core sv i)
  then show ?case
    using reachable.Core by simp
qed

text \<open>C2. The whole service keeps its data structures consistent: in every state the running service can reach by messages of peers, gossip, client
  requests and core threads, every key is in the shard it routes to, every blob decodes, the access rules and the key
  index are well formed, and the root hash it would advertise is the hash tree over the content of the store.\<close>

theorem service_consistent:
  assumes "ext_laws X" and "meta_small X" and "service_reachable X sv"
  shows "store_inv X (e_store (sv_engine sv)) \<and>
    fst (get_merkle_root_hash X (sv_engine sv)) = ref_root (xxh3 X) (leaf_content X (shards (e_store (sv_engine sv))))"
  using reachable_inv [OF service_engine_reachable [OF assms(3)] assms(1,2)] root_of_content by blast

theorem service_consistent_witness:
  "store_inv demo (e_store (sv_engine (on_gossip demo 0 sample_service)))"
  using service_consistent [OF demo_ext_laws demo_meta_small service_reachable.Gossip [OF service_reachable.Start]]
  unfolding sample_service_def by blast

end
